(* ===== verification/Lws_Prelude.thy ===== *)
theory Lws_Prelude
  imports Main "HOL-Library.Word" "HOL-Library.Monad_Syntax"
begin

text \<open>
  What the component theories share: the C types of the sources, the model of C memory accesses
  and the generic lemmas about them.

  \<^item> Fixed-width integers: bytes are \<open>u8\<close>, words of the other widths \<open>u16\<close>, \<open>u32\<close>, \<open>u64\<close>. Where
    the code computes with indices and sizes, a \<open>uint32_t\<close> is a natural number and the wrap-around
    is written out with \<open>add32\<close>, \<open>sub32\<close> and \<open>mul64\<close>; \<open>int_of32\<close> and \<open>nat32\<close> are the conversions
    between \<open>uint32_t\<close> and \<open>int\<close> (two's complement).
  \<^item> A C array is the list of its elements. An access outside of it is undefined behaviour in C;
    here it is the value \<open>None\<close> of an option type, so that memory safety of an operation is the
    theorem that the operation returns \<open>Some\<close>.
  \<^item> A NUL-terminated C string is either the list of its bytes without the terminator or, where the
    code walks over the terminator, the memory that holds it.
\<close>

unbundle bit_operations_syntax

named_theorems mem_simps \<open>rewriting of the memory accesses\<close>
named_theorems c_arith \<open>fixed-width arithmetic that does not wrap\<close>

type_synonym u8 = "8 word"
type_synonym u16 = "16 word"
type_synonym u32 = "32 word"
type_synonym u64 = "64 word"

abbreviation ch :: "char \<Rightarrow> u8" where
  "ch c \<equiv> of_char c"

abbreviation bytes_of :: "string \<Rightarrow> u8 list" where
  "bytes_of s \<equiv> map of_char s"


subsection \<open>Unsigned 32 bit arithmetic on natural numbers\<close>

definition add32 :: "nat \<Rightarrow> nat \<Rightarrow> nat" where
  "add32 a b = (a + b) mod 2 ^ 32"

definition sub32 :: "nat \<Rightarrow> nat \<Rightarrow> nat" where
  "sub32 a b = (a + (2 ^ 32 - b mod 2 ^ 32)) mod 2 ^ 32"

definition mul64 :: "nat \<Rightarrow> nat \<Rightarrow> nat" where
  "mul64 a b = (a * b) mod 2 ^ 64"

definition int_of32 :: "nat \<Rightarrow> int" where
  "int_of32 n =
     (let m = n mod 2 ^ 32 in if m < 2 ^ 31 then int m else int m - 2 ^ 32)"

definition nat32 :: "int \<Rightarrow> nat" where
  "nat32 i = nat (i mod 2 ^ 32)"

definition size_of_int :: "int \<Rightarrow> nat" where
  \<comment> \<open>conversion of an \<open>int\<close> to \<open>size_t\<close>\<close>
  "size_of_int i = nat (i mod 2 ^ 64)"

definition udiv :: "nat \<Rightarrow> nat \<Rightarrow> nat option" where
  \<comment> \<open>unsigned division; by zero it is undefined\<close>
  "udiv a b = (if b = 0 then None else Some (a div b))"

definition umod :: "nat \<Rightarrow> nat \<Rightarrow> nat option" where
  "umod a b = (if b = 0 then None else Some (a mod b))"

lemma udiv_Some [c_arith]: "0 < b \<Longrightarrow> udiv a b = Some (a div b)"
  by (simp add: udiv_def)

lemma umod_Some [c_arith]: "0 < b \<Longrightarrow> umod a b = Some (a mod b)"
  by (simp add: umod_def)

lemma size_of_int_small [c_arith]: "0 \<le> i \<Longrightarrow> i < 2 ^ 64 \<Longrightarrow> size_of_int i = nat i"
  by (simp add: size_of_int_def)

lemma size_of_int_int [c_arith]: "n < 2 ^ 64 \<Longrightarrow> size_of_int (int n) = n"
  by (simp add: size_of_int_def nat_mod_distrib)

lemma nat_int_diff [c_arith]: "m \<le> n \<Longrightarrow> nat (int n - int m) = n - m"
  by simp

lemma size_of_int_diff [c_arith]: "m \<le> n \<Longrightarrow> n < 2 ^ 64 \<Longrightarrow> size_of_int (int n - int m) = n - m"
  by (simp add: size_of_int_def)

lemma nat32_diff [c_arith]: "m \<le> n \<Longrightarrow> n < 2 ^ 32 \<Longrightarrow> nat32 (int n - int m) = n - m"
  by (simp add: nat32_def)

lemma add32_small [c_arith]: "a + b < 2 ^ 32 \<Longrightarrow> add32 a b = a + b"
  by (simp add: add32_def)

lemma sub32_small [c_arith]: "b \<le> a \<Longrightarrow> a < 2 ^ 32 \<Longrightarrow> sub32 a b = a - b"
proof -
  assume le: "b \<le> a" and lt: "a < 2 ^ 32"
  then have "a + (2 ^ 32 - b mod 2 ^ 32) = (a - b) + 2 ^ 32" by simp
  moreover have "((a - b) + 2 ^ 32) mod 2 ^ 32 = (a - b) mod 2 ^ 32"
    by (rule mod_add_self2)
  ultimately show ?thesis using lt by (simp add: sub32_def)
qed

lemma mul64_small [c_arith]: "a * b < 2 ^ 64 \<Longrightarrow> mul64 a b = a * b"
  by (simp add: mul64_def)

lemma int_of32_small [c_arith]: "n < 2 ^ 31 \<Longrightarrow> int_of32 n = int n"
  by (simp add: int_of32_def)

lemma nat32_small [c_arith]: "0 \<le> i \<Longrightarrow> i < 2 ^ 32 \<Longrightarrow> nat32 i = nat i"
  by (simp add: nat32_def)

lemma nat32_int [c_arith]: "n < 2 ^ 32 \<Longrightarrow> nat32 (int n) = n"
  by (simp add: nat32_def nat_mod_distrib)

lemma clamp_nat32:
  "a < 2 ^ 31 \<Longrightarrow> (if nat32 (int_of32 a) > b then int_of32 b else int_of32 a) = int (min a b)"
  by (auto simp: int_of32_small nat32_int min_def)

lemma clamp_size:
  "a < 2 ^ 31 \<Longrightarrow> (if size_of_int (int_of32 a) > b then int_of32 b else int_of32 a) = int (min a b)"
  by (auto simp: int_of32_small size_of_int_int min_def)

lemma add32_less [simp]: "add32 a b < 2 ^ 32"
  by (simp add: add32_def)


lemma byte_eq_iff:
  "(x = (y::u8)) \<longleftrightarrow>
     (bit x 0 = bit y 0 \<and> bit x 1 = bit y 1 \<and> bit x 2 = bit y 2 \<and> bit x 3 = bit y 3 \<and>
      bit x 4 = bit y 4 \<and> bit x 5 = bit y 5 \<and> bit x 6 = bit y 6 \<and> bit x 7 = bit y 7)" (is "_ \<longleftrightarrow> ?bits")
proof
  assume bits: ?bits
  show "x = y"
  proof (rule bit_word_eqI)
    fix n assume "n < LENGTH(8)"
    then have "n = 0 \<or> n = 1 \<or> n = 2 \<or> n = 3 \<or> n = 4 \<or> n = 5 \<or> n = 6 \<or> n = 7" by auto
    with bits show "bit x n = bit y n" by blast
  qed
qed simp


lemma byte_bit_high: "8 \<le> n \<Longrightarrow> \<not> bit (x::u8) n"
  by (auto dest: bit_imp_le_length)


subsection \<open>Arrays\<close>

definition rd :: "'a list \<Rightarrow> nat \<Rightarrow> 'a option" where
  "rd xs i = (if i < length xs then Some (xs ! i) else None)"

definition wr :: "'a list \<Rightarrow> nat \<Rightarrow> 'a \<Rightarrow> 'a list option" where
  "wr xs i v = (if i < length xs then Some (xs[i := v]) else None)"

definition memcpy_to :: "'a list \<Rightarrow> nat \<Rightarrow> 'a list \<Rightarrow> nat \<Rightarrow> nat \<Rightarrow> 'a list option" where
  \<comment> \<open>\<open>memcpy(dst + d, src + s, n)\<close>\<close>
  "memcpy_to dst d src s n =
     (if d + n \<le> length dst \<and> s + n \<le> length src
      then Some (take d dst @ take n (drop s src) @ drop (d + n) dst) else None)"

definition rds :: "'a list \<Rightarrow> nat \<Rightarrow> nat \<Rightarrow> 'a list option" where
  \<comment> \<open>the \<open>n\<close> elements from \<open>i\<close> on\<close>
  "rds xs i n = (if i + n \<le> length xs then Some (take n (drop i xs)) else None)"

lemma rds_Some [mem_simps]: "i + n \<le> length xs \<Longrightarrow> rds xs i n = Some (take n (drop i xs))"
  by (simp add: rds_def)

lemma rds_length: "rds xs i n = Some ys \<Longrightarrow> length ys = n"
  by (auto simp: rds_def split: if_splits)

lemma rd_Some [mem_simps]: "i < length xs \<Longrightarrow> rd xs i = Some (xs ! i)"
  by (simp add: rd_def)

lemma rd_None [mem_simps]: "length xs \<le> i \<Longrightarrow> rd xs i = None"
  by (simp add: rd_def)

lemma rd_eq_Some: "rd xs i = Some v \<longleftrightarrow> i < length xs \<and> v = xs ! i"
  by (auto simp: rd_def)

lemma wr_Some [mem_simps]: "i < length xs \<Longrightarrow> wr xs i v = Some (xs[i := v])"
  by (simp add: wr_def)

lemma wr_None [mem_simps]: "length xs \<le> i \<Longrightarrow> wr xs i v = None"
  by (simp add: wr_def)

lemma wr_eq_Some: "wr xs i v = Some ys \<longleftrightarrow> i < length xs \<and> ys = xs[i := v]"
  by (auto simp: wr_def)

lemma wr_length: "wr xs i v = Some ys \<Longrightarrow> length ys = length xs"
  by (auto simp: wr_def split: if_splits)

lemma memcpy_to_Some [mem_simps]:
  "d + n \<le> length dst \<Longrightarrow> s + n \<le> length src \<Longrightarrow>
   memcpy_to dst d src s n = Some (take d dst @ take n (drop s src) @ drop (d + n) dst)"
  by (simp add: memcpy_to_def)

lemma memcpy_to_length: "memcpy_to dst d src s n = Some dst' \<Longrightarrow> length dst' = length dst"
  by (auto simp: memcpy_to_def split: if_splits)

lemma memcpy_to_nth:
  assumes "memcpy_to dst d src s n = Some dst'" and "j < length dst"
  shows "dst' ! j = (if d \<le> j \<and> j < d + n then src ! (s + (j - d)) else dst ! j)"
proof -
  have le: "d + n \<le> length dst" "s + n \<le> length src"
    and eq: "dst' = take d dst @ take n (drop s src) @ drop (d + n) dst"
    using assms(1) by (auto simp: memcpy_to_def split: if_splits)
  have "length (take d dst) = d" "length (take n (drop s src)) = n"
    using le by simp_all
  then show ?thesis using le assms(2) by (auto simp: eq nth_append)
qed


subsection \<open>Options\<close>

lemma bind_eq_Some: "(x \<bind> f) = Some y \<longleftrightarrow> (\<exists>z. x = Some z \<and> f z = Some y)"
  by (cases x) auto

lemma bind_eq_None: "(x \<bind> f) = None \<longleftrightarrow> x = None \<or> (\<exists>z. x = Some z \<and> f z = None)"
  by (cases x) auto

end
