(* ===== verification/Circular.thy ===== *)
theory Circular
  imports Lws_Prelude
begin

text \<open>
  Slices of a circular buffer: the \<open>n\<close> elements that start at index \<open>s\<close> and continue at index 0
  after the last one. \<open>cwritten\<close> says that one buffer is another one overwritten along such a
  slice; it is the contract that the two \<open>memcpy\<close> calls of a wrapping insert establish.
\<close>

definition cslice :: "'a list \<Rightarrow> nat \<Rightarrow> nat \<Rightarrow> 'a list" where
  "cslice b s n = map (\<lambda>i. b ! ((s + i) mod length b)) [0..<n]"

definition cdist :: "nat \<Rightarrow> nat \<Rightarrow> nat \<Rightarrow> nat" where
  \<comment> \<open>how far index \<open>h\<close> is ahead of index \<open>t\<close> in a buffer of length \<open>L\<close>\<close>
  "cdist L t h = (if t \<le> h then h - t else h + L - t)"

definition cwritten :: "'a list \<Rightarrow> nat \<Rightarrow> 'a list \<Rightarrow> 'a list \<Rightarrow> bool" where
  "cwritten b s xs b' \<longleftrightarrow> length b' = length b \<and>
     (\<forall>j < length b. b' ! j =
        (if cdist (length b) s j < length xs then xs ! cdist (length b) s j else b ! j))"

lemma length_cslice [simp]: "length (cslice b s n) = n"
  by (simp add: cslice_def)

lemma cslice_0 [simp]: "cslice b s 0 = []"
  by (simp add: cslice_def)

lemma nth_cslice: "i < n \<Longrightarrow> cslice b s n ! i = b ! ((s + i) mod length b)"
  by (simp add: cslice_def)

lemma cslice_append:
  "cslice b s (n + m) = cslice b s n @ cslice b ((s + n) mod length b) m"
proof (rule nth_equalityI)
  show "length (cslice b s (n + m)) = length (cslice b s n @ cslice b ((s + n) mod length b) m)"
    by simp
next
  fix i assume "i < length (cslice b s (n + m))"
  then have i: "i < n + m" by simp
  show "cslice b s (n + m) ! i = (cslice b s n @ cslice b ((s + n) mod length b) m) ! i"
  proof (cases "i < n")
    case True
    with i show ?thesis by (simp add: nth_append nth_cslice)
  next
    case False
    then obtain k where k: "i = n + k" by (metis le_add_diff_inverse not_less)
    with i show ?thesis by (simp add: nth_append nth_cslice mod_add_left_eq add.assoc)
  qed
qed

lemma take_cslice: "k \<le> n \<Longrightarrow> take k (cslice b s n) = cslice b s k"
  by (simp add: cslice_def take_map)

lemma drop_cslice: "k \<le> n \<Longrightarrow> drop k (cslice b s n) = cslice b ((s + k) mod length b) (n - k)"
  using cslice_append [of b s k "n - k"] by simp

lemma cslice_linear:
  assumes "s + n \<le> length b"
  shows "cslice b s n = take n (drop s b)"
  using assms by (intro nth_equalityI) (simp_all add: nth_cslice)

lemma cslice_wrap:
  assumes "s < length b" and "length b \<le> s + n" and "n \<le> length b"
  shows "cslice b s n = drop s b @ take (s + n - length b) b"
proof -
  let ?m = "length b - s"
  have n: "n = ?m + (s + n - length b)" using assms by simp
  have "cslice b s n = cslice b s ?m @ cslice b ((s + ?m) mod length b) (s + n - length b)"
    by (subst n) (rule cslice_append)
  also have "cslice b s ?m = drop s b" using assms by (simp add: cslice_linear)
  also have "cslice b ((s + ?m) mod length b) (s + n - length b) = take (s + n - length b) b"
    using assms by (simp add: cslice_linear)
  finally show ?thesis .
qed

lemma wrap_index:
  fixes s n L :: nat
  assumes "s < L" and "L \<le> s + n"
  shows "(s + n) mod L = (n - (L - s)) mod L"
proof -
  have "s + n = (n - (L - s)) + L" using assms by simp
  then show ?thesis by (metis mod_add_self2)
qed

lemma cdist_less: "t < L \<Longrightarrow> h < L \<Longrightarrow> cdist L t h < L"
  by (auto simp: cdist_def)

lemma cdist_eq_0: "t < L \<Longrightarrow> h < L \<Longrightarrow> cdist L t h = 0 \<longleftrightarrow> t = h"
  by (auto simp: cdist_def)

lemma cdist_inj: "a < L \<Longrightarrow> b < L \<Longrightarrow> h < L \<Longrightarrow> cdist L a h = cdist L b h \<Longrightarrow> a = b"
  by (auto simp: cdist_def split: if_splits)

lemma cdist_advance: "t < L \<Longrightarrow> h < L \<Longrightarrow> (t + cdist L t h) mod L = h"
  by (auto simp: cdist_def)

lemma cdist_of_advance:
  assumes "s < L" and "k < L"
  shows "cdist L s ((s + k) mod L) = k"
proof (cases "s + k < L")
  case True
  then show ?thesis by (simp add: cdist_def)
next
  case False
  with assms have "(s + k) mod L = s + k - L"
    by (simp add: mod_if)
  with assms False show ?thesis by (auto simp: cdist_def)
qed

lemma cdist_tail_step:
  assumes "t < L" and "h < L" and "k \<le> cdist L t h"
  shows "cdist L ((t + k) mod L) h = cdist L t h - k"
proof -
  have k: "k < L" using assms cdist_less [OF assms(1,2)] by simp
  show ?thesis
  proof (cases "t + k < L")
    case True
    with assms show ?thesis by (auto simp: cdist_def split: if_splits)
  next
    case False
    with assms k have "(t + k) mod L = t + k - L" by (simp add: mod_if)
    with assms False show ?thesis by (auto simp: cdist_def split: if_splits)
  qed
qed

lemma cdist_head_step:
  assumes "t < L" and "h < L" and "cdist L t h + k < L"
  shows "cdist L t ((h + k) mod L) = cdist L t h + k"
proof -
  have "(h + k) mod L = (t + (cdist L t h + k)) mod L"
    using cdist_advance [OF assms(1,2)] by (metis add.assoc mod_add_left_eq)
  then show ?thesis using cdist_of_advance [OF assms(1,3)] by simp
qed

lemma cdist_add:
  assumes "t < L" and "h < L" and "i < L"
  shows "cdist L h ((t + i) mod L) =
    (if i < cdist L t h then L - (cdist L t h - i) else i - cdist L t h)"
proof (cases "t + i < L")
  case True
  with assms show ?thesis by (auto simp: cdist_def)
next
  case False
  with assms have "(t + i) mod L = t + i - L" by (simp add: mod_if)
  with assms False show ?thesis by (auto simp: cdist_def)
qed

text \<open>What a write along a slice does to the slice itself and to one that ends where it starts.\<close>

lemma cwritten_slice:
  assumes "cwritten b s xs b'" and "s < length b" and "length xs \<le> length b"
  shows "cslice b' s (length xs) = xs"
proof (rule nth_equalityI)
  fix i assume "i < length (cslice b' s (length xs))"
  then have i: "i < length xs" by simp
  with assms have "i < length b" by simp
  moreover have "(s + i) mod length b < length b" using assms(2) by (intro mod_less_divisor) linarith
  ultimately show "cslice b' s (length xs) ! i = xs ! i"
    using assms i by (simp add: nth_cslice cwritten_def cdist_of_advance)
qed simp

lemma cwritten_before:
  assumes "cwritten b h xs b'" and "t < length b" and "h < length b"
    and "n \<le> cdist (length b) t h" and "cdist (length b) t h + length xs \<le> length b"
  shows "cslice b' t n = cslice b t n"
proof (rule nth_equalityI)
  fix i assume "i < length (cslice b' t n)"
  then have i: "i < n" by simp
  have il: "i < length b" using i assms cdist_less [of t "length b" h] by simp
  have "(t + i) mod length b < length b" using assms(2) by (intro mod_less_divisor) linarith
  moreover have "\<not> cdist (length b) h ((t + i) mod length b) < length xs"
    using i il assms by (simp add: cdist_add)
  ultimately show "cslice b' t n ! i = cslice b t n ! i"
    using assms(1) i by (simp add: nth_cslice cwritten_def)
qed simp

lemma cwritten_extends:
  assumes "cwritten b h xs b'" and "t < length b" and "h < length b"
    and "cdist (length b) t h + length xs \<le> length b"
  shows "cslice b' t (cdist (length b) t h + length xs) = cslice b t (cdist (length b) t h) @ xs"
proof -
  have len: "length b' = length b" using assms(1) by (simp add: cwritten_def)
  have "cslice b' t (cdist (length b) t h + length xs) =
      cslice b' t (cdist (length b) t h) @ cslice b' h (length xs)"
    using assms(2,3) by (simp add: cslice_append len cdist_advance)
  also have "cslice b' t (cdist (length b) t h) = cslice b t (cdist (length b) t h)"
    using assms by (intro cwritten_before) auto
  also have "cslice b' h (length xs) = xs"
    using assms by (intro cwritten_slice) auto
  finally show ?thesis .
qed

text \<open>One block copy that does not wrap, and two that do, are such writes.\<close>

lemma memcpy_cwritten:
  assumes "s + length xs \<le> length b"
  shows "cwritten b s xs (take s b @ xs @ drop (s + length xs) b)"
  using assms by (auto simp: cwritten_def cdist_def nth_append add.commute)

lemma memcpy_wrap_cwritten:
  assumes "s < length b" and "length b < s + length xs" and "length xs \<le> length b"
  defines "m \<equiv> length b - s"
  shows "cwritten b s xs
    (drop m xs @ drop (length xs - m) (take s b @ take m xs @ drop (s + m) b))"
  using assms by (auto simp: cwritten_def cdist_def nth_append add.commute)

end
