(* ===== verification/Fifo.thy ===== *)
theory Fifo
  imports Lws_Prelude
begin

text \<open>
  The contract of a bounded byte queue, as an interface: an insert accepts a prefix of what it is
  given and appends it to the contents, a read removes a prefix of the contents. A client that
  interleaves the two in any order receives the accepted bytes unchanged and in order.
\<close>

datatype 'a fifo_op = Put "'a list" | Get nat

fun fifo_run ::
  "('s \<Rightarrow> 'a list \<Rightarrow> ('s \<times> nat) option) \<Rightarrow> ('s \<Rightarrow> nat \<Rightarrow> ('s \<times> 'a list) option) \<Rightarrow>
   's \<Rightarrow> 'a fifo_op list \<Rightarrow> ('s \<times> 'a list \<times> 'a list) option" where
  \<comment> \<open>the final state, all that was accepted and all that was delivered\<close>
  "fifo_run put get s [] = Some (s, [], [])"
| "fifo_run put get s (Put xs # ops) =
     do { (s', n) \<leftarrow> put s xs;
          (s'', ins, outs) \<leftarrow> fifo_run put get s' ops;
          Some (s'', take n xs @ ins, outs) }"
| "fifo_run put get s (Get n # ops) =
     do { (s', out) \<leftarrow> get s n;
          (s'', ins, outs) \<leftarrow> fifo_run put get s' ops;
          Some (s'', ins, out @ outs) }"

fun fifo_op_pre :: "('s \<Rightarrow> 'a list \<Rightarrow> bool) \<Rightarrow> ('s \<Rightarrow> nat \<Rightarrow> bool) \<Rightarrow> 's \<Rightarrow> 'a fifo_op \<Rightarrow> bool" where
  "fifo_op_pre put_pre get_pre s (Put xs) = put_pre s xs"
| "fifo_op_pre put_pre get_pre s (Get n) = get_pre s n"

locale byte_fifo =
  fixes inv :: "'s \<Rightarrow> bool"
    and contents :: "'s \<Rightarrow> 'a list"
    and put :: "'s \<Rightarrow> 'a list \<Rightarrow> ('s \<times> nat) option"
    and get :: "'s \<Rightarrow> nat \<Rightarrow> ('s \<times> 'a list) option"
    and put_pre :: "'s \<Rightarrow> 'a list \<Rightarrow> bool"
    and get_pre :: "'s \<Rightarrow> nat \<Rightarrow> bool"
  assumes put_law: "inv s \<Longrightarrow> put_pre s xs \<Longrightarrow>
      \<exists>s' n. put s xs = Some (s', n) \<and> inv s' \<and> n \<le> length xs \<and>
        contents s' = contents s @ take n xs \<and> put_pre s' = put_pre s \<and> get_pre s' = get_pre s"
    and get_law: "inv s \<Longrightarrow> get_pre s n \<Longrightarrow>
      \<exists>s' out. get s n = Some (s', out) \<and> inv s' \<and>
        contents s = out @ contents s' \<and> put_pre s' = put_pre s \<and> get_pre s' = get_pre s"
begin

lemma fifo_run_order:
  assumes "inv s" and "\<And>op. op \<in> set ops \<Longrightarrow> fifo_op_pre put_pre get_pre s op"
  shows "\<exists>s' ins outs. fifo_run put get s ops = Some (s', ins, outs) \<and> inv s' \<and>
     contents s @ ins = outs @ contents s'"
  using assms
proof (induction ops arbitrary: s)
  case Nil
  then show ?case by simp
next
  case (Cons op ops)
  have rest: "fifo_op_pre put_pre get_pre s' p" if "p \<in> set ops" "put_pre s' = put_pre s" "get_pre s' = get_pre s" for s' p
    using Cons.prems(2) [of p] that by (cases p) auto
  show ?case
  proof (cases op)
    case (Put xs)
    with Cons.prems have "put_pre s xs" by force
    from put_law [OF Cons.prems(1) this] obtain s' n where
      s': "put s xs = Some (s', n)" "inv s'" "contents s' = contents s @ take n xs"
        "put_pre s' = put_pre s" "get_pre s' = get_pre s" by blast
    from Cons.IH [OF s'(2) rest [OF _ s'(4,5)]] show ?thesis using Put s' by auto
  next
    case (Get n)
    with Cons.prems have "get_pre s n" by force
    from get_law [OF Cons.prems(1) this] obtain s' out where
      s': "get s n = Some (s', out)" "inv s'" "contents s = out @ contents s'"
        "put_pre s' = put_pre s" "get_pre s' = get_pre s" by blast
    from Cons.IH [OF s'(2) rest [OF _ s'(4,5)]] show ?thesis using Get s' by auto
  qed
qed

end

end
