(* ===== verification/Lws_Ring.thy ===== *)
theory Lws_Ring
  imports Circular Fifo
begin

text \<open>
  The multi-tail ring buffer of \<^verbatim>\<open>lib/misc/lws-ring.c\<close>, its struct in \<^verbatim>\<open>lib/core/private.h\<close> and the
  two consumer macros of \<^verbatim>\<open>include/libwebsockets/lws-ring.h\<close>.

  The record has the fields of \<open>struct lws_ring\<close>; \<open>ring_buf\<close> is the allocation, byte by byte, and
  \<open>ring_destroy_element\<close> says whether the element destroy callback is set. The callback belongs to
  the user of the ring; the model returns the elements it is called on, in the order of the calls.
  A \<open>uint32_t *tail\<close> argument is an option, with \<open>None\<close> for \<open>NULL\<close>. Results of type option are
  \<open>None\<close> where the C code would access memory outside of the allocation, divide by zero or not
  return. The contents of the ring from the point of view of a tail are \<open>ring_bytes\<close>; the theorems
  say that an insert appends to them and a consume removes from their front.
\<close>

record lws_ring =
  ring_buf :: "u8 list"
  ring_destroy_element :: bool
  ring_buflen :: nat
  ring_element_len :: nat
  ring_head :: nat
  ring_oldest_tail :: nat


subsection \<open>Creation and queries\<close>

definition lws_ring_create :: "(nat \<Rightarrow> u8 list option) \<Rightarrow> nat \<Rightarrow> nat \<Rightarrow> bool \<Rightarrow> lws_ring option" where
  \<comment> \<open>\<open>malloc n\<close> is a block of \<open>n\<close> bytes of any content, or \<open>None\<close>; the result \<open>None\<close> is \<open>NULL\<close>\<close>
  "lws_ring_create malloc element_len count destroy_element =
     (case malloc 32 of None \<Rightarrow> None
      | Some _ \<Rightarrow>
        let buflen = mul64 count element_len mod 2 ^ 32 in
        (case malloc buflen of None \<Rightarrow> None
         | Some b \<Rightarrow> Some \<lparr>ring_buf = b, ring_destroy_element = destroy_element,
             ring_buflen = buflen, ring_element_len = element_len mod 2 ^ 32,
             ring_head = 0, ring_oldest_tail = 0\<rparr>))"

definition lws_ring_get_count_free_elements :: "lws_ring \<Rightarrow> nat option" where
  "lws_ring_get_count_free_elements r =
     (let f = (if ring_head r = ring_oldest_tail r
               then int_of32 (sub32 (ring_buflen r) (ring_element_len r))
               else if ring_head r < ring_oldest_tail r
               then int_of32 (sub32 (sub32 (ring_oldest_tail r) (ring_head r)) (ring_element_len r))
               else int_of32 (sub32 (add32 (sub32 (ring_buflen r) (ring_head r)) (ring_oldest_tail r))
                                    (ring_element_len r)))
      in if f < 2 then Some 0 else udiv (nat32 f) (ring_element_len r))"

definition ring_tail :: "lws_ring \<Rightarrow> nat option \<Rightarrow> nat" where
  \<comment> \<open>\<open>if (!tail) tail = &ring->oldest_tail\<close>\<close>
  "ring_tail r tail = (case tail of None \<Rightarrow> ring_oldest_tail r | Some t \<Rightarrow> t)"

definition lws_ring_get_count_waiting_elements :: "lws_ring \<Rightarrow> nat option \<Rightarrow> nat option" where
  "lws_ring_get_count_waiting_elements r tail =
     (let t = ring_tail r tail;
          f = (if ring_head r = t then 0
               else if ring_head r > t then int_of32 (sub32 (ring_head r) t)
               else int_of32 (add32 (sub32 (ring_buflen r) t) (ring_head r)))
      in udiv (nat32 f) (ring_element_len r))"

definition lws_ring_next_linear_insert_range :: "lws_ring \<Rightarrow> (nat \<times> nat) option option" where
  \<comment> \<open>\<open>Some None\<close> for the return value 1; \<open>Some (Some (start, bytes))\<close> for 0, \<open>start\<close> an index of the buffer\<close>
  "lws_ring_next_linear_insert_range r =
     do { free \<leftarrow> lws_ring_get_count_free_elements r;
          let n = int_of32 (mul64 free (ring_element_len r));
          if n = 0 then Some None
          else if add32 (ring_head r) (nat32 n) > ring_buflen r
          then Some (Some (ring_head r, sub32 (ring_buflen r) (ring_head r)))
          else Some (Some (ring_head r, size_of_int n)) }"

definition lws_ring_bump_head :: "lws_ring \<Rightarrow> nat \<Rightarrow> lws_ring option" where
  "lws_ring_bump_head r bytes =
     do { h \<leftarrow> umod (add32 (ring_head r) (bytes mod 2 ^ 32)) (ring_buflen r);
          Some (r\<lparr>ring_head := h\<rparr>) }"

definition lws_ring_get_element :: "lws_ring \<Rightarrow> nat option \<Rightarrow> nat option" where
  \<comment> \<open>the index of the element in the buffer, \<open>None\<close> for \<open>NULL\<close>\<close>
  "lws_ring_get_element r tail =
     (if ring_tail r tail = ring_head r then None else Some (ring_tail r tail))"

definition lws_ring_get_oldest_tail :: "lws_ring \<Rightarrow> nat" where
  "lws_ring_get_oldest_tail r = ring_oldest_tail r"


subsection \<open>Retiring elements\<close>

definition ring_element :: "lws_ring \<Rightarrow> nat \<Rightarrow> u8 list" where
  "ring_element r ofs = take (ring_element_len r) (drop ofs (ring_buf r))"

partial_function (option) ring_retire ::
  "lws_ring \<Rightarrow> nat \<Rightarrow> u8 list list \<Rightarrow> (lws_ring \<times> u8 list list) option" where
  \<comment> \<open>the loop that moves \<open>oldest_tail\<close> on to \<open>tail\<close> and calls \<open>destroy_element\<close> on the way\<close>
  "ring_retire r tail destroyed =
     (if ring_oldest_tail r = tail then Some (r, destroyed)
      else do { t \<leftarrow> umod (add32 (ring_oldest_tail r) (ring_element_len r)) (ring_buflen r);
                ring_retire (r\<lparr>ring_oldest_tail := t\<rparr>) tail
                  (destroyed @ [ring_element r (ring_oldest_tail r)]) })"

definition lws_ring_update_oldest_tail ::
  "lws_ring \<Rightarrow> nat \<Rightarrow> (lws_ring \<times> u8 list list) option" where
  "lws_ring_update_oldest_tail r tail =
     (if \<not> ring_destroy_element r then Some (r\<lparr>ring_oldest_tail := tail\<rparr>, [])
      else ring_retire r tail [])"

definition lws_ring_destroy :: "lws_ring \<Rightarrow> u8 list list option" where
  \<comment> \<open>the elements passed to \<open>destroy_element\<close> before the allocations are freed\<close>
  "lws_ring_destroy r =
     (if ring_destroy_element r then map_option snd (ring_retire r (ring_head r) [])
      else Some [])"


subsection \<open>Inserting and consuming\<close>

definition lws_ring_insert :: "lws_ring \<Rightarrow> u8 list \<Rightarrow> nat \<Rightarrow> (lws_ring \<times> nat) option" where
  "lws_ring_insert r src max_count =
     do { free \<leftarrow> lws_ring_get_count_free_elements r;
          let n = int_of32 (mul64 free (ring_element_len r));
          let n = (if nat32 n > mul64 max_count (ring_element_len r)
                   then int_of32 (mul64 max_count (ring_element_len r)) else n);
          if add32 (ring_head r) (nat32 n) > ring_buflen r
          then do {
            let m = int_of32 (sub32 (ring_buflen r) (ring_head r));
            b \<leftarrow> memcpy_to (ring_buf r) (ring_head r) src 0 (size_of_int m);
            b \<leftarrow> memcpy_to b 0 src (nat m) (size_of_int (n - m));
            h \<leftarrow> umod (nat32 (n - m)) (ring_buflen r);
            k \<leftarrow> udiv (nat (m + (n - m))) (ring_element_len r);
            Some (r\<lparr>ring_buf := b, ring_head := h\<rparr>, k) }
          else do {
            b \<leftarrow> memcpy_to (ring_buf r) (ring_head r) src 0 (size_of_int n);
            h \<leftarrow> umod (add32 (ring_head r) (nat32 n)) (ring_buflen r);
            k \<leftarrow> udiv (nat n) (ring_element_len r);
            Some (r\<lparr>ring_buf := b, ring_head := h\<rparr>, k) } }"

type_synonym consume_result = "lws_ring \<times> nat \<times> u8 list option \<times> nat \<times> u8 list list"

definition ring_consume_finish ::
  "lws_ring \<Rightarrow> nat option \<Rightarrow> nat \<Rightarrow> u8 list option \<Rightarrow> nat \<Rightarrow> consume_result option" where
  \<comment> \<open>\<open>if (!orig_tail) lws_ring_update_oldest_tail(ring, *tail)\<close>\<close>
  "ring_consume_finish r orig_tail t dest k =
     (case orig_tail of
        Some _ \<Rightarrow> Some (r, t, dest, k, [])
      | None \<Rightarrow> do { (r', destroyed) \<leftarrow> lws_ring_update_oldest_tail r t;
                    Some (r', t, dest, k, destroyed) })"

definition lws_ring_consume ::
  "lws_ring \<Rightarrow> nat option \<Rightarrow> u8 list option \<Rightarrow> nat \<Rightarrow> consume_result option" where
  \<comment> \<open>the result holds the ring, \<open>*tail\<close>, the buffer at \<open>dest\<close>, the count and the destroyed elements\<close>
  "lws_ring_consume r tail dest max_count =
     do { waiting \<leftarrow> lws_ring_get_count_waiting_elements r tail;
          let t = ring_tail r tail;
          let n = int_of32 (mul64 waiting (ring_element_len r));
          let n = (if size_of_int n > mul64 max_count (ring_element_len r)
                   then int_of32 (mul64 max_count (ring_element_len r)) else n);
          case dest of
            None \<Rightarrow> do {
              t' \<leftarrow> umod (add32 t (nat32 n)) (ring_buflen r);
              k \<leftarrow> udiv (nat32 n) (ring_element_len r);
              ring_consume_finish r tail t' None k }
          | Some d \<Rightarrow>
            if add32 t (nat32 n) > ring_buflen r
            then do {
              let m = int_of32 (sub32 (ring_buflen r) t);
              d \<leftarrow> memcpy_to d 0 (ring_buf r) t (size_of_int m);
              d \<leftarrow> memcpy_to d (nat m) (ring_buf r) 0 (size_of_int (n - m));
              t' \<leftarrow> umod (nat32 (n - m)) (ring_buflen r);
              k \<leftarrow> udiv (nat (m + (n - m))) (ring_element_len r);
              ring_consume_finish r tail t' (Some d) k }
            else do {
              d \<leftarrow> memcpy_to d 0 (ring_buf r) t (size_of_int n);
              t' \<leftarrow> umod (add32 t (nat32 n)) (ring_buflen r);
              k \<leftarrow> udiv (nat n) (ring_element_len r);
              ring_consume_finish r tail t' (Some d) k } }"

definition lws_ring_consume_single_tail ::
  "lws_ring \<Rightarrow> nat \<Rightarrow> nat \<Rightarrow> (lws_ring \<times> nat \<times> u8 list list) option" where
  "lws_ring_consume_single_tail r ptail count =
     do { (r1, t, _, _, d1) \<leftarrow> lws_ring_consume r (Some ptail) None count;
          (r2, d2) \<leftarrow> lws_ring_update_oldest_tail r1 t;
          Some (r2, t, d1 @ d2) }"

fun ring_scan_tails :: "lws_ring \<Rightarrow> nat list \<Rightarrow> nat \<Rightarrow> nat \<Rightarrow> nat option" where
  \<comment> \<open>the loop over the objects with tails: the one with the most elements waiting\<close>
  "ring_scan_tails r [] n oldest = Some oldest"
| "ring_scan_tails r (t # ts) n oldest =
     do { m \<leftarrow> lws_ring_get_count_waiting_elements r (Some t);
          if m \<ge> n then ring_scan_tails r ts m t else ring_scan_tails r ts n oldest }"

definition lws_ring_consume_and_update_oldest_tail ::
  "lws_ring \<Rightarrow> nat list \<Rightarrow> nat \<Rightarrow> nat \<Rightarrow> (lws_ring \<times> nat list \<times> u8 list list) option" where
  \<comment> \<open>\<open>tails\<close> are the tails of the list of objects, \<open>i\<close> the place of the one that consumes\<close>
  "lws_ring_consume_and_update_oldest_tail r tails i count =
     do { ptail \<leftarrow> rd tails i;
          let is_oldest = (lws_ring_get_oldest_tail r = ptail);
          (r1, t, _, _, d1) \<leftarrow> lws_ring_consume r (Some ptail) None count;
          let tails' = tails[i := t];
          if is_oldest
          then do { oldest \<leftarrow> ring_scan_tails r1 tails' 0 t;
                    (r2, d2) \<leftarrow> lws_ring_update_oldest_tail r1 oldest;
                    Some (r2, tails', d1 @ d2) }
          else Some (r1, tails', d1) }"


subsection \<open>Invariant and contents\<close>

definition ring_inv :: "lws_ring \<Rightarrow> bool" where
  "ring_inv r \<longleftrightarrow> 0 < ring_element_len r \<and> ring_buflen r < 2 ^ 31 \<and>
     length (ring_buf r) = ring_buflen r \<and>
     ring_head r < ring_buflen r \<and> ring_oldest_tail r < ring_buflen r \<and>
     ring_element_len r dvd ring_buflen r \<and> ring_element_len r dvd ring_head r \<and>
     ring_element_len r dvd ring_oldest_tail r"

definition ring_used :: "lws_ring \<Rightarrow> nat \<Rightarrow> nat" where
  "ring_used r t = cdist (ring_buflen r) t (ring_head r)"

definition ring_tail_ok :: "lws_ring \<Rightarrow> nat \<Rightarrow> bool" where
  \<comment> \<open>a tail is an element boundary between the oldest tail and the head\<close>
  "ring_tail_ok r t \<longleftrightarrow> t < ring_buflen r \<and> ring_element_len r dvd t \<and>
     ring_used r t \<le> ring_used r (ring_oldest_tail r)"

definition ring_bytes :: "lws_ring \<Rightarrow> nat \<Rightarrow> u8 list" where
  "ring_bytes r t = cslice (ring_buf r) t (ring_used r t)"

definition ring_free :: "lws_ring \<Rightarrow> nat" where
  "ring_free r =
     (let f = ring_buflen r - ring_element_len r - ring_used r (ring_oldest_tail r)
      in if f < 2 then 0 else f div ring_element_len r)"

lemma ring_invD:
  assumes "ring_inv r"
  shows "0 < ring_element_len r" "ring_buflen r < 2147483648"
    "length (ring_buf r) = ring_buflen r" "ring_head r < ring_buflen r"
    "ring_oldest_tail r < ring_buflen r" "ring_element_len r dvd ring_buflen r"
    "ring_element_len r dvd ring_head r" "ring_element_len r dvd ring_oldest_tail r"
    "ring_element_len r \<le> ring_buflen r"
  using assms by (auto simp: ring_inv_def intro: dvd_imp_le)

lemma oldest_tail_ok [simp]: "ring_inv r \<Longrightarrow> ring_tail_ok r (ring_oldest_tail r)"
  by (simp add: ring_inv_def ring_tail_ok_def)

lemma cdist_dvd: "(e::nat) dvd L \<Longrightarrow> e dvd t \<Longrightarrow> e dvd h \<Longrightarrow> e dvd cdist L t h"
  by (auto simp: cdist_def)

lemma ring_used_dvd:
  "ring_inv r \<Longrightarrow> ring_element_len r dvd t \<Longrightarrow> ring_element_len r dvd ring_used r t"
  by (simp add: ring_used_def cdist_dvd ring_invD)

lemma ring_used_le:
  assumes "ring_inv r" and "t < ring_buflen r" and "ring_element_len r dvd t"
  shows "ring_used r t + ring_element_len r \<le> ring_buflen r"
proof -
  note i = ring_invD [OF assms(1)]
  have "ring_used r t < ring_buflen r"
    unfolding ring_used_def using i assms(2) by (intro cdist_less)
  then obtain k l where "ring_used r t = ring_element_len r * k" "ring_buflen r = ring_element_len r * l"
    "ring_element_len r * k < ring_element_len r * l"
    using ring_used_dvd [OF assms(1,3)] i(6) by (elim dvdE) simp
  then show ?thesis using mult_le_mono2 [of "Suc k" l "ring_element_len r"] by simp
qed

lemma ring_free_le:
  assumes "ring_inv r"
  shows "ring_free r * ring_element_len r + ring_used r (ring_oldest_tail r) + ring_element_len r
     \<le> ring_buflen r"
proof -
  note i = ring_invD [OF assms]
  have "ring_used r (ring_oldest_tail r) + ring_element_len r \<le> ring_buflen r"
    using assms i by (intro ring_used_le) auto
  moreover have "ring_free r * ring_element_len r
      \<le> ring_buflen r - ring_element_len r - ring_used r (ring_oldest_tail r)"
    by (simp add: ring_free_def Let_def)
  ultimately show ?thesis by linarith
qed

lemma count_free_eq:
  assumes "ring_inv r"
  shows "lws_ring_get_count_free_elements r = Some (ring_free r)"
proof -
  note i = ring_invD [OF assms]
  let ?w = "ring_used r (ring_oldest_tail r)"
  define f where "f = ring_buflen r - ring_element_len r - ?w"
  have le: "?w + ring_element_len r \<le> ring_buflen r"
    using assms i by (intro ring_used_le) auto
  have "(if ring_head r = ring_oldest_tail r
         then int_of32 (sub32 (ring_buflen r) (ring_element_len r))
         else if ring_head r < ring_oldest_tail r
         then int_of32 (sub32 (sub32 (ring_oldest_tail r) (ring_head r)) (ring_element_len r))
         else int_of32 (sub32 (add32 (sub32 (ring_buflen r) (ring_head r)) (ring_oldest_tail r))
                              (ring_element_len r))) = int f"
    using i le by (auto simp: f_def c_arith ring_used_def cdist_def)
  moreover have "f < 2 ^ 31" using i by (simp add: f_def)
  moreover have "ring_free r = (if f < 2 then 0 else f div ring_element_len r)"
    by (simp add: ring_free_def f_def)
  ultimately show ?thesis
    using i by (simp add: lws_ring_get_count_free_elements_def Let_def c_arith)
qed

lemma count_waiting_eq:
  assumes "ring_inv r" and "ring_tail r tail < ring_buflen r"
  shows "lws_ring_get_count_waiting_elements r tail =
    Some (ring_used r (ring_tail r tail) div ring_element_len r)"
proof -
  note i = ring_invD [OF assms(1)]
  let ?t = "ring_tail r tail"
  have "(if ring_head r = ?t then 0
         else if ring_head r > ?t then int_of32 (sub32 (ring_head r) ?t)
         else int_of32 (add32 (sub32 (ring_buflen r) ?t) (ring_head r))) = int (ring_used r ?t)"
    using i assms(2) by (auto simp: c_arith ring_used_def cdist_def)
  moreover have "ring_used r ?t < ring_buflen r"
    unfolding ring_used_def using i assms(2) by (intro cdist_less)
  ultimately show ?thesis
    using i by (simp add: lws_ring_get_count_waiting_elements_def Let_def c_arith)
qed


subsection \<open>Insert\<close>

lemma ring_clamp:
  "a * e < 2 ^ 31 \<Longrightarrow> b * e < 2 ^ 64 \<Longrightarrow> mul64 a e = a * e \<and> mul64 b e = b * e"
  by (simp add: mul64_small)

lemma lws_ring_insert_eq:
  assumes inv: "ring_inv r" and no_wrap: "max_count * ring_element_len r < 2 ^ 64"
    and n: "n = min (ring_free r) max_count * ring_element_len r" and src: "n \<le> length src"
  shows "\<exists>b. lws_ring_insert r src max_count =
      Some (r\<lparr>ring_buf := b, ring_head := (ring_head r + n) mod ring_buflen r\<rparr>,
            min (ring_free r) max_count) \<and>
    cwritten (ring_buf r) (ring_head r) (take n src) b"
proof -
  note i = ring_invD [OF inv]
  have fr: "ring_free r * ring_element_len r < ring_buflen r"
    using ring_free_le [OF inv] i(1) by linarith
  have nL: "n < ring_buflen r" using fr n
    by (metis min.cobounded1 mult_le_mono1 order_le_less_trans)
  have big: "ring_free r * ring_element_len r < 2 ^ 31" using fr i(2) by simp
  have n_eq: "(if nat32 (int_of32 (mul64 (ring_free r) (ring_element_len r))) >
        mul64 max_count (ring_element_len r)
      then int_of32 (mul64 max_count (ring_element_len r))
      else int_of32 (mul64 (ring_free r) (ring_element_len r))) = int n"
    using ring_clamp [OF big no_wrap] clamp_nat32 [OF big, of "max_count * ring_element_len r"] n
    by (simp only: nat_mult_min_left)
  have k_eq: "n div ring_element_len r = min (ring_free r) max_count" using n i(1) by simp
  have h: "add32 (ring_head r) n = ring_head r + n" using i nL by (simp add: c_arith)
  show ?thesis
  proof (cases "ring_head r + n > ring_buflen r")
    case False
    have "cwritten (ring_buf r) (ring_head r) (take n src)
        (take (ring_head r) (ring_buf r) @ take n src @ drop (ring_head r + length (take n src)) (ring_buf r))"
      using False i src by (intro memcpy_cwritten) simp
    moreover have "lws_ring_insert r src max_count =
        Some (r\<lparr>ring_buf := take (ring_head r) (ring_buf r) @ take n src @ drop (ring_head r + n) (ring_buf r),
                ring_head := (ring_head r + n) mod ring_buflen r\<rparr>, min (ring_free r) max_count)"
      using False i nL src n_eq k_eq h
      by (simp add: lws_ring_insert_def count_free_eq [OF inv] Let_def c_arith mem_simps)
    ultimately show ?thesis using src by (auto simp: min_absorb2)
  next
    case True
    define m where "m = ring_buflen r - ring_head r"
    have m: "m < n" "m < 2 ^ 31" using True i by (auto simp: m_def)
    have sb: "sub32 (ring_buflen r) (ring_head r) = m" using i by (simp add: c_arith m_def)
    have head: "(ring_head r + n) mod ring_buflen r = (n - m) mod ring_buflen r"
      using True i by (simp add: m_def wrap_index)
    have hm: "ring_head r + m = ring_buflen r" using i by (simp add: m_def)
    define b where "b = take (ring_head r) (ring_buf r) @ take m src @ drop (ring_head r + m) (ring_buf r)"
    have lb: "length b = ring_buflen r" using i src m hm by (simp add: b_def)
    have "cwritten (ring_buf r) (ring_head r) (take n src) (take (n - m) (drop m src) @ drop (n - m) b)"
      using memcpy_wrap_cwritten [of "ring_head r" "ring_buf r" "take n src"] True i nL src m
      unfolding b_def by (simp add: m_def min_absorb2 drop_take)
    moreover have "memcpy_to (ring_buf r) (ring_head r) src 0 m = Some b"
      using i src m hm by (simp add: mem_simps b_def)
    then have "lws_ring_insert r src max_count =
        Some (r\<lparr>ring_buf := take (n - m) (drop m src) @ drop (n - m) b,
          ring_head := (ring_head r + n) mod ring_buflen r\<rparr>, min (ring_free r) max_count)"
      using True i nL src n_eq k_eq h m head lb
      by (simp add: lws_ring_insert_def count_free_eq [OF inv] Let_def c_arith mem_simps sb)
    ultimately show ?thesis by blast
  qed
qed


text \<open>What an insert does to the ring: the head moves on, and every tail sees the data appended.\<close>

lemma ring_head_step_inv:
  assumes "ring_inv r" and "ring_element_len r dvd n" and "length b = ring_buflen r"
  shows "ring_inv (r\<lparr>ring_buf := b, ring_head := (ring_head r + n) mod ring_buflen r\<rparr>)"
  using assms by (auto simp: ring_inv_def intro!: dvd_mod)

lemma ring_insert_appends:
  assumes inv: "ring_inv r" and t: "ring_tail_ok r t"
    and n: "n = k * ring_element_len r" "k \<le> ring_free r" and xs: "length xs = n"
    and w: "cwritten (ring_buf r) (ring_head r) xs b"
  defines "r' \<equiv> r\<lparr>ring_buf := b, ring_head := (ring_head r + n) mod ring_buflen r\<rparr>"
  shows "ring_inv r'" and "ring_tail_ok r' t" and "ring_bytes r' t = ring_bytes r t @ xs"
proof -
  note i = ring_invD [OF inv]
  have tl: "t < ring_buflen r" "ring_used r t \<le> ring_used r (ring_oldest_tail r)"
    using t by (auto simp: ring_tail_ok_def)
  have "n \<le> ring_free r * ring_element_len r" using n by simp
  then have room: "ring_used r (ring_oldest_tail r) + n < ring_buflen r"
    using ring_free_le [OF inv] i(1) by linarith
  have len: "length b = ring_buflen r" using w i by (simp add: cwritten_def)
  show "ring_inv r'" unfolding r'_def using inv n len by (intro ring_head_step_inv) auto
  have used: "ring_used r' x = ring_used r x + n"
    if "x < ring_buflen r" "ring_used r x \<le> ring_used r (ring_oldest_tail r)" for x
    using that i room by (simp add: r'_def ring_used_def cdist_head_step)
  then show "ring_tail_ok r' t" using t i(5) by (simp add: ring_tail_ok_def r'_def)
  show "ring_bytes r' t = ring_bytes r t @ xs"
    using cwritten_extends [OF w, of t] used [OF tl] tl room i xs
    by (simp add: ring_bytes_def r'_def ring_used_def)
qed


subsection \<open>Consume\<close>

lemma lws_ring_consume_core:
  assumes inv: "ring_inv r" and no_wrap: "max_count * ring_element_len r < 2 ^ 64"
    and t: "t = ring_tail r tail" "t < ring_buflen r" "ring_element_len r dvd t"
    and k: "k = min (ring_used r t div ring_element_len r) max_count"
    and n: "n = k * ring_element_len r"
    and room: "\<And>d. dest = Some d \<Longrightarrow> n \<le> length d"
  shows "lws_ring_consume r tail dest max_count =
    ring_consume_finish r tail ((t + n) mod ring_buflen r)
      (map_option (\<lambda>d. cslice (ring_buf r) t n @ drop n d) dest) k"
proof -
  note i = ring_invD [OF inv]
  have used: "ring_used r t < ring_buflen r"
    unfolding ring_used_def using i t by (intro cdist_less)
  have big: "ring_used r t div ring_element_len r * ring_element_len r < 2 ^ 31"
    using used i(2) by (rule_tac le_less_trans [OF div_times_less_eq_dividend]) simp
  have nL: "n \<le> ring_used r t"
    using k n by (metis div_times_less_eq_dividend le_trans min.cobounded1 mult_le_mono1)
  have n_eq: "(if size_of_int (int_of32 (mul64 (ring_used r t div ring_element_len r) (ring_element_len r))) >
        mul64 max_count (ring_element_len r)
      then int_of32 (mul64 max_count (ring_element_len r))
      else int_of32 (mul64 (ring_used r t div ring_element_len r) (ring_element_len r))) = int n"
    using ring_clamp [OF big no_wrap] clamp_size [OF big, of "max_count * ring_element_len r"] k n
    by (simp only: nat_mult_min_left)
  have k_eq: "n div ring_element_len r = k" using n i(1) by simp
  have h: "add32 t n = t + n" using i nL used t by (simp add: c_arith)
  note eqs = lws_ring_consume_def count_waiting_eq [OF inv] t(1) [symmetric] n_eq Let_def
  show ?thesis
  proof (cases dest)
    case None
    then show ?thesis using t(2,3) i nL used k_eq h by (simp add: eqs c_arith)
  next
    case (Some d)
    note nd = room [OF Some]
    show ?thesis
    proof (cases "t + n > ring_buflen r")
      case False
      then show ?thesis using Some nd t(2,3) i nL used k_eq h
        by (simp add: eqs c_arith mem_simps cslice_linear)
    next
      case True
      define m where "m = ring_buflen r - t"
      have m: "m < n" "m < 2 ^ 31" using True i t(2) by (auto simp: m_def)
      have sb: "sub32 (ring_buflen r) t = m" using i t(2) by (simp add: c_arith m_def)
      have tail: "(t + n) mod ring_buflen r = (n - m) mod ring_buflen r"
        using True t(2) by (simp add: m_def wrap_index)
      have tm: "t + m = ring_buflen r" using t(2) by (simp add: m_def)
      define d1 where "d1 = drop t (ring_buf r) @ drop m d"
      have "cslice (ring_buf r) t n = drop t (ring_buf r) @ take (n - m) (ring_buf r)"
        using cslice_wrap [of t "ring_buf r" n] True i nL used t(2) by (simp add: m_def add.commute)
      moreover have "memcpy_to d 0 (ring_buf r) t m = Some d1"
        using i nd m tm by (simp add: mem_simps d1_def)
      moreover have "memcpy_to d1 m (ring_buf r) 0 (n - m) =
          Some (drop t (ring_buf r) @ take (n - m) (ring_buf r) @ drop n d)"
        using i nd m tm nL used by (simp add: mem_simps d1_def m_def [symmetric])
      ultimately show ?thesis using Some True nd t(2,3) i nL used k_eq h m tail
        by (simp add: eqs c_arith sb)
    qed
  qed
qed


text \<open>Retiring elements: the loop ends at the requested tail and passes over every element on the way.\<close>

lemma ring_aligned_room:
  assumes "ring_inv r" and "t < ring_buflen r" and "ring_element_len r dvd t"
  shows "t + ring_element_len r \<le> ring_buflen r"
proof -
  from assms ring_invD(6) [OF assms(1)] obtain k l where
    "t = ring_element_len r * k" "ring_buflen r = ring_element_len r * l"
    "ring_element_len r * k < ring_element_len r * l"
    by (elim dvdE) simp
  then show ?thesis using mult_le_mono2 [of "Suc k" l "ring_element_len r"] by simp
qed

lemma ring_retire_spec:
  assumes "ring_inv r" and "ring_tail_ok r t"
    and "ring_used r (ring_oldest_tail r) = ring_used r t + k * ring_element_len r"
  shows "\<exists>ds. ring_retire r t acc = Some (r\<lparr>ring_oldest_tail := t\<rparr>, acc @ ds) \<and>
     length ds = k \<and> (\<forall>d \<in> set ds. length d = ring_element_len r) \<and>
     concat ds = cslice (ring_buf r) (ring_oldest_tail r) (k * ring_element_len r)"
  using assms
proof (induction k arbitrary: r acc)
  case 0
  note i = ring_invD [OF 0(1)]
  have "ring_oldest_tail r = t"
    using 0 i by (auto simp: ring_used_def ring_tail_ok_def intro: cdist_inj)
  moreover from this have "r\<lparr>ring_oldest_tail := t\<rparr> = r" by simp
  ultimately show ?case by (simp add: ring_retire.simps [of r])
next
  case (Suc k)
  note i = ring_invD [OF Suc.prems(1)]
  let ?e = "ring_element_len r"
  let ?o = "(ring_oldest_tail r + ?e) mod ring_buflen r"
  let ?r = "r\<lparr>ring_oldest_tail := ?o\<rparr>"
  have ne: "ring_oldest_tail r \<noteq> t" using Suc.prems(3) i(1) by auto
  have room: "ring_oldest_tail r + ?e \<le> ring_buflen r"
    using Suc.prems(1) i by (intro ring_aligned_room) auto
  have step: "ring_retire r t acc = ring_retire ?r t (acc @ [ring_element r (ring_oldest_tail r)])"
    using ne i room by (subst ring_retire.simps) (simp add: c_arith)
  have inv: "ring_inv ?r" using Suc.prems(1) i(5) by (auto simp: ring_inv_def intro!: dvd_mod)
  have ole: "?e \<le> ring_used r (ring_oldest_tail r)" using Suc.prems(3) by simp
  have used: "ring_used r ?o = ring_used r t + k * ?e"
    using cdist_tail_step [of "ring_oldest_tail r" "ring_buflen r" "ring_head r" ?e] i ole Suc.prems(3)
    by (simp add: ring_used_def)
  have frame: "ring_used ?r x = ring_used r x" for x by (simp add: ring_used_def)
  have ok: "ring_tail_ok ?r t" using Suc.prems(2) used by (simp add: ring_tail_ok_def frame)
  have "ring_used ?r (ring_oldest_tail ?r) = ring_used ?r t + k * ring_element_len ?r"
    using used by (simp add: frame)
  from Suc.IH [OF inv ok this, of "acc @ [ring_element r (ring_oldest_tail r)]"] obtain ds where
    ds: "ring_retire ?r t (acc @ [ring_element r (ring_oldest_tail r)]) =
        Some (r\<lparr>ring_oldest_tail := t\<rparr>, (acc @ [ring_element r (ring_oldest_tail r)]) @ ds)"
      "length ds = k" "\<forall>d \<in> set ds. length d = ?e"
      "concat ds = cslice (ring_buf r) ?o (k * ?e)"
    by auto
  have el: "ring_element r (ring_oldest_tail r) = cslice (ring_buf r) (ring_oldest_tail r) ?e"
    using room i by (simp add: ring_element_def cslice_linear)
  have "concat (ring_element r (ring_oldest_tail r) # ds) =
      cslice (ring_buf r) (ring_oldest_tail r) (Suc k * ?e)"
    using cslice_append [of "ring_buf r" "ring_oldest_tail r" ?e "k * ?e"] ds(4) el i(3) by simp
  with ds el step show ?case
    by (intro exI [of _ "ring_element r (ring_oldest_tail r) # ds"]) simp
qed

lemma update_oldest_tail_spec:
  assumes inv: "ring_inv r" and t: "ring_tail_ok r t"
  shows "\<exists>ds. lws_ring_update_oldest_tail r t = Some (r\<lparr>ring_oldest_tail := t\<rparr>, ds) \<and>
     (if ring_destroy_element r
      then concat ds @ ring_bytes r t = ring_bytes r (ring_oldest_tail r) \<and>
           (\<forall>d \<in> set ds. length d = ring_element_len r)
      else ds = [])"
proof (cases "ring_destroy_element r")
  case False
  then show ?thesis by (simp add: lws_ring_update_oldest_tail_def)
next
  case True
  note i = ring_invD [OF inv]
  let ?o = "ring_oldest_tail r" and ?e = "ring_element_len r"
  have dvd: "?e dvd ring_used r ?o - ring_used r t"
    using inv t i by (intro dvd_diff_nat) (auto simp: ring_tail_ok_def intro: ring_used_dvd)
  then obtain k where "ring_used r ?o - ring_used r t = ?e * k" by (elim dvdE)
  then have k: "ring_used r ?o = ring_used r t + k * ?e"
    using t by (auto simp: ring_tail_ok_def mult.commute)
  from ring_retire_spec [OF inv t k, of "[]"] obtain ds where
    ds: "ring_retire r t [] = Some (r\<lparr>ring_oldest_tail := t\<rparr>, ds)"
      "\<forall>d \<in> set ds. length d = ?e" "concat ds = cslice (ring_buf r) ?o (k * ?e)"
    by auto
  have kL: "k * ?e < ring_buflen r"
    using k ring_used_le [OF inv i(5) i(8)] i(1) by linarith
  have pos: "(?o + k * ?e) mod ring_buflen r = t"
  proof (rule cdist_inj [of _ "ring_buflen r" _ "ring_head r"])
    show "cdist (ring_buflen r) ((?o + k * ?e) mod ring_buflen r) (ring_head r) =
        cdist (ring_buflen r) t (ring_head r)"
      using k i cdist_tail_step [of ?o "ring_buflen r" "ring_head r" "k * ?e"]
      by (simp add: ring_used_def)
    show "(?o + k * ?e) mod ring_buflen r < ring_buflen r" using kL by (intro mod_less_divisor) linarith
  qed (use i t in \<open>auto simp: ring_tail_ok_def\<close>)
  have "concat ds @ ring_bytes r t = ring_bytes r ?o"
    using cslice_append [of "ring_buf r" ?o "k * ?e" "ring_used r t"] ds(3) k pos i(3)
    by (simp add: ring_bytes_def add.commute)
  with ds True show ?thesis by (simp add: lws_ring_update_oldest_tail_def)
qed


lemma ring_oldest_tail_step:
  assumes "ring_inv r" and "ring_tail_ok r t"
  shows "ring_inv (r\<lparr>ring_oldest_tail := t\<rparr>)" "ring_bytes (r\<lparr>ring_oldest_tail := t\<rparr>) x = ring_bytes r x"
    "ring_used (r\<lparr>ring_oldest_tail := t\<rparr>) x = ring_used r x"
  using assms by (auto simp: ring_inv_def ring_tail_ok_def ring_bytes_def ring_used_def)

lemma ring_tail_advance:
  assumes inv: "ring_inv r" and t: "ring_tail_ok r t"
    and n: "n = k * ring_element_len r" "n \<le> ring_used r t"
  defines "t' \<equiv> (t + n) mod ring_buflen r"
  shows "ring_tail_ok r t'" "ring_used r t' = ring_used r t - n"
    "ring_bytes r t = cslice (ring_buf r) t n @ ring_bytes r t'"
proof -
  note i = ring_invD [OF inv]
  have tl: "t < ring_buflen r" "ring_element_len r dvd t" using t by (auto simp: ring_tail_ok_def)
  show u: "ring_used r t' = ring_used r t - n"
    using cdist_tail_step [of t "ring_buflen r" "ring_head r" n] tl i n by (simp add: ring_used_def t'_def)
  have "ring_element_len r dvd t'" using tl i n by (auto simp: t'_def intro!: dvd_mod)
  moreover have "t' < ring_buflen r" unfolding t'_def using tl by (intro mod_less_divisor) linarith
  ultimately show "ring_tail_ok r t'" using t u by (auto simp: ring_tail_ok_def)
  show "ring_bytes r t = cslice (ring_buf r) t n @ ring_bytes r t'"
    using cslice_append [of "ring_buf r" t n "ring_used r t - n"] i n u by (simp add: ring_bytes_def t'_def)
qed


subsection \<open>The ring as a byte queue\<close>

text \<open>The use with a single tail: inserts and consumes with a \<open>NULL\<close> tail pointer.\<close>

definition ring_put :: "lws_ring \<Rightarrow> u8 list \<Rightarrow> (lws_ring \<times> nat) option" where
  "ring_put r xs =
     do { (r', k) \<leftarrow> lws_ring_insert r xs (length xs div ring_element_len r);
          Some (r', k * ring_element_len r) }"

definition ring_get :: "lws_ring \<Rightarrow> nat \<Rightarrow> (lws_ring \<times> u8 list) option" where
  "ring_get r n =
     do { (r', _, dest, k, _) \<leftarrow> lws_ring_consume r None (Some (replicate (n * ring_element_len r) 0)) n;
          d \<leftarrow> dest;
          Some (r', take (k * ring_element_len r) d) }"

definition ring_contents :: "lws_ring \<Rightarrow> u8 list" where
  "ring_contents r = ring_bytes r (ring_oldest_tail r)"

definition ring_put_pre :: "lws_ring \<Rightarrow> u8 list \<Rightarrow> bool" where
  "ring_put_pre r xs \<longleftrightarrow> ring_element_len r dvd length xs \<and> length xs < 2 ^ 64"

definition ring_get_pre :: "lws_ring \<Rightarrow> nat \<Rightarrow> bool" where
  "ring_get_pre r n \<longleftrightarrow> n * ring_element_len r < 2 ^ 64"

lemma ring_put_spec:
  assumes inv: "ring_inv r" and pre: "ring_put_pre r xs"
  shows "\<exists>r' n. ring_put r xs = Some (r', n) \<and> ring_inv r' \<and> n \<le> length xs \<and>
     ring_contents r' = ring_contents r @ take n xs \<and> ring_element_len r' = ring_element_len r"
proof -
  let ?e = "ring_element_len r" and ?c = "length xs div ring_element_len r"
  let ?k = "min (ring_free r) ?c"
  have c: "?c * ?e = length xs" using pre by (simp add: ring_put_pre_def)
  then have le: "?k * ?e \<le> length xs" by (metis min.cobounded2 mult_le_mono1)
  have nw: "?c * ?e < 2 ^ 64" using pre c by (simp add: ring_put_pre_def)
  from lws_ring_insert_eq [OF inv nw refl le] obtain b where
    b: "lws_ring_insert r xs ?c = Some (r\<lparr>ring_buf := b,
          ring_head := (ring_head r + ?k * ?e) mod ring_buflen r\<rparr>, ?k)"
      "cwritten (ring_buf r) (ring_head r) (take (?k * ?e) xs) b" by blast
  have len: "length (take (?k * ?e) xs) = ?k * ?e" using le by simp
  note app = ring_insert_appends [OF inv oldest_tail_ok [OF inv] refl min.cobounded1 len b(2)]
  show ?thesis using b(1) app le by (simp add: ring_put_def ring_contents_def)
qed

lemma ring_get_spec:
  assumes inv: "ring_inv r" and pre: "ring_get_pre r n"
  shows "\<exists>r' out. ring_get r n = Some (r', out) \<and> ring_inv r' \<and>
     ring_contents r = out @ ring_contents r' \<and> ring_element_len r' = ring_element_len r"
proof -
  note i = ring_invD [OF inv]
  let ?e = "ring_element_len r" and ?o = "ring_oldest_tail r"
  let ?k = "min (ring_used r ?o div ?e) n"
  let ?t = "(?o + ?k * ?e) mod ring_buflen r"
  have le: "?k * ?e \<le> ring_used r ?o"
    by (metis div_times_less_eq_dividend le_trans min.cobounded1 mult_le_mono1)
  have kn: "?k * ?e \<le> n * ?e" by simp
  have core: "lws_ring_consume r None (Some (replicate (n * ?e) 0)) n =
      ring_consume_finish r None ?t
        (Some (cslice (ring_buf r) ?o (?k * ?e) @ drop (?k * ?e) (replicate (n * ?e) 0))) ?k"
    using lws_ring_consume_core [OF inv _ _ _ _ refl refl, of n ?o None "Some (replicate (n * ?e) 0)"]
      pre i kn by (simp add: ring_get_pre_def ring_tail_def)
  note adv = ring_tail_advance [OF inv oldest_tail_ok [OF inv] refl le]
  from update_oldest_tail_spec [OF inv adv(1)] obtain ds where
    "lws_ring_update_oldest_tail r ?t = Some (r\<lparr>ring_oldest_tail := ?t\<rparr>, ds)" by blast
  then show ?thesis
    using core adv(3) ring_oldest_tail_step [OF inv adv(1)]
    by (simp add: ring_get_def ring_consume_finish_def ring_contents_def)
qed

interpretation ring_fifo: byte_fifo ring_inv ring_contents ring_put ring_get ring_put_pre ring_get_pre
proof unfold_locales
  fix r xs assume "ring_inv r" "ring_put_pre r xs"
  from ring_put_spec [OF this] show "\<exists>r' n. ring_put r xs = Some (r', n) \<and> ring_inv r' \<and> n \<le> length xs \<and>
     ring_contents r' = ring_contents r @ take n xs \<and> ring_put_pre r' = ring_put_pre r \<and>
     ring_get_pre r' = ring_get_pre r"
    by (auto simp: ring_put_pre_def ring_get_pre_def fun_eq_iff)
next
  fix r n assume "ring_inv r" "ring_get_pre r n"
  from ring_get_spec [OF this] show "\<exists>r' out. ring_get r n = Some (r', out) \<and> ring_inv r' \<and>
     ring_contents r = out @ ring_contents r' \<and> ring_put_pre r' = ring_put_pre r \<and>
     ring_get_pre r' = ring_get_pre r"
    by (auto simp: ring_put_pre_def ring_get_pre_def fun_eq_iff)
qed


subsection \<open>Several tails\<close>

lemma consume_some_tail:
  assumes inv: "ring_inv r" and t: "ring_tail_ok r t" and nw: "count * ring_element_len r < 2 ^ 64"
  defines "k \<equiv> min (ring_used r t div ring_element_len r) count"
  shows "lws_ring_consume r (Some t) None count =
    Some (r, (t + k * ring_element_len r) mod ring_buflen r, None, k, [])"
  using lws_ring_consume_core [OF inv nw, of t "Some t" k "k * ring_element_len r" None] t
  by (simp add: k_def ring_tail_def ring_tail_ok_def ring_consume_finish_def)

lemma min_div_mult_le: "min (a div e) b * e \<le> (a::nat)"
  by (metis div_times_less_eq_dividend le_trans min.cobounded1 mult_le_mono1)

lemma ring_scan_tails_spec:
  assumes "ring_inv r" and "\<forall>t \<in> set ts. ring_tail_ok r t"
  shows "\<exists>best. ring_scan_tails r ts n b0 = Some best \<and>
    (best = b0 \<and> (\<forall>t \<in> set ts. ring_used r t div ring_element_len r < n) \<or>
     best \<in> set ts \<and> n \<le> ring_used r best div ring_element_len r \<and>
       (\<forall>t \<in> set ts. ring_used r t div ring_element_len r \<le> ring_used r best div ring_element_len r))"
  using assms(2)
proof (induction ts arbitrary: n b0)
  case Nil
  then show ?case by simp
next
  case (Cons t ts)
  have w: "lws_ring_get_count_waiting_elements r (Some t) = Some (ring_used r t div ring_element_len r)"
    using count_waiting_eq [OF assms(1), of "Some t"] Cons.prems
    by (simp add: ring_tail_def ring_tail_ok_def)
  show ?case
  proof (cases "n \<le> ring_used r t div ring_element_len r")
    case True
    with Cons.IH [of "ring_used r t div ring_element_len r" t] Cons.prems w show ?thesis
      by (force simp: less_imp_le)
  next
    case False
    with Cons.IH [of n b0] Cons.prems w show ?thesis by force
  qed
qed

lemma ring_used_mono:
  assumes "ring_inv r" and "ring_element_len r dvd a" and "ring_element_len r dvd b"
    and "ring_used r a div ring_element_len r \<le> ring_used r b div ring_element_len r"
  shows "ring_used r a \<le> ring_used r b"
  using ring_used_dvd [OF assms(1,2)] ring_used_dvd [OF assms(1,3)] assms(4)
  by (metis dvd_div_mult_self mult_le_mono1)


lemma consume_and_update_spec:
  assumes inv: "ring_inv r" and ok: "\<forall>t \<in> set tails. ring_tail_ok r t" and i: "i < length tails"
    and nw: "count * ring_element_len r < 2 ^ 64"
  defines "k \<equiv> min (ring_used r (tails ! i) div ring_element_len r) count"
  defines "t' \<equiv> (tails ! i + k * ring_element_len r) mod ring_buflen r"
  shows "\<exists>o' ds. lws_ring_consume_and_update_oldest_tail r tails i count =
      Some (r\<lparr>ring_oldest_tail := o'\<rparr>, tails[i := t'], ds) \<and> ring_tail_ok r o' \<and>
      (\<forall>t \<in> set (tails[i := t']). ring_used r t \<le> ring_used r o') \<and>
      (ring_oldest_tail r = tails ! i \<longrightarrow> o' \<in> set (tails[i := t']))"
proof -
  let ?e = "ring_element_len r" and ?ts = "tails[i := t']"
  have ti: "ring_tail_ok r (tails ! i)" using ok i by simp
  note adv = ring_tail_advance [OF inv ti refl min_div_mult_le [of _ ?e count]]
  have t': "ring_tail_ok r t'" using adv(1) by (simp add: t'_def k_def)
  have ok': "\<forall>t \<in> set ?ts. ring_tail_ok r t" using ok t' by (auto dest!: set_update_subset_insert [THEN subsetD])
  have eq: "lws_ring_consume r (Some (tails ! i)) None count = Some (r, t', None, k, [])"
    using consume_some_tail [OF inv ti nw] by (simp add: t'_def k_def)
  note unf = lws_ring_consume_and_update_oldest_tail_def rd_Some [OF i] eq lws_ring_get_oldest_tail_def
  show ?thesis
  proof (cases "ring_oldest_tail r = tails ! i")
    case False
    have "r\<lparr>ring_oldest_tail := ring_oldest_tail r\<rparr> = r" by simp
    with False ok' inv ring_invD(5,8) [OF inv] show ?thesis
      by (intro exI [of _ "ring_oldest_tail r"]) (auto simp: unf ring_tail_ok_def)
  next
    case True
    have t'_in: "t' \<in> set ?ts" using i by (simp add: set_update_memI)
    from ring_scan_tails_spec [OF inv ok', of 0 t'] obtain best where
      best: "ring_scan_tails r ?ts 0 t' = Some best" "best \<in> set ?ts"
        "\<forall>t \<in> set ?ts. ring_used r t div ?e \<le> ring_used r best div ?e"
      using t'_in by force
    have le: "\<forall>t \<in> set ?ts. ring_used r t \<le> ring_used r best"
      using best ok' inv by (auto simp: ring_tail_ok_def intro: ring_used_mono)
    have bok: "ring_tail_ok r best" using best(2) ok' by blast
    from update_oldest_tail_spec [OF inv bok] obtain ds where
      "lws_ring_update_oldest_tail r best = Some (r\<lparr>ring_oldest_tail := best\<rparr>, ds)" by blast
    with True best le bok show ?thesis by (auto simp: unf)
  qed
qed


subsection \<open>Correctness properties\<close>

text \<open>C6: any interleaving of inserts and single-tail consumes on a well-formed ring succeeds, keeps
  the ring well-formed and is a queue: what was in the ring followed by what was accepted is what was
  delivered followed by what is still in the ring.\<close>

theorem ring_run_fifo:
  assumes "ring_inv r" and "\<And>op. op \<in> set ops \<Longrightarrow> fifo_op_pre ring_put_pre ring_get_pre r op"
  shows "\<exists>r' ins outs. fifo_run ring_put ring_get r ops = Some (r', ins, outs) \<and> ring_inv r' \<and>
     ring_contents r @ ins = outs @ ring_contents r'"
  using assms by (rule ring_fifo.fifo_run_order)

definition demo_ring :: lws_ring where
  "demo_ring = \<lparr>ring_buf = replicate 8 0, ring_destroy_element = True, ring_buflen = 8,
     ring_element_len = 2, ring_head = 6, ring_oldest_tail = 6\<rparr>"

lemma demo_ring_inv: "ring_inv demo_ring"
  by (simp add: ring_inv_def demo_ring_def)

theorem ring_run_fifo_witness:
  "ring_inv demo_ring \<and>
   (\<exists>r' ins outs. fifo_run ring_put ring_get demo_ring [Put [1, 2, 3, 4], Get 1, Put [5, 6, 7, 8]] =
     Some (r', ins, outs) \<and> ring_inv r' \<and> ring_contents demo_ring @ ins = outs @ ring_contents r')"
proof -
  have "fifo_op_pre ring_put_pre ring_get_pre demo_ring op"
    if "op \<in> set [Put [1, 2, 3, 4], Get 1, Put [5, 6, 7, 8]]" for op
    using that by (auto simp: ring_put_pre_def ring_get_pre_def demo_ring_def)
  then show ?thesis by (intro conjI demo_ring_inv ring_run_fifo)
qed

text \<open>C14: an insert of up to \<open>max_count\<close> elements accepts as many as are free, never touches memory
  outside of the buffer and of the source, keeps the invariant, and appends the accepted elements to
  what every valid tail still has to read.\<close>

theorem lws_ring_insert_correct:
  assumes inv: "ring_inv r" and nw: "max_count * ring_element_len r < 2 ^ 64"
    and src: "max_count * ring_element_len r \<le> length src"
  shows "\<exists>r' k. lws_ring_insert r src max_count = Some (r', k) \<and> ring_inv r' \<and>
     lws_ring_get_count_free_elements r = Some (ring_free r) \<and> k = min (ring_free r) max_count \<and>
     ring_oldest_tail r' = ring_oldest_tail r \<and>
     (\<forall>t. ring_tail_ok r t \<longrightarrow> ring_tail_ok r' t \<and>
        ring_bytes r' t = ring_bytes r t @ take (k * ring_element_len r) src)"
proof -
  let ?k = "min (ring_free r) max_count" and ?e = "ring_element_len r"
  have le: "?k * ?e \<le> length src" using src by (metis le_trans min.cobounded2 mult_le_mono1)
  from lws_ring_insert_eq [OF inv nw refl le] obtain b where
    b: "lws_ring_insert r src max_count = Some (r\<lparr>ring_buf := b,
          ring_head := (ring_head r + ?k * ?e) mod ring_buflen r\<rparr>, ?k)"
      "cwritten (ring_buf r) (ring_head r) (take (?k * ?e) src) b" by blast
  have len: "length (take (?k * ?e) src) = ?k * ?e" using le by simp
  note app = ring_insert_appends [OF inv _ refl min.cobounded1 len b(2)]
  show ?thesis using b(1) app [OF oldest_tail_ok [OF inv]] app(2,3) count_free_eq [OF inv] by auto
qed

theorem lws_ring_insert_correct_witness:
  "\<exists>r' k. lws_ring_insert demo_ring [1, 2, 3, 4] 2 = Some (r', k) \<and> ring_inv r' \<and>
     lws_ring_get_count_free_elements demo_ring = Some (ring_free demo_ring) \<and>
     k = min (ring_free demo_ring) 2 \<and> ring_oldest_tail r' = ring_oldest_tail demo_ring \<and>
     (\<forall>t. ring_tail_ok demo_ring t \<longrightarrow> ring_tail_ok r' t \<and>
        ring_bytes r' t = ring_bytes demo_ring t @ take (k * ring_element_len demo_ring) [1, 2, 3, 4])"
  by (rule lws_ring_insert_correct [OF demo_ring_inv]) (simp_all add: demo_ring_def)

text \<open>C15: consuming through an explicit tail copies out the next elements of that tail in order, moves
  only that tail, and leaves the ring itself unchanged.\<close>

theorem lws_ring_consume_correct:
  assumes inv: "ring_inv r" and t: "ring_tail_ok r t" and nw: "max_count * ring_element_len r < 2 ^ 64"
    and dest: "max_count * ring_element_len r \<le> length dest"
  shows "\<exists>t' out k. lws_ring_consume r (Some t) (Some dest) max_count =
       Some (r, t', Some (out @ drop (length out) dest), k, []) \<and> ring_tail_ok r t' \<and>
     lws_ring_get_count_waiting_elements r (Some t) = Some (ring_used r t div ring_element_len r) \<and>
     k = min (ring_used r t div ring_element_len r) max_count \<and>
     length out = k * ring_element_len r \<and> ring_bytes r t = out @ ring_bytes r t'"
proof -
  let ?e = "ring_element_len r"
  let ?k = "min (ring_used r t div ?e) max_count"
  have le: "?k * ?e \<le> length dest" using dest by (metis le_trans min.cobounded2 mult_le_mono1)
  have tl: "t < ring_buflen r" "?e dvd t" using t by (auto simp: ring_tail_ok_def)
  note adv = ring_tail_advance [OF inv t refl min_div_mult_le [of _ ?e max_count]]
  have "lws_ring_consume r (Some t) (Some dest) max_count =
      ring_consume_finish r (Some t) ((t + ?k * ?e) mod ring_buflen r)
        (Some (cslice (ring_buf r) t (?k * ?e) @ drop (?k * ?e) dest)) ?k"
    using lws_ring_consume_core [OF inv nw _ tl refl refl, of "Some t" "Some dest"] le
    by (simp add: ring_tail_def)
  moreover have "lws_ring_get_count_waiting_elements r (Some t) = Some (ring_used r t div ?e)"
    using count_waiting_eq [OF inv, of "Some t"] tl by (simp add: ring_tail_def)
  ultimately show ?thesis using adv(1,3)
    by (intro exI [of _ "(t + ?k * ?e) mod ring_buflen r", OF exI [of _ "cslice (ring_buf r) t (?k * ?e)", OF exI [of _ ?k]]])
       (simp add: ring_consume_finish_def)
qed

definition demo_ring2 :: lws_ring where
  "demo_ring2 = \<lparr>ring_buf = [3, 4, 5, 6, 0, 0, 1, 2], ring_destroy_element = True, ring_buflen = 8,
     ring_element_len = 2, ring_head = 4, ring_oldest_tail = 6\<rparr>"

lemma demo_ring2_inv: "ring_inv demo_ring2"
  by (simp add: ring_inv_def demo_ring2_def)

theorem lws_ring_consume_correct_witness:
  "ring_tail_ok demo_ring2 6 \<and>
   (\<exists>t' out k. lws_ring_consume demo_ring2 (Some 6) (Some [9, 9, 9, 9, 9]) 2 =
       Some (demo_ring2, t', Some (out @ drop (length out) [9, 9, 9, 9, 9]), k, []) \<and>
     ring_tail_ok demo_ring2 t' \<and>
     lws_ring_get_count_waiting_elements demo_ring2 (Some 6) =
       Some (ring_used demo_ring2 6 div ring_element_len demo_ring2) \<and>
     k = min (ring_used demo_ring2 6 div ring_element_len demo_ring2) 2 \<and>
     length out = k * ring_element_len demo_ring2 \<and>
     ring_bytes demo_ring2 6 = out @ ring_bytes demo_ring2 t')"
proof -
  have t: "ring_tail_ok demo_ring2 6" by (simp add: ring_tail_ok_def demo_ring2_def)
  show ?thesis
    by (intro conjI t lws_ring_consume_correct [OF demo_ring2_inv t]) (simp_all add: demo_ring2_def)
qed


text \<open>C16: with several consumers, consuming through one of them and updating the oldest tail never
  loses data of another: every tail stays valid, the other tails still see exactly what they saw
  before, the consuming tail lost exactly the elements it consumed, and no tail is older than the
  new oldest tail.\<close>

theorem consume_and_update_oldest_tail_safe:
  assumes inv: "ring_inv r" and ok: "\<forall>t \<in> set tails. ring_tail_ok r t" and i: "i < length tails"
    and nw: "count * ring_element_len r < 2 ^ 64"
  shows "\<exists>r' tails' ds out.
      lws_ring_consume_and_update_oldest_tail r tails i count = Some (r', tails', ds) \<and>
      ring_inv r' \<and> length tails' = length tails \<and> (\<forall>t \<in> set tails'. ring_tail_ok r' t) \<and>
      (\<forall>j < length tails. j \<noteq> i \<longrightarrow>
         tails' ! j = tails ! j \<and> ring_bytes r' (tails ! j) = ring_bytes r (tails ! j)) \<and>
      ring_bytes r (tails ! i) = out @ ring_bytes r' (tails' ! i) \<and>
      length out = min (ring_used r (tails ! i) div ring_element_len r) count * ring_element_len r \<and>
      (ring_oldest_tail r = tails ! i \<longrightarrow> ring_oldest_tail r' \<in> set tails')"
proof -
  let ?e = "ring_element_len r"
  let ?k = "min (ring_used r (tails ! i) div ?e) count"
  let ?t = "(tails ! i + ?k * ?e) mod ring_buflen r"
  have ti: "ring_tail_ok r (tails ! i)" using ok i by simp
  note adv = ring_tail_advance [OF inv ti refl min_div_mult_le [of _ ?e count]]
  from consume_and_update_spec [OF inv ok i nw] obtain best ds where
    best: "lws_ring_consume_and_update_oldest_tail r tails i count =
        Some (r\<lparr>ring_oldest_tail := best\<rparr>, tails[i := ?t], ds)"
      "ring_tail_ok r best" "\<forall>t \<in> set (tails[i := ?t]). ring_used r t \<le> ring_used r best"
      "ring_oldest_tail r = tails ! i \<longrightarrow> best \<in> set (tails[i := ?t])" by blast
  note step = ring_oldest_tail_step [OF inv best(2)]
  have "\<forall>t \<in> set (tails[i := ?t]). ring_tail_ok r t"
    using ok adv(1) by (auto dest!: set_update_subset_insert [THEN subsetD])
  with best(3) have "\<forall>t \<in> set (tails[i := ?t]). ring_tail_ok (r\<lparr>ring_oldest_tail := best\<rparr>) t"
    by (simp add: ring_tail_ok_def ring_used_def)
  then show ?thesis
    using best(1,4) adv(3) step i
    by (intro exI [of _ "r\<lparr>ring_oldest_tail := best\<rparr>"] exI [of _ "tails[i := ?t]"] exI [of _ ds]
          exI [of _ "cslice (ring_buf r) (tails ! i) (?k * ?e)"]) simp
qed

theorem consume_and_update_oldest_tail_safe_witness:
  "ring_tail_ok demo_ring2 6 \<and> ring_tail_ok demo_ring2 0 \<and>
   (\<exists>r' tails' ds out.
      lws_ring_consume_and_update_oldest_tail demo_ring2 [6, 0] 0 2 = Some (r', tails', ds) \<and>
      ring_inv r' \<and> length tails' = length [6::nat, 0] \<and> (\<forall>t \<in> set tails'. ring_tail_ok r' t) \<and>
      (\<forall>j < length [6::nat, 0]. j \<noteq> 0 \<longrightarrow>
         tails' ! j = [6, 0] ! j \<and> ring_bytes r' ([6, 0] ! j) = ring_bytes demo_ring2 ([6, 0] ! j)) \<and>
      ring_bytes demo_ring2 ([6, 0] ! 0) = out @ ring_bytes r' (tails' ! 0) \<and>
      length out = min (ring_used demo_ring2 ([6, 0] ! 0) div ring_element_len demo_ring2) 2 *
        ring_element_len demo_ring2 \<and>
      (ring_oldest_tail demo_ring2 = [6, 0] ! 0 \<longrightarrow> ring_oldest_tail r' \<in> set tails'))"
proof -
  have t: "\<forall>t \<in> set [6, 0]. ring_tail_ok demo_ring2 t"
    by (simp add: ring_tail_ok_def demo_ring2_def ring_used_def cdist_def)
  then show ?thesis
    by (intro conjI consume_and_update_oldest_tail_safe [OF demo_ring2_inv t])
       (simp_all add: demo_ring2_def)
qed

text \<open>C24: moving the oldest tail on returns, and calls the destroy callback exactly on the elements
  between the old and the new oldest tail, each once and in order.\<close>

theorem update_oldest_tail_destroys_passed:
  assumes inv: "ring_inv r" and t: "ring_tail_ok r t" and cb: "ring_destroy_element r"
  shows "\<exists>r' ds. lws_ring_update_oldest_tail r t = Some (r', ds) \<and> ring_inv r' \<and>
     ring_oldest_tail r' = t \<and> ring_contents r = concat ds @ ring_contents r' \<and>
     (\<forall>d \<in> set ds. length d = ring_element_len r)"
  using update_oldest_tail_spec [OF inv t] ring_oldest_tail_step [OF inv t] cb
  by (auto simp: ring_contents_def)

theorem update_oldest_tail_destroys_passed_witness:
  "ring_tail_ok demo_ring2 2 \<and>
   (\<exists>r' ds. lws_ring_update_oldest_tail demo_ring2 2 = Some (r', ds) \<and> ring_inv r' \<and>
     ring_oldest_tail r' = 2 \<and> ring_contents demo_ring2 = concat ds @ ring_contents r' \<and>
     (\<forall>d \<in> set ds. length d = ring_element_len demo_ring2))"
proof -
  have t: "ring_tail_ok demo_ring2 2"
    by (simp add: ring_tail_ok_def demo_ring2_def ring_used_def cdist_def)
  show ?thesis
    by (intro conjI t update_oldest_tail_destroys_passed [OF demo_ring2_inv t]) (simp add: demo_ring2_def)
qed

text \<open>C25: a ring created for \<open>count\<close> elements is well-formed and empty, and has room for
  \<open>count - 1\<close> elements, not for \<open>count\<close>: one element always stays unused.\<close>

theorem lws_ring_create_capacity:
  assumes mem: "\<And>n. \<exists>b. malloc n = Some b \<and> length b = n"
    and e: "2 \<le> element_len" and c: "0 < count" and bound: "count * element_len < 2 ^ 31"
  shows "\<exists>r. lws_ring_create malloc element_len count cb = Some r \<and> ring_inv r \<and>
     ring_contents r = [] \<and> lws_ring_get_count_free_elements r = Some (count - 1)"
proof -
  obtain s b where sb: "malloc 32 = Some s" "malloc (count * element_len) = Some b"
    "length b = count * element_len" using mem by metis
  have e_le: "element_len \<le> count * element_len" using c by simp
  have el: "element_len < 2 ^ 32" using le_less_trans [OF e_le bound] by simp
  define r where "r = \<lparr>ring_buf = b, ring_destroy_element = cb, ring_buflen = count * element_len,
      ring_element_len = element_len, ring_head = 0, ring_oldest_tail = 0\<rparr>"
  have cr: "lws_ring_create malloc element_len count cb = Some r"
    using sb bound el by (simp add: lws_ring_create_def r_def mul64_small)
  have inv: "ring_inv r" using e c bound sb(3) by (simp add: ring_inv_def r_def)
  have f: "count * element_len - element_len = (count - 1) * element_len"
    by (simp add: diff_mult_distrib)
  have "ring_free r = count - 1"
  proof (cases "count = 1")
    case False
    then have "1 \<le> count - 1" using c by simp
    then have "2 \<le> (count - 1) * element_len" using e mult_le_mono [of 1 "count - 1" 2 element_len] by simp
    then show ?thesis using e f by (simp add: ring_free_def r_def ring_used_def cdist_def)
  qed (simp add: ring_free_def r_def ring_used_def cdist_def)
  then show ?thesis using cr inv count_free_eq [OF inv]
    by (simp add: ring_contents_def ring_bytes_def ring_used_def cdist_def r_def)
qed

theorem lws_ring_create_capacity_witness:
  "\<exists>r. lws_ring_create (\<lambda>n. Some (replicate n 0)) 2 4 True = Some r \<and> ring_inv r \<and>
     ring_contents r = [] \<and> lws_ring_get_count_free_elements r = Some (4 - 1)"
  by (rule lws_ring_create_capacity) simp_all

text \<open>C26: for a ring of single bytes the free count is one too small at the end: a ring of
  \<open>count\<close> bytes with one byte of room left reports no room and refuses to insert it.\<close>

theorem ring_byte_elements_off_by_one:
  assumes "ring_inv r" and "ring_element_len r = 1"
    and "ring_used r (ring_oldest_tail r) = ring_buflen r - 2" and "2 \<le> ring_buflen r"
  shows "lws_ring_get_count_free_elements r = Some 0 \<and>
     (\<forall>x. \<exists>r'. lws_ring_insert r [x] 1 = Some (r', 0) \<and> ring_contents r' = ring_contents r)"
proof -
  have fr: "ring_free r = 0" using assms(2-4) by (simp add: ring_free_def)
  have "\<exists>r'. lws_ring_insert r [x] 1 = Some (r', 0) \<and> ring_contents r' = ring_contents r" for x
  proof -
    obtain b where b: "lws_ring_insert r [x] 1 =
        Some (r\<lparr>ring_buf := b, ring_head := (ring_head r + 0) mod ring_buflen r\<rparr>, 0)"
      "cwritten (ring_buf r) (ring_head r) [] b"
      using lws_ring_insert_eq [OF assms(1), of 1 0 "[x]"] fr assms(2) by auto
    have "b = ring_buf r" using b(2) by (auto simp: cwritten_def intro: nth_equalityI)
    then show ?thesis using b(1) ring_invD(4) [OF assms(1)]
      by (simp add: ring_contents_def ring_bytes_def ring_used_def)
  qed
  then show ?thesis using count_free_eq [OF assms(1)] fr by simp
qed

theorem ring_byte_elements_off_by_one_witness:
  "lws_ring_get_count_free_elements \<lparr>ring_buf = [7, 7, 7, 7], ring_destroy_element = False,
       ring_buflen = 4, ring_element_len = 1, ring_head = 2, ring_oldest_tail = 0\<rparr> = Some 0"
  by (rule ring_byte_elements_off_by_one [THEN conjunct1])
     (simp_all add: ring_inv_def ring_used_def cdist_def)

end
