(* ===== verification/Base64.thy ===== *)
theory Base64
  imports Lws_Prelude
begin

text \<open>
  The base64 codec of \<^verbatim>\<open>lib/misc/base64-decode.c\<close>.

  A result is the C return value together with the bytes written to \<open>out\<close>, terminator included.
  The decoder reads its input up to \<open>in_len\<close> bytes or up to a NUL; its input is the memory at
  \<open>in\<close>, and reading beyond that memory gives \<open>None\<close>. The array \<open>quad\<close> of the decoder is not
  initialised by the code: its first value is an argument of the model.
\<close>

definition encode_orig :: "u8 list" where
  "encode_orig = bytes_of ''ABCDEFGHIJKLMNOPQRSTUVWXYZabcdefghijklmnopqrstuvwxyz0123456789+/''"

definition encode_url :: "u8 list" where
  "encode_url = bytes_of ''ABCDEFGHIJKLMNOPQRSTUVWXYZabcdefghijklmnopqrstuvwxyz0123456789-_''"

definition decode :: "u8 list" where
  "decode = bytes_of ''|$$$}rstuvwxyz{$$$$$$$>?@ABCDEFGHIJKLMNOPQRSTUVW$$$$$$XYZ['' @ [0x5c] @
     bytes_of '']^_'' @ [0x60] @ bytes_of ''abcdefghijklmnopq''"

fun b64_encode_loop :: "u8 list \<Rightarrow> u8 list \<Rightarrow> int \<Rightarrow> int \<Rightarrow> u8 list \<Rightarrow> int \<times> u8 list" where
  \<comment> \<open>\<open>xs\<close> is what is left of the input\<close>
  "b64_encode_loop encode xs out_size dn out =
     (if xs = [] then
        if dn + 1 \<ge> out_size then (-1, out) else (dn, out @ [0])
      else
        let len = min 3 (length xs);
            triple0 = xs ! 0;
            triple1 = (if 1 < length xs then xs ! 1 else 0);
            triple2 = (if 2 < length xs then xs ! 2 else 0)
        in if dn + 4 \<ge> out_size then (-1, out)
           else b64_encode_loop encode (drop 3 xs) out_size (dn + 4)
             (out @ [encode ! unat (drop_bit 2 triple0),
                     encode ! unat (push_bit 4 (triple0 AND 0x03) OR drop_bit 4 (triple1 AND 0xf0)),
                     if len > 1 then encode ! unat (push_bit 2 (triple1 AND 0x0f) OR drop_bit 6 (triple2 AND 0xc0))
                     else ch CHR ''='',
                     if len > 2 then encode ! unat (triple2 AND 0x3f) else ch CHR ''='']))"

declare b64_encode_loop.simps [simp del]

definition lws_b64_encode :: "u8 list \<Rightarrow> u8 list \<Rightarrow> int \<Rightarrow> int \<times> u8 list" where
  \<comment> \<open>\<open>_lws_b64_encode_string\<close>, with \<open>in_len\<close> the length of the input\<close>
  "lws_b64_encode encode inp out_size = b64_encode_loop encode inp out_size 0 []"

definition lws_b64_encode_string :: "u8 list \<Rightarrow> int \<Rightarrow> int \<times> u8 list" where
  "lws_b64_encode_string inp out_size = lws_b64_encode encode_orig inp out_size"

definition lws_b64_encode_string_url :: "u8 list \<Rightarrow> int \<Rightarrow> int \<times> u8 list" where
  "lws_b64_encode_string_url inp out_size = lws_b64_encode encode_url inp out_size"

definition b64_url_char :: "u8 \<Rightarrow> u8" where
  \<comment> \<open>support the url base64 variant too\<close>
  "b64_url_char x = (if x = ch CHR ''-'' then ch CHR ''+''
                     else if x = ch CHR ''_'' then ch CHR ''/'' else x)"

definition b64_value :: "u8 \<Rightarrow> u8" where
  \<comment> \<open>one more than the value of the character, 0 for a character to skip\<close>
  "b64_value c =
     (let v = (if c < 43 \<or> c > 122 then 0 else decode ! unat (c - 43))
      in if v \<noteq> 0 then if v = ch CHR ''$'' then 0 else v - 61 else v)"

fun b64_next :: "u8 list \<Rightarrow> int \<Rightarrow> u8 \<Rightarrow> u8 \<Rightarrow> (u8 \<times> u8 \<times> u8 list \<times> int) option" where
  \<comment> \<open>\<open>while (in_len && *in && !v)\<close>\<close>
  "b64_next [] in_len v c = (if in_len = 0 then Some (v, c, [], in_len) else None)"
| "b64_next (x # xs) in_len v c =
     (if in_len \<noteq> 0 \<and> x \<noteq> 0 \<and> v = 0
      then b64_next xs (in_len - 1) (b64_value (b64_url_char x)) (b64_url_char x)
      else Some (v, c, x # xs, in_len))"

definition b64_more :: "u8 list \<Rightarrow> int \<Rightarrow> bool option" where
  \<comment> \<open>\<open>in_len && *in\<close>\<close>
  "b64_more xs in_len =
     (if in_len = 0 then Some False else case xs of [] \<Rightarrow> None | x # _ \<Rightarrow> Some (x \<noteq> 0))"

fun b64_quad :: "nat \<Rightarrow> nat \<Rightarrow> u8 list \<Rightarrow> int \<Rightarrow> u8 list \<Rightarrow> int \<Rightarrow> u8 \<Rightarrow>
    (u8 list \<times> int \<times> u8 \<times> u8 list \<times> int) option" where
  \<comment> \<open>the \<open>for\<close> loop, with \<open>k\<close> rounds left and \<open>i = 4 - k\<close>\<close>
  "b64_quad 0 i xs in_len quad len c = Some (quad, len, c, xs, in_len)"
| "b64_quad (Suc k) i xs in_len quad len c =
     (case b64_more xs in_len of None \<Rightarrow> None
      | Some False \<Rightarrow> Some (quad, len, c, xs, in_len)
      | Some True \<Rightarrow>
        (case b64_next xs in_len 0 0 of None \<Rightarrow> None
         | Some (v, c, xs, in_len) \<Rightarrow>
           if c \<noteq> 0 then b64_quad k (Suc i) xs in_len (if v \<noteq> 0 then quad[i := v - 1] else quad) (len + 1) c
           else b64_quad k (Suc i) xs in_len (quad[i := 0]) len c))"

lemma b64_next_length: "b64_next xs in_len v c = Some (v', c', ys, n) \<Longrightarrow> length ys \<le> length xs"
  by (induction xs in_len v c rule: b64_next.induct) (auto split: if_splits)

lemma b64_quad_length: "b64_quad k i xs in_len quad len c = Some (q, l, c', ys, n) \<Longrightarrow> length ys \<le> length xs"
  by (induction k arbitrary: i xs in_len quad len c)
     (fastforce split: option.splits bool.splits prod.splits if_splits dest: b64_next_length)+

lemma b64_quad_progress:
  assumes "b64_quad (Suc k) i xs in_len quad len c = Some (q, l, c', ys, n)"
    and "b64_more xs in_len = Some True"
  shows "length ys < length xs"
proof -
  from assms(2) obtain x xs' where x: "xs = x # xs'" "x \<noteq> 0" "in_len \<noteq> 0"
    by (auto simp: b64_more_def split: if_splits list.splits)
  from assms x obtain v c1 ys1 n1 quad1 len1 where
    "b64_next xs' (in_len - 1) (b64_value (b64_url_char x)) (b64_url_char x) = Some (v, c1, ys1, n1)"
    "b64_quad k (Suc i) ys1 n1 quad1 len1 c1 = Some (q, l, c', ys, n)"
    by (auto split: option.splits prod.splits if_splits)
  then have "length ys1 \<le> length xs'" "length ys \<le> length ys1"
    by (auto dest: b64_next_length b64_quad_length)
  then show ?thesis using x by simp
qed

lemma b64_quad4_progress:
  "b64_quad 4 i xs in_len quad len c = Some (q, l, c', ys, n) \<Longrightarrow> b64_more xs in_len = Some True \<Longrightarrow>
   length ys < length xs"
  using b64_quad_progress [of 3] by (simp add: eval_nat_numeral)

definition b64_emit :: "u8 list \<Rightarrow> int \<Rightarrow> u8 list" where
  \<comment> \<open>the bytes written for a group of \<open>len\<close> characters\<close>
  "b64_emit quad len =
     (if len \<ge> 2 then [push_bit 2 (quad ! 0) OR drop_bit 4 (quad ! 1)] else []) @
     (if len \<ge> 3 then [push_bit 4 (quad ! 1) OR drop_bit 2 (quad ! 2)] else []) @
     (if len \<ge> 4 then [(push_bit 6 (quad ! 2) AND 0xc0) OR quad ! 3] else [])"

function b64_decode_loop :: "u8 list \<Rightarrow> int \<Rightarrow> u8 list \<Rightarrow> u8 \<Rightarrow> int \<Rightarrow> int \<Rightarrow> u8 list \<Rightarrow> (int \<times> u8 list) option" where
  "b64_decode_loop xs in_len quad c out_size dn out =
     (case b64_more xs in_len of None \<Rightarrow> None
      | Some False \<Rightarrow>
        Some (if dn + 1 \<ge> out_size then (-1, out) else (dn, out @ [0]))
      | Some True \<Rightarrow>
        (case b64_quad 4 0 xs in_len quad 0 c of None \<Rightarrow> None
         | Some (quad, len, c, xs', in_len') \<Rightarrow>
           if out_size < dn + len - 1 then Some (-1, out)
           else (case b64_more xs' in_len' of None \<Rightarrow> None
                 | Some more \<Rightarrow>
                   let len = (if \<not> more \<and> c = ch CHR ''='' then len - 1 else len)
                   in b64_decode_loop xs' in_len' quad c out_size (dn + len - 1) (out @ b64_emit quad len))))"
  by pat_completeness auto
termination
  by (relation "measure (\<lambda>(xs, _). length xs)") (auto dest: b64_quad4_progress)

declare b64_decode_loop.simps [simp del]

lemma b64_decode_stop:
  "b64_more xs n = Some False \<Longrightarrow> b64_decode_loop xs n quad c out_size dn out =
     Some (if dn + 1 \<ge> out_size then (-1, out) else (dn, out @ [0]))"
  by (simp add: b64_decode_loop.simps)

lemma b64_decode_step:
  "b64_more xs n = Some True \<Longrightarrow> b64_quad 4 0 xs n quad 0 c = Some (q, l, c', ys, m) \<Longrightarrow>
   b64_more ys m = Some more \<Longrightarrow> l' = (if \<not> more \<and> c' = ch CHR ''='' then l - 1 else l) \<Longrightarrow>
   b64_decode_loop xs n quad c out_size dn out =
     (if out_size < dn + l - 1 then Some (-1, out)
      else b64_decode_loop ys m q c' out_size (dn + l' - 1) (out @ b64_emit q l'))"
  by (subst b64_decode_loop.simps) simp

lemma length_b64_emit: "l \<le> 4 \<Longrightarrow> int (length (b64_emit q l)) = max 0 (l - 1)"
  by (auto simp: b64_emit_def)

definition lws_b64_decode :: "u8 list \<Rightarrow> u8 list \<Rightarrow> int \<Rightarrow> int \<Rightarrow> (int \<times> u8 list) option" where
  \<comment> \<open>\<open>_lws_b64_decode_string\<close>; \<open>quad\<close> is the indeterminate array of four bytes\<close>
  "lws_b64_decode quad inp in_len out_size = b64_decode_loop inp in_len quad 0 out_size 0 []"

definition lws_b64_decode_string :: "u8 list \<Rightarrow> u8 list \<Rightarrow> int \<Rightarrow> (int \<times> u8 list) option" where
  "lws_b64_decode_string quad inp out_size = lws_b64_decode quad inp (-1) out_size"

definition lws_b64_decode_string_len :: "u8 list \<Rightarrow> u8 list \<Rightarrow> int \<Rightarrow> int \<Rightarrow> (int \<times> u8 list) option" where
  "lws_b64_decode_string_len quad inp in_len out_size = lws_b64_decode quad inp in_len out_size"


subsection \<open>Encoding without the size limit\<close>

text \<open>The four six-bit values of a group of three bytes.\<close>

definition sextet0 :: "u8 \<Rightarrow> u8" where
  "sextet0 t0 = drop_bit 2 t0"

definition sextet1 :: "u8 \<Rightarrow> u8 \<Rightarrow> u8" where
  "sextet1 t0 t1 = push_bit 4 (t0 AND 0x03) OR drop_bit 4 (t1 AND 0xf0)"

definition sextet2 :: "u8 \<Rightarrow> u8 \<Rightarrow> u8" where
  "sextet2 t1 t2 = push_bit 2 (t1 AND 0x0f) OR drop_bit 6 (t2 AND 0xc0)"

definition sextet3 :: "u8 \<Rightarrow> u8" where
  "sextet3 t2 = t2 AND 0x3f"

lemmas sextet_defs = sextet0_def sextet1_def sextet2_def sextet3_def

lemma sextet_less [simp]: "sextet0 a < 64" "sextet1 a b < 64" "sextet2 b c < 64" "sextet3 c < 64"
proof -
  have mask: "x AND 0x3f < 64" for x :: u8
    using word_and_le1 [of x "0x3f"] by (rule order_le_less_trans) simp
  have "sextet0 a AND 0x3f = sextet0 a" "sextet1 a b AND 0x3f = sextet1 a b"
    "sextet2 b c AND 0x3f = sextet2 b c" "sextet3 c AND 0x3f = sextet3 c"
    by (simp_all add: sextet_defs byte_eq_iff bit_simps byte_bit_high)
  then show "sextet0 a < 64" "sextet1 a b < 64" "sextet2 b c < 64" "sextet3 c < 64"
    using mask by metis+
qed

lemma sextets_join:
  "push_bit 2 (sextet0 a) OR drop_bit 4 (sextet1 a b) = a"
  "push_bit 4 (sextet1 a b) OR drop_bit 2 (sextet2 b c) = b"
  "(push_bit 6 (sextet2 b c) AND 0xc0) OR sextet3 c = c"
  by (simp_all add: sextet_defs byte_eq_iff bit_simps)

definition b64_group :: "u8 list \<Rightarrow> nat \<Rightarrow> u8 \<Rightarrow> u8 \<Rightarrow> u8 \<Rightarrow> u8 list" where
  "b64_group encode len t0 t1 t2 =
     [encode ! unat (sextet0 t0), encode ! unat (sextet1 t0 t1),
      if len > 1 then encode ! unat (sextet2 t1 t2) else ch CHR ''='',
      if len > 2 then encode ! unat (sextet3 t2) else ch CHR ''='']"

fun b64_text :: "u8 list \<Rightarrow> u8 list \<Rightarrow> u8 list" where
  "b64_text encode [] = []"
| "b64_text encode [a] = b64_group encode 1 a 0 0"
| "b64_text encode [a, b] = b64_group encode 2 a b 0"
| "b64_text encode (a # b # c # xs) = b64_group encode 3 a b c @ b64_text encode xs"

lemma list3_induct [case_names Nil one two step]:
  fixes P :: "u8 list \<Rightarrow> bool"
  assumes "P []" and "\<And>a. P [a]" and "\<And>a b. P [a, b]" and "\<And>a b c xs. P xs \<Longrightarrow> P (a # b # c # xs)"
  shows "P xs"
  by (rule b64_text.induct [where P = "\<lambda>_. P"]) (use assms in auto)

lemma length_b64_group [simp]: "length (b64_group encode n a b c) = 4"
  by (simp add: b64_group_def)

lemma length_b64_text: "length (b64_text encode xs) = 4 * ((length xs + 2) div 3)"
  by (induction encode xs rule: b64_text.induct) (simp_all, presburger)

lemma b64_encode_loop_fits:
  "dn + int (length (b64_text encode xs)) + 1 < out_size \<Longrightarrow>
   b64_encode_loop encode xs out_size dn out =
     (dn + int (length (b64_text encode xs)), out @ b64_text encode xs @ [0])"
proof (induction encode xs arbitrary: dn out rule: b64_text.induct)
  case (4 encode a b c xs)
  then show ?case
    by (subst b64_encode_loop.simps) (simp add: b64_group_def sextet_defs numeral_3_eq_3)
qed (simp_all add: b64_encode_loop.simps b64_group_def sextet_defs)

lemma b64_encode_loop_short:
  "\<not> dn + int (length (b64_text encode xs)) + 1 < out_size \<Longrightarrow>
   \<exists>k. b64_encode_loop encode xs out_size dn out = (-1, out @ take k (b64_text encode xs)) \<and>
       (0 \<le> dn \<and> dn < out_size \<longrightarrow> dn + int (min k (length (b64_text encode xs))) < out_size)"
proof (induction encode xs arbitrary: dn out rule: b64_text.induct)
  case (4 encode a b c xs)
  show ?case
  proof (cases "dn + 4 \<ge> out_size")
    case True
    then show ?thesis by (intro exI [of _ 0]) (simp add: b64_encode_loop.simps)
  next
    case False
    from 4(2) have "\<not> dn + 4 + int (length (b64_text encode xs)) + 1 < out_size" by simp
    from 4(1) [OF this, of "out @ b64_group encode 3 a b c"] obtain k where
      k: "b64_encode_loop encode xs out_size (dn + 4) (out @ b64_group encode 3 a b c) =
          (-1, (out @ b64_group encode 3 a b c) @ take k (b64_text encode xs))"
        "0 \<le> dn + 4 \<and> dn + 4 < out_size \<longrightarrow>
          dn + 4 + int (min k (length (b64_text encode xs))) < out_size" by blast
    have "b64_encode_loop encode (a # b # c # xs) out_size dn out =
        b64_encode_loop encode xs out_size (dn + 4) (out @ b64_group encode 3 a b c)"
      using False by (subst b64_encode_loop.simps) (simp add: b64_group_def sextet_defs numeral_3_eq_3)
    with k False show ?thesis by (intro exI [of _ "4 + k"]) auto
  qed
qed (auto simp: b64_encode_loop.simps b64_group_def sextet_defs split: if_splits intro: exI [of _ 0] exI [of _ 4])


subsection \<open>Decoding what was encoded\<close>

text \<open>
  The decoder works with any alphabet whose characters it maps back to their place. Both alphabets
  of the encoder are of this kind.
\<close>

definition b64_input :: "u8 list \<Rightarrow> int \<Rightarrow> u8 list \<Rightarrow> bool" where
  \<comment> \<open>the memory \<open>mem\<close>, read with the limit \<open>n\<close>, presents exactly the text \<open>xs\<close>\<close>
  "b64_input xs n mem \<longleftrightarrow> (n < 0 \<and> (\<exists>r. mem = xs @ 0 # r)) \<or> (n = int (length xs) \<and> (\<exists>r. mem = xs @ r))"

lemma b64_input_Cons:
  "b64_input (x # xs) n mem \<Longrightarrow> \<exists>mem'. mem = x # mem' \<and> n \<noteq> 0 \<and> b64_input xs (n - 1) mem'"
  by (auto simp: b64_input_def)

lemma b64_input_more: "b64_input xs n mem \<Longrightarrow> 0 \<notin> set xs \<Longrightarrow> b64_more mem n = Some (xs \<noteq> [])"
  by (cases xs) (auto simp: b64_input_def b64_more_def)

lemma b64_next_stop: "b64_input xs n mem \<Longrightarrow> v \<noteq> 0 \<Longrightarrow> b64_next mem n v c = Some (v, c, mem, n)"
  by (cases mem) (auto simp: b64_input_def)

lemma b64_next_end: "b64_input [] n mem \<Longrightarrow> b64_next mem n v c = Some (v, c, mem, n)"
  by (cases mem) (auto simp: b64_input_def)

lemma six_bit_Suc: "w < (64::u8) \<Longrightarrow> w + 1 \<noteq> 0"
proof
  assume "w < 64" and "w + 1 = 0"
  then have "w = -1" by (simp add: eq_neg_iff_add_eq_0)
  with \<open>w < 64\<close> show False by simp
qed

locale b64_alphabet =
  fixes encode :: "u8 list"
  assumes value_encode: "w < 64 \<Longrightarrow> b64_value (b64_url_char (encode ! unat w)) = w + 1"
    and encode_char: "w < 64 \<Longrightarrow> encode ! unat w \<noteq> 0"
    and url_char: "w < 64 \<Longrightarrow> b64_url_char (encode ! unat w) \<noteq> 0 \<and> b64_url_char (encode ! unat w) \<noteq> ch CHR ''=''"
begin

lemma next_char:
  assumes "b64_input (encode ! unat w # xs) n mem" and "w < 64"
  shows "\<exists>mem'. b64_input xs (n - 1) mem' \<and>
    b64_next mem n 0 0 = Some (w + 1, b64_url_char (encode ! unat w), mem', n - 1)"
proof -
  from b64_input_Cons [OF assms(1)] obtain mem' where
    m: "mem = encode ! unat w # mem'" "n \<noteq> 0" "b64_input xs (n - 1) mem'" by blast
  have "w + 1 \<noteq> 0" using assms(2) by (rule six_bit_Suc)
  then show ?thesis
    using m assms(2) by (simp add: encode_char value_encode b64_next_stop)
qed

lemma quad_char:
  assumes "b64_input (encode ! unat w # xs) n mem" and "w < 64"
  shows "\<exists>mem'. b64_input xs (n - 1) mem' \<and>
    (\<forall>k i quad len c. b64_quad (Suc k) i mem n quad len c =
      b64_quad k (Suc i) mem' (n - 1) (quad[i := w]) (len + 1) (b64_url_char (encode ! unat w)))"
proof -
  from next_char [OF assms] obtain mem' where
    m: "b64_input xs (n - 1) mem'" "b64_next mem n 0 0 = Some (w + 1, b64_url_char (encode ! unat w), mem', n - 1)"
    by blast
  have "b64_more mem n = Some True"
    using b64_input_Cons [OF assms(1)] encode_char [OF assms(2)] by (auto simp: b64_more_def)
  moreover have "w + 1 \<noteq> 0" using assms(2) by (rule six_bit_Suc)
  ultimately show ?thesis using m url_char [OF assms(2)] by auto
qed

lemma quad_pad:
  assumes "b64_input (replicate (Suc p) (ch CHR ''='')) n mem" and "p < 2"
  shows "\<exists>mem' n'. b64_input [] n' mem' \<and>
    (\<forall>k i quad len c. b64_quad (Suc k) i mem n quad len c = Some (quad, len + 1, ch CHR ''='', mem', n'))"
proof -
  have val: "b64_value (b64_url_char (ch CHR ''='')) = 0" "b64_url_char (ch CHR ''='') = ch CHR ''=''"
    by (simp_all add: b64_url_char_def b64_value_def decode_def)
  from b64_input_Cons [OF assms(1) [simplified replicate_Suc]] obtain mem1 where
    m1: "mem = ch CHR ''='' # mem1" "n \<noteq> 0" "b64_input (replicate p (ch CHR ''='')) (n - 1) mem1" by blast
  have more: "b64_more mem n = Some True" using m1 by (simp add: b64_more_def)
  have "\<exists>mem' n'. b64_input [] n' mem' \<and> b64_next mem n 0 0 = Some (0, ch CHR ''='', mem', n')"
  proof (cases p)
    case 0
    then show ?thesis using m1 val by (auto simp: b64_next_end)
  next
    case (Suc q)
    with assms(2) m1(3) have "b64_input [ch CHR ''=''] (n - 1) mem1" by simp
    from b64_input_Cons [OF this] obtain mem2 where
      "mem1 = ch CHR ''='' # mem2" "n - 1 \<noteq> 0" "b64_input [] (n - 1 - 1) mem2" by blast
    then show ?thesis using m1 val by (auto simp: b64_next_end)
  qed
  then obtain mem' n' where m': "b64_input [] n' mem'" "b64_next mem n 0 0 = Some (0, ch CHR ''='', mem', n')"
    by blast
  have stop: "b64_quad k' j mem' n' quad l c' = Some (quad, l, c', mem', n')" for k' j quad l c'
    using b64_input_more [OF m'(1)] by (cases k') simp_all
  from m' more stop show ?thesis by auto
qed

lemma text_nonzero: "0 \<notin> set (b64_text encode xs)"
  by (induction xs rule: list3_induct) (auto simp: b64_group_def encode_char dest: encode_char [symmetric])

lemma quad_group3:
  assumes "b64_input (b64_group encode 3 t0 t1 t2 @ rest) n mem" and "length quad = 4"
  shows "\<exists>mem' n' c'. b64_input rest n' mem' \<and> c' \<noteq> ch CHR ''='' \<and>
    b64_quad 4 0 mem n quad 0 c = Some ([sextet0 t0, sextet1 t0 t1, sextet2 t1 t2, sextet3 t2], 4, c', mem', n')"
proof -
  obtain q0 q1 q2 q3 where q: "quad = [q0, q1, q2, q3]"
    using assms(2) by (auto simp: length_Suc_conv eval_nat_numeral)
  have i0: "b64_input (encode ! unat (sextet0 t0) # encode ! unat (sextet1 t0 t1) #
      encode ! unat (sextet2 t1 t2) # encode ! unat (sextet3 t2) # rest) n mem"
    using assms(1) by (simp add: b64_group_def)
  from quad_char [OF i0 sextet_less(1)] obtain m1 where m1: "b64_input (encode ! unat (sextet1 t0 t1) #
      encode ! unat (sextet2 t1 t2) # encode ! unat (sextet3 t2) # rest) (n - 1) m1"
    and s1: "\<forall>k i quad len c. b64_quad (Suc k) i mem n quad len c = b64_quad k (Suc i) m1 (n - 1)
      (quad[i := sextet0 t0]) (len + 1) (b64_url_char (encode ! unat (sextet0 t0)))" by blast
  from quad_char [OF m1 sextet_less(2)] obtain m2 where m2: "b64_input (encode ! unat (sextet2 t1 t2) #
      encode ! unat (sextet3 t2) # rest) (n - 1 - 1) m2"
    and s2: "\<forall>k i quad len c. b64_quad (Suc k) i m1 (n - 1) quad len c = b64_quad k (Suc i) m2 (n - 1 - 1)
      (quad[i := sextet1 t0 t1]) (len + 1) (b64_url_char (encode ! unat (sextet1 t0 t1)))" by blast
  from quad_char [OF m2 sextet_less(3)] obtain m3 where m3: "b64_input (encode ! unat (sextet3 t2) # rest)
      (n - 1 - 1 - 1) m3"
    and s3: "\<forall>k i quad len c. b64_quad (Suc k) i m2 (n - 1 - 1) quad len c = b64_quad k (Suc i) m3 (n - 1 - 1 - 1)
      (quad[i := sextet2 t1 t2]) (len + 1) (b64_url_char (encode ! unat (sextet2 t1 t2)))" by blast
  from quad_char [OF m3 sextet_less(4)] obtain m4 where m4: "b64_input rest (n - 1 - 1 - 1 - 1) m4"
    and s4: "\<forall>k i quad len c. b64_quad (Suc k) i m3 (n - 1 - 1 - 1) quad len c =
      b64_quad k (Suc i) m4 (n - 1 - 1 - 1 - 1) (quad[i := sextet3 t2]) (len + 1)
        (b64_url_char (encode ! unat (sextet3 t2)))" by blast
  have "b64_quad (Suc (Suc (Suc (Suc 0)))) 0 mem n quad 0 c =
      Some ([sextet0 t0, sextet1 t0 t1, sextet2 t1 t2, sextet3 t2], 4,
        b64_url_char (encode ! unat (sextet3 t2)), m4, n - 1 - 1 - 1 - 1)"
    by (simp only: s1 s2 s3 s4) (simp add: q)
  then show ?thesis using m4 url_char [OF sextet_less(4) [of t2]] by (auto simp: eval_nat_numeral)
qed

lemma quad_group_short:
  assumes "b64_input (b64_group encode len t0 t1 0) n mem" and "length quad = 4" and "len = 1 \<or> len = 2"
  shows "\<exists>mem' n' q2 q3. b64_input [] n' mem' \<and>
    b64_quad 4 0 mem n quad 0 c =
      Some ([sextet0 t0, sextet1 t0 t1, if len = 2 then sextet2 t1 0 else q2, q3], int len + 2, ch CHR ''='', mem', n')"
proof -
  obtain q0 q1 q2 q3 where q: "quad = [q0, q1, q2, q3]"
    using assms(2) by (auto simp: length_Suc_conv eval_nat_numeral)
  let ?pad = "\<lambda>p. replicate p (ch CHR ''='')"
  have i0: "b64_input (encode ! unat (sextet0 t0) # encode ! unat (sextet1 t0 t1) #
      (if len = 2 then encode ! unat (sextet2 t1 0) # ?pad 1 else ?pad 2)) n mem"
    using assms(1,3) by (auto simp: b64_group_def eval_nat_numeral)
  from quad_char [OF i0 sextet_less(1)] obtain m1 where m1: "b64_input (encode ! unat (sextet1 t0 t1) #
      (if len = 2 then encode ! unat (sextet2 t1 0) # ?pad 1 else ?pad 2)) (n - 1) m1"
    and s1: "\<forall>k i quad len c. b64_quad (Suc k) i mem n quad len c = b64_quad k (Suc i) m1 (n - 1)
      (quad[i := sextet0 t0]) (len + 1) (b64_url_char (encode ! unat (sextet0 t0)))" by blast
  from quad_char [OF m1 sextet_less(2)] obtain m2 where
    m2: "b64_input (if len = 2 then encode ! unat (sextet2 t1 0) # ?pad 1 else ?pad 2) (n - 1 - 1) m2"
    and s2: "\<forall>k i quad len c. b64_quad (Suc k) i m1 (n - 1) quad len c = b64_quad k (Suc i) m2 (n - 1 - 1)
      (quad[i := sextet1 t0 t1]) (len + 1) (b64_url_char (encode ! unat (sextet1 t0 t1)))" by blast
  show ?thesis
  proof (cases "len = 2")
    case True
    with m2 have "b64_input (encode ! unat (sextet2 t1 0) # ?pad (Suc 0)) (n - 1 - 1) m2" by simp
    from quad_char [OF this sextet_less(3)] obtain m3 where m3: "b64_input (?pad (Suc 0)) (n - 1 - 1 - 1) m3"
      and s3: "\<forall>k i quad len c. b64_quad (Suc k) i m2 (n - 1 - 1) quad len c = b64_quad k (Suc i) m3 (n - 1 - 1 - 1)
        (quad[i := sextet2 t1 0]) (len + 1) (b64_url_char (encode ! unat (sextet2 t1 0)))" by blast
    from quad_pad [OF m3] obtain m4 n4 where m4: "b64_input [] n4 m4"
      and s4: "\<forall>k i quad len c. b64_quad (Suc k) i m3 (n - 1 - 1 - 1) quad len c =
        Some (quad, len + 1, ch CHR ''='', m4, n4)" by auto
    have "b64_quad (Suc (Suc (Suc (Suc 0)))) 0 mem n quad 0 c =
        Some ([sextet0 t0, sextet1 t0 t1, sextet2 t1 0, q3], 4, ch CHR ''='', m4, n4)"
      by (simp only: s1 s2 s3 s4) (simp add: q)
    then show ?thesis using m4 True by (auto simp: eval_nat_numeral)
  next
    case False
    with m2 have "b64_input (?pad (Suc 1)) (n - 1 - 1) m2" by (simp add: numeral_2_eq_2)
    from quad_pad [OF this] obtain m4 n4 where m4: "b64_input [] n4 m4"
      and s4: "\<forall>k i quad len c. b64_quad (Suc k) i m2 (n - 1 - 1) quad len c =
        Some (quad, len + 1, ch CHR ''='', m4, n4)" by auto
    have "b64_quad (Suc (Suc (Suc (Suc 0)))) 0 mem n quad 0 c =
        Some ([sextet0 t0, sextet1 t0 t1, q2, q3], 3, ch CHR ''='', m4, n4)"
      by (simp only: s1 s2 s4) (simp add: q)
    then show ?thesis using m4 False assms(3) by (auto simp: eval_nat_numeral)
  qed
qed

lemma decode_text:
  assumes "b64_input (b64_text encode xs) n mem" and "length quad = 4" and "0 \<le> dn"
    and "dn + int (length xs) + 1 < out_size"
  shows "b64_decode_loop mem n quad c out_size dn out = Some (dn + int (length xs), out @ xs @ [0])"
  using assms
proof (induction xs arbitrary: n mem quad c dn out rule: list3_induct)
  case Nil
  then show ?case by (simp add: b64_decode_stop b64_input_more)
next
  case (one a)
  then have grp: "b64_input (b64_group encode 1 a 0 0) n mem" by simp
  have more: "b64_more mem n = Some True"
    using b64_input_more [OF one.prems(1) text_nonzero] by (simp add: b64_group_def)
  from quad_group_short [OF grp one.prems(2), of c] obtain mem' n' q2 q3 where
    m': "b64_input [] n' mem'" and
    q: "b64_quad 4 0 mem n quad 0 c = Some ([sextet0 a, sextet1 a 0, q2, q3], 3, ch CHR ''='', mem', n')"
    by auto
  have more': "b64_more mem' n' = Some False" using m' by (simp add: b64_input_more)
  show ?case using one.prems more' sextets_join(1)
    by (simp add: b64_decode_step [OF more q more' refl] b64_decode_stop b64_emit_def)
next
  case (two a b)
  then have grp: "b64_input (b64_group encode 2 a b 0) n mem" by simp
  have more: "b64_more mem n = Some True"
    using b64_input_more [OF two.prems(1) text_nonzero] by (simp add: b64_group_def)
  from quad_group_short [OF grp two.prems(2), of c] obtain mem' n' q3 where
    m': "b64_input [] n' mem'" and
    q: "b64_quad 4 0 mem n quad 0 c = Some ([sextet0 a, sextet1 a b, sextet2 b 0, q3], 4, ch CHR ''='', mem', n')"
    by auto
  have more': "b64_more mem' n' = Some False" using m' by (simp add: b64_input_more)
  show ?case using two.prems more' sextets_join(1,2)
    by (simp add: b64_decode_step [OF more q more' refl] b64_decode_stop b64_emit_def)
next
  case (step t0 t1 t2 xs)
  then have grp: "b64_input (b64_group encode 3 t0 t1 t2 @ b64_text encode xs) n mem" by simp
  have more: "b64_more mem n = Some True"
    using b64_input_more [OF step.prems(1) text_nonzero] by (simp add: b64_group_def)
  from quad_group3 [OF grp step.prems(2), of c] obtain mem' n' c' where
    m': "b64_input (b64_text encode xs) n' mem'" "c' \<noteq> ch CHR ''=''"
    "b64_quad 4 0 mem n quad 0 c = Some ([sextet0 t0, sextet1 t0 t1, sextet2 t1 t2, sextet3 t2], 4, c', mem', n')"
    by blast
  have more': "b64_more mem' n' = Some (b64_text encode xs \<noteq> [])"
    using m'(1) text_nonzero by (rule b64_input_more)
  have "b64_decode_loop mem' n' [sextet0 t0, sextet1 t0 t1, sextet2 t1 t2, sextet3 t2] c' out_size (dn + 3)
      (out @ [t0, t1, t2]) = Some (dn + 3 + int (length xs), (out @ [t0, t1, t2]) @ xs @ [0])"
    using step.prems m'(1) by (intro step.IH) simp_all
  then show ?case using step.prems m'(2)
    by (simp add: b64_decode_step [OF more m'(3) more' refl] b64_emit_def sextets_join algebra_simps)
qed

end

definition b64_alphabet_ok :: "u8 list \<Rightarrow> bool" where
  "b64_alphabet_ok encode \<longleftrightarrow>
     map (\<lambda>x. b64_value (b64_url_char x)) encode = map (\<lambda>i. word_of_nat i - 1) [2..<66] \<and>
     list_all (\<lambda>x. x \<noteq> 0 \<and> b64_url_char x \<noteq> 0 \<and> b64_url_char x \<noteq> ch CHR ''='') encode"

lemma b64_alphabet_ok_locale:
  assumes "b64_alphabet_ok encode"
  shows "b64_alphabet encode"
proof -
  from assms have eq: "map (\<lambda>x. b64_value (b64_url_char x)) encode = map (\<lambda>i. word_of_nat i - 1) [2..<66]"
    and all: "list_all (\<lambda>x. x \<noteq> 0 \<and> b64_url_char x \<noteq> 0 \<and> b64_url_char x \<noteq> ch CHR ''='') encode"
    by (simp_all add: b64_alphabet_ok_def)
  from eq have len: "length encode = 64" by (auto dest: map_eq_imp_length_eq)
  have i: "unat w < 64" if "w < 64" for w :: u8 using that by (simp add: word_less_nat_alt)
  have val: "b64_value (b64_url_char (encode ! unat w)) = w + 1" if "w < 64" for w :: u8
  proof -
    have "[2..<66] ! unat w = 2 + unat w" using i [OF that] by (intro nth_upt) simp
    moreover have "map (\<lambda>i. word_of_nat i - 1) [2..<66] ! unat w = (word_of_nat ([2..<66] ! unat w) - 1 :: u8)"
      using i [OF that] by (intro nth_map) simp
    ultimately have "map (\<lambda>i. word_of_nat i - 1) [2..<66] ! unat w = w + 1" by simp
    then show ?thesis using arg_cong [OF eq, of "\<lambda>xs. xs ! unat w"] i [OF that] len by simp
  qed
  from all have "x \<noteq> 0 \<and> b64_url_char x \<noteq> 0 \<and> b64_url_char x \<noteq> ch CHR ''=''" if "x \<in> set encode" for x
    using that by (simp add: list_all_iff)
  with val i len show ?thesis by unfold_locales (metis nth_mem)+
qed

lemma b64_alphabets_ok: "b64_alphabet_ok encode_orig" "b64_alphabet_ok encode_url"
  by (simp_all add: b64_alphabet_ok_def encode_orig_def encode_url_def b64_value_def b64_url_char_def
      decode_def upt_rec_numeral)

interpretation b64_orig: b64_alphabet encode_orig
  by (rule b64_alphabet_ok_locale) (rule b64_alphabets_ok)

interpretation b64_url: b64_alphabet encode_url
  by (rule b64_alphabet_ok_locale) (rule b64_alphabets_ok)



subsection \<open>Bounds of the decoder\<close>

lemma b64_url_char_nonzero: "x \<noteq> 0 \<Longrightarrow> b64_url_char x \<noteq> 0"
  by (simp add: b64_url_char_def)

lemma b64_next_char: "b64_next xs n v c = Some (v', c', ys, m) \<Longrightarrow> c \<noteq> 0 \<Longrightarrow> c' \<noteq> 0"
  by (induction xs n v c rule: b64_next.induct) (auto simp: b64_url_char_nonzero split: if_splits)

lemma b64_quad_len:
  "b64_quad k i xs n quad len c = Some (q, l, c', ys, m) \<Longrightarrow>
   len \<le> l \<and> l \<le> len + int k \<and> length q = length quad"
  by (induction k arbitrary: i xs n quad len c)
     (fastforce split: option.splits bool.splits prod.splits if_splits)+

lemma b64_quad_len1:
  assumes "b64_quad (Suc k) i xs n quad len c = Some (q, l, c', ys, m)" and "b64_more xs n = Some True"
  shows "len + 1 \<le> l"
proof -
  from assms(2) obtain x xs' where x: "xs = x # xs'" "x \<noteq> 0" "n \<noteq> 0"
    by (auto simp: b64_more_def split: if_splits list.splits)
  from assms x obtain v c1 ys1 n1 where
    nx: "b64_next xs' (n - 1) (b64_value (b64_url_char x)) (b64_url_char x) = Some (v, c1, ys1, n1)"
    by (auto split: option.splits)
  then have "c1 \<noteq> 0" using b64_next_char b64_url_char_nonzero x(2) by blast
  with assms x nx show ?thesis by (auto dest!: b64_quad_len split: if_splits)
qed

lemma b64_quad4_len:
  assumes "b64_quad 4 0 xs n quad 0 c = Some (q, l, c', ys, m)" and "b64_more xs n = Some True"
  shows "1 \<le> l" "l \<le> 4"
  using b64_quad_len1 [of 3 0 xs n quad 0 c q l c' ys m] b64_quad_len [OF assms(1)] assms
  by (simp_all add: eval_nat_numeral)

lemma b64_decode_cases:
  assumes "b64_decode_loop xs n quad c out_size dn out = Some res"
  obtains "b64_more xs n = Some False"
  | q l c' ys m where "b64_more xs n = Some True" "b64_quad 4 0 xs n quad 0 c = Some (q, l, c', ys, m)"
      "out_size < dn + l - 1" "res = (-1, out)"
  | q l c' ys m more where "b64_more xs n = Some True" "b64_quad 4 0 xs n quad 0 c = Some (q, l, c', ys, m)"
      "\<not> out_size < dn + l - 1" "b64_more ys m = Some more"
  using assms
  by (subst (asm) b64_decode_loop.simps) (fastforce split: option.splits bool.splits if_splits prod.splits)

lemma b64_decode_loop_bounded:
  assumes "b64_decode_loop xs n quad c out_size dn out = Some (ret, res)"
    and "int (length out) = dn" and "dn \<le> out_size"
  shows "int (length res) \<le> out_size \<and> (0 \<le> ret \<longrightarrow> ret + 1 \<le> int (length res))"
  using assms
proof (induction "length xs" arbitrary: xs n quad c dn out rule: less_induct)
  case less
  from less.prems(1) show ?case
  proof (cases rule: b64_decode_cases)
    case 1
    with less.prems show ?thesis by (auto simp: b64_decode_stop split: if_splits)
  next
    case 2
    with less.prems show ?thesis by auto
  next
    case (3 q l c' ys m more)
    define l' where "l' = (if \<not> more \<and> c' = ch CHR ''='' then l - 1 else l)"
    note l = b64_quad4_len [OF 3(2,1)]
    have loop: "b64_decode_loop ys m q c' out_size (dn + l' - 1) (out @ b64_emit q l') = Some (ret, res)"
      using less.prems(1) 3 b64_decode_step [OF 3(1,2,4) l'_def] by simp
    have len: "int (length (out @ b64_emit q l')) = dn + max 0 (l' - 1)"
      using less.prems(2) l length_b64_emit [of l' q] by (simp add: l'_def)
    show ?thesis
    proof (cases more)
      case True
      then have "l' = l" by (simp add: l'_def)
      then show ?thesis
        using less.hyps [OF b64_quad4_progress [OF 3(2,1)] loop] len l 3(3) by simp
    next
      case False
      with 3(4) loop len l 3(3) show ?thesis
        by (auto simp: b64_decode_stop l'_def split: if_splits)
    qed
  qed
qed


text \<open>Reading stays inside of the input when it is terminated or long enough for \<open>in_len\<close>.\<close>

definition b64_readable :: "u8 list \<Rightarrow> int \<Rightarrow> bool" where
  "b64_readable xs n \<longleftrightarrow> 0 \<in> set xs \<or> (0 \<le> n \<and> n \<le> int (length xs))"

lemma b64_more_total: "b64_readable xs n \<Longrightarrow> \<exists>m. b64_more xs n = Some m"
  by (cases xs) (auto simp: b64_readable_def b64_more_def)

lemma b64_next_total:
  "b64_readable xs n \<Longrightarrow> \<exists>v' c' ys m. b64_next xs n v c = Some (v', c', ys, m) \<and> b64_readable ys m"
proof (induction xs arbitrary: n v c)
  case (Cons x xs)
  show ?case
  proof (cases "n \<noteq> 0 \<and> x \<noteq> 0 \<and> v = 0")
    case True
    with Cons.prems have "b64_readable xs (n - 1)" by (auto simp: b64_readable_def)
    from Cons.IH [OF this] True show ?thesis by simp
  qed (use Cons.prems in auto)
qed (simp add: b64_readable_def)

lemma b64_quad_total:
  "b64_readable xs n \<Longrightarrow> \<exists>q l c' ys m. b64_quad k i xs n quad len c = Some (q, l, c', ys, m) \<and> b64_readable ys m"
proof (induction k arbitrary: i xs n quad len c)
  case (Suc k)
  obtain more where more: "b64_more xs n = Some more" using b64_more_total [OF Suc.prems] by blast
  obtain v' c' ys m where nx: "b64_next xs n 0 0 = Some (v', c', ys, m)" "b64_readable ys m"
    using b64_next_total [OF Suc.prems] by blast
  show ?case
  proof (cases more)
    case True
    with more nx(1) Suc.IH [OF nx(2)] show ?thesis by (cases "c' \<noteq> 0") auto
  next
    case False
    with more Suc.prems show ?thesis by simp
  qed
qed simp

lemma b64_decode_loop_total:
  "b64_readable xs n \<Longrightarrow> \<exists>res. b64_decode_loop xs n quad c out_size dn out = Some res"
proof (induction "length xs" arbitrary: xs n quad c dn out rule: less_induct)
  case less
  obtain more where more: "b64_more xs n = Some more" using b64_more_total [OF less.prems] by blast
  show ?case
  proof (cases more)
    case False
    with more show ?thesis by (simp add: b64_decode_stop)
  next
    case True
    obtain q l c' ys m where q: "b64_quad 4 0 xs n quad 0 c = Some (q, l, c', ys, m)" "b64_readable ys m"
      using b64_quad_total [OF less.prems] by blast
    obtain more' where more': "b64_more ys m = Some more'" using b64_more_total [OF q(2)] by blast
    have "b64_more xs n = Some True" using more True by simp
    then show ?thesis
      using less.hyps [OF b64_quad4_progress [OF q(1)] q(2)] b64_decode_step [OF _ q(1) more' refl] by simp
  qed
qed


subsection \<open>Correctness properties\<close>

lemma b64_text_size: "int (length (b64_text encode xs)) = 4 * ((int (length xs) + 2) div 3)"
  by (simp add: length_b64_text zdiv_int)

text \<open>C19: decoding what was encoded, with the standard or with the URL alphabet, gives back the bytes
  and their number, for every byte string and any output buffers that are large enough; the encoder
  returns the length of the text without its terminator.\<close>

theorem b64_roundtrip:
  assumes "4 * ((int (length xs) + 2) div 3) + 1 < esize" and "int (length xs) + 1 < dsize"
    and "length quad = 4"
  shows "\<exists>txt url. lws_b64_encode_string xs esize = (int (length txt) - 1, txt) \<and>
     lws_b64_decode_string quad txt dsize = Some (int (length xs), xs @ [0]) \<and>
     lws_b64_encode_string_url xs esize = (int (length url) - 1, url) \<and>
     lws_b64_decode_string quad url dsize = Some (int (length xs), xs @ [0])"
proof -
  have enc: "lws_b64_encode encode xs esize =
      (int (length (b64_text encode xs @ [0])) - 1, b64_text encode xs @ [0])" for encode
    using b64_encode_loop_fits [of 0 encode xs esize "[]"] assms(1)
    by (simp add: lws_b64_encode_def b64_text_size)
  have inp: "b64_input (b64_text encode xs) (-1) (b64_text encode xs @ [0])" for encode
    by (simp add: b64_input_def)
  note dec = b64_orig.decode_text [OF inp assms(3) order.refl] b64_url.decode_text [OF inp assms(3) order.refl]
  show ?thesis
    by (intro exI [of _ "b64_text encode_orig xs @ [0]"] exI [of _ "b64_text encode_url xs @ [0]"] conjI)
     (use enc dec assms(2) in
      \<open>simp_all add: lws_b64_encode_string_def lws_b64_encode_string_url_def
        lws_b64_decode_string_def lws_b64_decode_def\<close>)
qed

theorem b64_roundtrip_witness:
  "\<exists>txt url. lws_b64_encode_string [0, 255, 62, 63] 16 = (int (length txt) - 1, txt) \<and>
     lws_b64_decode_string [1, 2, 3, 4] txt 8 = Some (int (length [0::u8, 255, 62, 63]), [0, 255, 62, 63] @ [0]) \<and>
     lws_b64_encode_string_url [0, 255, 62, 63] 16 = (int (length url) - 1, url) \<and>
     lws_b64_decode_string [1, 2, 3, 4] url 8 = Some (int (length [0::u8, 255, 62, 63]), [0, 255, 62, 63] @ [0])"
  by (rule b64_roundtrip) simp_all

text \<open>C23: the encoder never writes past \<open>out_size\<close> bytes. When the text and its terminator fit with a byte to
  spare, they are what it writes, and it returns the length of the text. Otherwise it returns \<open>-1\<close>, and that also
  when they fill the buffer exactly: it asks for one byte more than it needs.\<close>

theorem lws_b64_encode_bounded:
  "(if int (length (b64_text encode xs @ [0])) < out_size
    then lws_b64_encode encode xs out_size = (int (length (b64_text encode xs)), b64_text encode xs @ [0])
    else \<exists>out. lws_b64_encode encode xs out_size = (- 1, out) \<and> int (length out) \<le> max 0 out_size)"
proof (cases "int (length (b64_text encode xs)) + 1 < out_size")
  case True
  with b64_encode_loop_fits [of 0 encode xs out_size "[]"] show ?thesis by (simp add: lws_b64_encode_def)
next
  case False
  with b64_encode_loop_short [of 0 encode xs out_size "[]"] obtain k where
    k: "b64_encode_loop encode xs out_size 0 [] = (-1, take k (b64_text encode xs))"
      "0 < out_size \<longrightarrow> int (min k (length (b64_text encode xs))) < out_size" by auto
  have "int (length (take k (b64_text encode xs))) \<le> max 0 out_size"
  proof (cases "0 < out_size")
    case False
    then have "b64_encode_loop encode xs out_size 0 [] = (-1, [])" by (subst b64_encode_loop.simps) simp
    with k(1) show ?thesis by (auto simp: min_def)
  qed (use k in \<open>simp add: min.commute\<close>)
  with k(1) False show ?thesis by (simp add: lws_b64_encode_def)
qed

text \<open>Three bytes make four characters and a terminator; a buffer of five bytes is refused.\<close>

lemma b64_encode_exact_fit:
  "lws_b64_encode encode_orig [1, 2, 3] 5 = (-1, bytes_of ''AQID'')" "length (b64_text encode_orig [1, 2, 3] @ [0]) = 5"
  by (simp_all add: lws_b64_encode_def b64_encode_loop.simps encode_orig_def length_b64_text)

text \<open>C20: on input that is NUL-terminated or at least \<open>in_len\<close> bytes long the decoder reads only the
  input and always returns; it never writes more than \<open>out_size\<close> bytes, and what it wrote includes the
  bytes it reports and a terminator.\<close>

theorem lws_b64_decode_safe:
  assumes "b64_readable inp in_len" and "0 \<le> out_size"
  shows "\<exists>ret out. lws_b64_decode quad inp in_len out_size = Some (ret, out) \<and>
     int (length out) \<le> out_size \<and> (0 \<le> ret \<longrightarrow> ret + 1 \<le> int (length out))"
proof -
  obtain ret out where r: "b64_decode_loop inp in_len quad 0 out_size 0 [] = Some (ret, out)"
    using b64_decode_loop_total [OF assms(1)] by fast
  with b64_decode_loop_bounded [OF r] assms(2) show ?thesis by (simp add: lws_b64_decode_def)
qed

theorem lws_b64_decode_safe_witness:
  "b64_readable (bytes_of ''a-=?b'') 5 \<and>
   (\<exists>ret out. lws_b64_decode [0, 0, 0, 0] (bytes_of ''a-=?b'') 5 9 = Some (ret, out) \<and>
     int (length out) \<le> 9 \<and> (0 \<le> ret \<longrightarrow> ret + 1 \<le> int (length out)))"
proof -
  have r: "b64_readable (bytes_of ''a-=?b'') 5" by (simp add: b64_readable_def)
  show ?thesis by (intro conjI r lws_b64_decode_safe [OF r]) simp
qed

text \<open>A pad character after a complete group: three bytes are written, the count returned is two.\<close>

lemma b64_stray_pad_miscounted:
  "lws_b64_decode_string [0, 0, 0, 0] (bytes_of ''TWFu='' @ [0]) 16 = Some (2, bytes_of ''Man'' @ [0])"
  by code_simp

end
