(* ===== verification/Http_Headers.thy ===== *)
theory Http_Headers
  imports Lws_Prelude
begin

text \<open>
  The storage of parsed HTTP headers (\<open>struct allocated_headers\<close> of \<open>lib/roles/http/private.h\<close>, the
  accessors of \<open>lib/roles/http/server/parsers.c\<close>): header data goes into one byte array in the order in
  which it arrives, \<open>frags[]\<close> describes the pieces of it, and \<open>frag_index[]\<close> says with which piece a
  token starts; the pieces of one token are chained by \<open>nfrag\<close>.

  \<open>None\<close> stands for undefined behaviour (an access outside of an array, a chain without an end) or a
  failed \<open>assert\<close>. Pointers into \<open>data\<close> are offsets. The fields of the structure that only matter to the
  pool of header tables are modelled with the pool.
\<close>

subsection \<open>Tokens and states\<close>

abbreviation (input) WSI_TOKEN_GET_URI :: nat where "WSI_TOKEN_GET_URI \<equiv> 0"
abbreviation (input) WSI_TOKEN_POST_URI :: nat where "WSI_TOKEN_POST_URI \<equiv> 1"
abbreviation (input) WSI_TOKEN_OPTIONS_URI :: nat where "WSI_TOKEN_OPTIONS_URI \<equiv> 2"
abbreviation (input) WSI_TOKEN_UPGRADE :: nat where "WSI_TOKEN_UPGRADE \<equiv> 5"
abbreviation (input) WSI_TOKEN_ORIGIN :: nat where "WSI_TOKEN_ORIGIN \<equiv> 6"
abbreviation (input) WSI_TOKEN_CHALLENGE :: nat where "WSI_TOKEN_CHALLENGE \<equiv> 8"
abbreviation (input) WSI_TOKEN_HTTP :: nat where "WSI_TOKEN_HTTP \<equiv> 15"
abbreviation (input) WSI_TOKEN_HTTP_COOKIE :: nat where "WSI_TOKEN_HTTP_COOKIE \<equiv> 26"
abbreviation (input) WSI_TOKEN_HTTP_RANGE :: nat where "WSI_TOKEN_HTTP_RANGE \<equiv> 30"
abbreviation (input) WSI_TOKEN_VERSION :: nat where "WSI_TOKEN_VERSION \<equiv> 33"
abbreviation (input) WSI_TOKEN_SWORIGIN :: nat where "WSI_TOKEN_SWORIGIN \<equiv> 34"
abbreviation (input) WSI_TOKEN_PATCH_URI :: nat where "WSI_TOKEN_PATCH_URI \<equiv> 73"
abbreviation (input) WSI_TOKEN_PUT_URI :: nat where "WSI_TOKEN_PUT_URI \<equiv> 74"
abbreviation (input) WSI_TOKEN_DELETE_URI :: nat where "WSI_TOKEN_DELETE_URI \<equiv> 75"
abbreviation (input) WSI_TOKEN_HTTP_URI_ARGS :: nat where "WSI_TOKEN_HTTP_URI_ARGS \<equiv> 76"
abbreviation (input) WSI_TOKEN_CONNECT :: nat where "WSI_TOKEN_CONNECT \<equiv> 81"
abbreviation (input) WSI_TOKEN_HEAD_URI :: nat where "WSI_TOKEN_HEAD_URI \<equiv> 82"
abbreviation (input) WSI_TOKEN_COUNT :: nat where "WSI_TOKEN_COUNT \<equiv> 95"
abbreviation (input) WSI_TOKEN_NAME_PART :: nat where "WSI_TOKEN_NAME_PART \<equiv> 96"
abbreviation (input) WSI_TOKEN_SKIPPING :: nat where "WSI_TOKEN_SKIPPING \<equiv> 97"
abbreviation (input) WSI_TOKEN_SKIPPING_SAW_CR :: nat where "WSI_TOKEN_SKIPPING_SAW_CR \<equiv> 98"
abbreviation (input) WSI_PARSING_COMPLETE :: nat where "WSI_PARSING_COMPLETE \<equiv> 99"

datatype uri_path_states = URIPS_IDLE | URIPS_SEEN_SLASH | URIPS_SEEN_SLASH_DOT | URIPS_SEEN_SLASH_DOT_DOT

datatype uri_esc_states = URIES_IDLE | URIES_SEEN_PERCENT | URIES_SEEN_PERCENT_H1

record lws_fragments =
  frag_offset :: nat
  frag_len :: nat
  frag_nfrag :: nat
  frag_flags :: nat

record allocated_headers =
  ah_data :: "u8 list"
  ah_frags :: "lws_fragments list"
  ah_frag_index :: "nat list"
  ah_pos :: nat
  ah_http_response :: nat
  ah_current_token_limit :: nat
  ah_hdr_token_idx :: nat
  ah_lextable_pos :: int
  ah_nfrag :: nat
  ah_ups :: uri_path_states
  ah_ues :: uri_esc_states
  ah_esc_stash :: u8
  ah_post_literal_equal :: bool
  ah_parser_state :: nat

text \<open>What the parser uses of the context, the vhost and the role of the connection. \<open>asserts_enabled\<close>
  tells whether \<open>assert\<close> was compiled in.\<close>

record hdr_env =
  max_http_header_data :: nat
  token_limits :: "nat list option"
  role_h1 :: bool
  role_server :: bool
  fallback_to_raw :: bool
  asserts_enabled :: bool

definition inc16 :: "nat \<Rightarrow> nat" where
  "inc16 n = (n + 1) mod 2 ^ 16"

definition dec16 :: "nat \<Rightarrow> nat" where
  "dec16 n = (n + (2 ^ 16 - 1)) mod 2 ^ 16"

definition inc8 :: "nat \<Rightarrow> nat" where
  "inc8 n = (n + 1) mod 2 ^ 8"

definition upd_frag :: "nat \<Rightarrow> (lws_fragments \<Rightarrow> lws_fragments) \<Rightarrow> allocated_headers \<Rightarrow> allocated_headers option" where
  \<comment> \<open>an assignment to members of \<open>ah->frags[i]\<close>\<close>
  "upd_frag i f ah = do {
     fr \<leftarrow> rd (ah_frags ah) i;
     Some (ah\<lparr>ah_frags := (ah_frags ah)[i := f fr]\<rparr>)
   }"

definition put_data :: "u8 \<Rightarrow> allocated_headers \<Rightarrow> allocated_headers option" where
  \<comment> \<open>\<open>ah->data[ah->pos++] = c\<close>\<close>
  "put_data c ah = do {
     d \<leftarrow> wr (ah_data ah) (ah_pos ah) c;
     Some (ah\<lparr>ah_data := d, ah_pos := add32 (ah_pos ah) 1\<rparr>)
   }"


subsection \<open>The operations\<close>

definition frag_zero :: lws_fragments where
  "frag_zero = \<lparr>frag_offset = 0, frag_len = 0, frag_nfrag = 0, frag_flags = 0\<rparr>"

definition lws_header_table_reset_ah :: "allocated_headers \<Rightarrow> allocated_headers" where
  "lws_header_table_reset_ah ah =
     ah\<lparr>ah_frag_index := replicate (length (ah_frag_index ah)) 0,
        ah_frags := replicate (length (ah_frags ah)) frag_zero,
        ah_nfrag := 0, ah_pos := 0, ah_http_response := 0,
        ah_parser_state := WSI_TOKEN_NAME_PART, ah_lextable_pos := 0\<rparr>"

text \<open>\<open>lws_hdr_fragment_length\<close>: the \<open>do ... while (frag_idx-- && n)\<close> loop; \<open>frag_idx\<close> counts down.\<close>

fun hdr_fragment_length_loop :: "lws_fragments list \<Rightarrow> nat \<Rightarrow> nat \<Rightarrow> nat option" where
  "hdr_fragment_length_loop frags 0 n = map_option frag_len (rd frags n)"
| "hdr_fragment_length_loop frags (Suc k) n =
     (case rd frags n of
        None \<Rightarrow> None
      | Some fr \<Rightarrow> if frag_nfrag fr = 0 then Some 0 else hdr_fragment_length_loop frags k (frag_nfrag fr))"

definition lws_hdr_fragment_length :: "allocated_headers option \<Rightarrow> nat \<Rightarrow> nat \<Rightarrow> nat option" where
  "lws_hdr_fragment_length ah h frag_idx =
     (case ah of
        None \<Rightarrow> Some 0
      | Some ah \<Rightarrow> do {
          n \<leftarrow> rd (ah_frag_index ah) h;
          if n = 0 then Some 0 else hdr_fragment_length_loop (ah_frags ah) frag_idx n
        })"

partial_function (option) hdr_total_length_loop :: "lws_fragments list \<Rightarrow> nat \<Rightarrow> nat \<Rightarrow> nat \<Rightarrow> nat option" where
  "hdr_total_length_loop frags h n len = do {
     fr \<leftarrow> rd frags n;
     let len = len + frag_len fr;
         n = frag_nfrag fr in
     if n = 0 then Some len
     else hdr_total_length_loop frags h n (if h \<noteq> WSI_TOKEN_HTTP_COOKIE then len + 1 else len)
   }"

declare hdr_total_length_loop.simps [code]

definition lws_hdr_total_length :: "allocated_headers option \<Rightarrow> nat \<Rightarrow> nat option" where
  "lws_hdr_total_length ah h =
     (case ah of
        None \<Rightarrow> Some 0
      | Some ah \<Rightarrow> do {
          n \<leftarrow> rd (ah_frag_index ah) h;
          if n = 0 then Some 0 else hdr_total_length_loop (ah_frags ah) h n 0
        })"

text \<open>\<open>lws_hdr_copy_fragment\<close>: finding the fragment, then copying it. The result is the return value
  and the destination.\<close>

fun hdr_nth_fragment :: "lws_fragments list \<Rightarrow> nat \<Rightarrow> nat \<Rightarrow> nat option option" where
  "hdr_nth_fragment frags 0 f = Some (Some f)"
| "hdr_nth_fragment frags (Suc k) f =
     (case rd frags f of
        None \<Rightarrow> None
      | Some fr \<Rightarrow> if frag_nfrag fr = 0 then Some None else hdr_nth_fragment frags k (frag_nfrag fr))"

definition lws_hdr_copy_fragment ::
    "allocated_headers option \<Rightarrow> u8 list \<Rightarrow> int \<Rightarrow> nat \<Rightarrow> nat \<Rightarrow> (int \<times> u8 list) option" where
  "lws_hdr_copy_fragment ah dst len h frag_idx =
     (case ah of
        None \<Rightarrow> Some (- 1, dst)
      | Some ah \<Rightarrow> do {
          f \<leftarrow> rd (ah_frag_index ah) h;
          if f = 0 then Some (- 1, dst)
          else do {
            f \<leftarrow> hdr_nth_fragment (ah_frags ah) frag_idx f;
            case f of
              None \<Rightarrow> Some (- 1, dst)
            | Some f \<Rightarrow> do {
                fr \<leftarrow> rd (ah_frags ah) f;
                if int (frag_len fr) \<ge> len then Some (- 1, dst)
                else do {
                  dst \<leftarrow> memcpy_to dst 0 (ah_data ah) (frag_offset fr) (frag_len fr);
                  dst \<leftarrow> wr dst (frag_len fr) 0;
                  Some (int (frag_len fr), dst)
                }
              }
          }
        })"

text \<open>\<open>strncpy(dst + d, src + s, n)\<close>: up to \<open>n\<close> bytes, zero filled after a terminator.\<close>

fun strncpy_to :: "u8 list \<Rightarrow> nat \<Rightarrow> u8 list \<Rightarrow> nat \<Rightarrow> nat \<Rightarrow> u8 list option" where
  "strncpy_to dst d src s 0 = Some dst"
| "strncpy_to dst d src s (Suc n) = do {
     c \<leftarrow> rd src s;
     dst \<leftarrow> wr dst d c;
     if c = 0 then memcpy_to dst (d + 1) (replicate n 0) 0 n
     else strncpy_to dst (d + 1) src (s + 1) n
   }"

partial_function (option) hdr_copy_loop ::
    "allocated_headers \<Rightarrow> nat \<Rightarrow> nat \<Rightarrow> u8 list \<Rightarrow> nat \<Rightarrow> int \<Rightarrow> nat \<Rightarrow> (int \<times> u8 list) option" where
  "hdr_copy_loop ah h n dst d len toklen = do {
     fr \<leftarrow> rd (ah_frags ah) n;
     let comma = (if frag_nfrag fr \<noteq> 0 \<and> h \<noteq> WSI_TOKEN_HTTP_COOKIE then 1 else 0::nat) in
     if int (frag_len fr + comma) \<ge> len then Some (- 1, dst)
     else do {
       dst \<leftarrow> strncpy_to dst d (ah_data ah) (frag_offset fr) (frag_len fr);
       let d = d + frag_len fr;
           len = len - int (frag_len fr);
           n = frag_nfrag fr in
       do {
         dst \<leftarrow> (if comma = 1 then wr dst d (ch CHR '','') else Some dst);
         let d = d + comma in
         if n \<noteq> 0 then hdr_copy_loop ah h n dst d len toklen
         else do { dst \<leftarrow> wr dst d 0; Some (int toklen, dst) }
       }
     }
   }"

declare hdr_copy_loop.simps [code]

definition lws_hdr_copy ::
    "allocated_headers option \<Rightarrow> u8 list \<Rightarrow> int \<Rightarrow> nat \<Rightarrow> (int \<times> u8 list) option" where
  "lws_hdr_copy ah dst len h = do {
     toklen \<leftarrow> lws_hdr_total_length ah h;
     dst \<leftarrow> wr dst 0 0;
     if toklen = 0 then Some (0, dst)
     else if int toklen \<ge> len then Some (- 1, dst)
     else (case ah of
         None \<Rightarrow> Some (- 1, dst)
       | Some ah \<Rightarrow> do {
           n \<leftarrow> rd (ah_frag_index ah) h;
           if n = 0 then Some (0, dst) else hdr_copy_loop ah h n dst 0 len toklen
         })
   }"

definition lws_hdr_simple_ptr :: "allocated_headers option \<Rightarrow> nat \<Rightarrow> nat option option" where
  \<comment> \<open>the offset of the header in \<open>data\<close>, or the inner \<open>None\<close> for \<open>NULL\<close>\<close>
  "lws_hdr_simple_ptr ah h =
     (case ah of
        None \<Rightarrow> Some None
      | Some ah \<Rightarrow> do {
          n \<leftarrow> rd (ah_frag_index ah) h;
          if n = 0 then Some None
          else do { fr \<leftarrow> rd (ah_frags ah) n; Some (Some (frag_offset fr)) }
        })"

definition lws_pos_in_bounds :: "hdr_env \<Rightarrow> allocated_headers option \<Rightarrow> int option" where
  "lws_pos_in_bounds env ah =
     (case ah of
        None \<Rightarrow> Some (- 1)
      | Some ah \<Rightarrow>
          if ah_pos ah < max_http_header_data env then Some 0
          else if int_of32 (ah_pos ah) = int (max_http_header_data env) then Some 1
          else if asserts_enabled env then None
          else Some 1)"

fun hdr_simple_create_loop :: "hdr_env \<Rightarrow> u8 list \<Rightarrow> allocated_headers \<Rightarrow> (int \<times> allocated_headers) option" where
  "hdr_simple_create_loop env [] ah = None" \<comment> \<open>the string has no terminator\<close>
| "hdr_simple_create_loop env (c # s) ah = do {
     b \<leftarrow> lws_pos_in_bounds env (Some ah);
     if b \<noteq> 0 then Some (- 1, ah)
     else do {
       ah \<leftarrow> put_data c ah;
       if c \<noteq> 0 then do {
         ah \<leftarrow> upd_frag (ah_nfrag ah) (\<lambda>fr. fr\<lparr>frag_len := inc16 (frag_len fr)\<rparr>) ah;
         hdr_simple_create_loop env s ah
       }
       else Some (0, ah)
     }
   }"

definition lws_hdr_simple_create :: "hdr_env \<Rightarrow> nat \<Rightarrow> u8 list \<Rightarrow> allocated_headers \<Rightarrow> (int \<times> allocated_headers) option" where
  "lws_hdr_simple_create env h s ah =
     (let ah = ah\<lparr>ah_nfrag := inc8 (ah_nfrag ah)\<rparr> in
      if ah_nfrag ah = length (ah_frags ah) then Some (- 1, ah)
      else do {
        fi \<leftarrow> wr (ah_frag_index ah) h (ah_nfrag ah);
        let ah = ah\<lparr>ah_frag_index := fi\<rparr> in
        do {
          ah \<leftarrow> upd_frag (ah_nfrag ah) (\<lambda>fr. fr\<lparr>frag_offset := ah_pos ah, frag_len := 0, frag_nfrag := 0\<rparr>) ah;
          hdr_simple_create_loop env s ah
        }
      })"

definition issue_char :: "hdr_env \<Rightarrow> u8 \<Rightarrow> allocated_headers \<Rightarrow> (int \<times> allocated_headers) option" where
  "issue_char env c ah = do {
     b \<leftarrow> lws_pos_in_bounds env (Some ah);
     if b \<noteq> 0 then Some (- 1, ah)
     else do {
       fr \<leftarrow> rd (ah_frags ah) (ah_nfrag ah);
       if ah_current_token_limit ah = 0 \<or> frag_len fr < ah_current_token_limit ah then do {
         ah \<leftarrow> put_data c ah;
         ah \<leftarrow> (if c \<noteq> 0 then upd_frag (ah_nfrag ah) (\<lambda>fr. fr\<lparr>frag_len := inc16 (frag_len fr)\<rparr>) ah else Some ah);
         Some (0, ah)
       }
       else if frag_len fr = ah_current_token_limit ah then do {
         b \<leftarrow> lws_pos_in_bounds env (Some ah);
         if b \<noteq> 0 then Some (- 1, ah)
         else do { ah \<leftarrow> put_data 0 ah; Some (1, ah) }
       }
       else Some (1, ah)
     }
   }"


subsection \<open>Well-formed header tables\<close>

text \<open>The size of the header data fits in 16 bits, which is what \<open>info->max_http_header_data\<close>, an
  \<open>unsigned short\<close>, and the default can set, and there is a limit for every token. A larger size, set with
  \<open>info->max_http_header_data2\<close>, is outside of what is shown: the length of a fragment is a \<open>uint16_t\<close> and
  wraps to zero there (\<open>issue_char_len_wraps\<close> below).\<close>

definition env_ok :: "hdr_env \<Rightarrow> bool" where
  "env_ok env \<longleftrightarrow> max_http_header_data env < 2 ^ 16 \<and>
     (\<forall>limits. token_limits env = Some limits \<longrightarrow> length limits = WSI_TOKEN_COUNT)"

abbreviation cur_frag :: "allocated_headers \<Rightarrow> lws_fragments" where
  "cur_frag ah \<equiv> ah_frags ah ! ah_nfrag ah"

lemma issue_char_len_wraps:
  assumes "ah_pos ah < max_http_header_data env" "ah_pos ah < length (ah_data ah)" "ah_nfrag ah < length (ah_frags ah)"
    and "frag_len (cur_frag ah) = 2 ^ 16 - 1" "ah_current_token_limit ah = 0 \<or> 2 ^ 16 \<le> ah_current_token_limit ah" "c \<noteq> 0"
  shows "\<exists>ah'. issue_char env c ah = Some (0, ah') \<and> frag_len (cur_frag ah') = 0"
  using assms by (auto simp: issue_char_def lws_pos_in_bounds_def rd_Some put_data_def wr_Some upd_frag_def inc16_def)

text \<open>Fragment \<open>i\<close>: its bytes lie inside of the data, in front of those of the current fragment, and its
  chain goes up.\<close>

definition frag_wf :: "hdr_env \<Rightarrow> allocated_headers \<Rightarrow> nat \<Rightarrow> bool" where
  "frag_wf env ah i \<longleftrightarrow>
     (frag_nfrag (ah_frags ah ! i) = 0 \<or> i < frag_nfrag (ah_frags ah ! i) \<and> frag_nfrag (ah_frags ah ! i) \<le> ah_nfrag ah) \<and>
     (frag_len (ah_frags ah ! i) = 0 \<or>
      frag_offset (ah_frags ah ! i) + frag_len (ah_frags ah ! i) \<le> max_http_header_data env) \<and>
     (i < ah_nfrag ah \<longrightarrow> frag_offset (ah_frags ah ! i) + frag_len (ah_frags ah ! i) \<le> frag_offset (cur_frag ah))"

definition ah_wf :: "hdr_env \<Rightarrow> allocated_headers \<Rightarrow> bool" where
  "ah_wf env ah \<longleftrightarrow>
     length (ah_data ah) = max_http_header_data env \<and>
     length (ah_frags ah) = WSI_TOKEN_COUNT \<and> length (ah_frag_index ah) = WSI_TOKEN_COUNT \<and>
     ah_nfrag ah < WSI_TOKEN_COUNT \<and>
     (\<forall>i \<in> set (ah_frag_index ah). i \<le> ah_nfrag ah) \<and>
     (\<forall>i \<le> ah_nfrag ah. frag_wf env ah i) \<and>
     frag_offset (cur_frag ah) + frag_len (cur_frag ah) \<le> ah_pos ah \<and>
     (ah_pos ah \<le> max_http_header_data env \<or>
      ah_pos ah = max_http_header_data env + 1 \<and> frag_len (cur_frag ah) = 0)"

lemma ah_wfD:
  assumes "ah_wf env ah"
  shows "length (ah_data ah) = max_http_header_data env" "length (ah_frags ah) = WSI_TOKEN_COUNT"
    "length (ah_frag_index ah) = WSI_TOKEN_COUNT" "ah_nfrag ah < WSI_TOKEN_COUNT"
    "i \<in> set (ah_frag_index ah) \<Longrightarrow> i \<le> ah_nfrag ah" "i \<le> ah_nfrag ah \<Longrightarrow> frag_wf env ah i"
    "frag_offset (cur_frag ah) + frag_len (cur_frag ah) \<le> ah_pos ah"
    "ah_pos ah \<le> max_http_header_data env + 1"
    "frag_len (cur_frag ah) \<noteq> 0 \<Longrightarrow> ah_pos ah \<le> max_http_header_data env"
  using assms by (auto simp: ah_wf_def)

text \<open>The bytes of fragment \<open>i\<close>.\<close>

definition hdr_bytes :: "allocated_headers \<Rightarrow> nat \<Rightarrow> u8 list" where
  "hdr_bytes ah i = take (frag_len (ah_frags ah ! i)) (drop (frag_offset (ah_frags ah ! i)) (ah_data ah))"

lemma hdr_bytes_cong:
  assumes "ah_frags ah' ! i = ah_frags ah ! i"
    and "take (frag_offset (ah_frags ah ! i) + frag_len (ah_frags ah ! i)) (ah_data ah') =
         take (frag_offset (ah_frags ah ! i) + frag_len (ah_frags ah ! i)) (ah_data ah)"
  shows "hdr_bytes ah' i = hdr_bytes ah i"
  using arg_cong [OF assms(2), of "drop (frag_offset (ah_frags ah ! i))"] assms(1)
  by (simp add: hdr_bytes_def drop_take)


subsection \<open>The elementary updates\<close>

text \<open>Without wrap-around, writing a byte to the current fragment and taking \<open>k\<close> bytes back from it.\<close>

definition ah_push :: "u8 \<Rightarrow> allocated_headers \<Rightarrow> allocated_headers" where
  "ah_push c ah = ah\<lparr>ah_data := (ah_data ah)[ah_pos ah := c], ah_pos := ah_pos ah + 1,
     ah_frags := (ah_frags ah)[ah_nfrag ah :=
       (cur_frag ah)\<lparr>frag_len := frag_len (cur_frag ah) + (if c = 0 then 0 else 1)\<rparr>]\<rparr>"

definition ah_shrink :: "nat \<Rightarrow> allocated_headers \<Rightarrow> allocated_headers" where
  "ah_shrink k ah = ah\<lparr>ah_pos := ah_pos ah - k,
     ah_frags := (ah_frags ah)[ah_nfrag ah := (cur_frag ah)\<lparr>frag_len := frag_len (cur_frag ah) - k\<rparr>]\<rparr>"

lemma ah_push_sel [simp]:
  "ah_frag_index (ah_push c ah) = ah_frag_index ah" "ah_nfrag (ah_push c ah) = ah_nfrag ah"
  "ah_pos (ah_push c ah) = ah_pos ah + 1" "ah_ups (ah_push c ah) = ah_ups ah" "ah_ues (ah_push c ah) = ah_ues ah"
  "ah_parser_state (ah_push c ah) = ah_parser_state ah" "ah_esc_stash (ah_push c ah) = ah_esc_stash ah"
  "ah_lextable_pos (ah_push c ah) = ah_lextable_pos ah" "ah_data (ah_push c ah) = (ah_data ah)[ah_pos ah := c]"
  by (simp_all add: ah_push_def)

lemma ah_shrink_sel [simp]:
  "ah_frag_index (ah_shrink k ah) = ah_frag_index ah" "ah_nfrag (ah_shrink k ah) = ah_nfrag ah"
  "ah_pos (ah_shrink k ah) = ah_pos ah - k" "ah_ups (ah_shrink k ah) = ah_ups ah" "ah_ues (ah_shrink k ah) = ah_ues ah"
  "ah_parser_state (ah_shrink k ah) = ah_parser_state ah" "ah_esc_stash (ah_shrink k ah) = ah_esc_stash ah"
  "ah_lextable_pos (ah_shrink k ah) = ah_lextable_pos ah" "ah_data (ah_shrink k ah) = ah_data ah"
  by (simp_all add: ah_shrink_def)

lemma ah_push_frag:
  "ah_nfrag ah < length (ah_frags ah) \<Longrightarrow> ah_frags (ah_push c ah) ! i =
     (if i = ah_nfrag ah then (cur_frag ah)\<lparr>frag_len := frag_len (cur_frag ah) + (if c = 0 then 0 else 1)\<rparr>
      else ah_frags ah ! i)"
  by (simp add: ah_push_def)

lemma ah_shrink_frag:
  "ah_nfrag ah < length (ah_frags ah) \<Longrightarrow> ah_frags (ah_shrink k ah) ! i =
     (if i = ah_nfrag ah then (cur_frag ah)\<lparr>frag_len := frag_len (cur_frag ah) - k\<rparr> else ah_frags ah ! i)"
  by (simp add: ah_shrink_def)

lemma ah_wf_push:
  assumes "ah_wf env ah" "ah_pos ah < max_http_header_data env"
  shows "ah_wf env (ah_push c ah)"
proof -
  note wf = ah_wfD [OF assms(1)]
  have len: "length (ah_frags (ah_push c ah)) = WSI_TOKEN_COUNT" using wf(2) by (simp add: ah_push_def)
  have "frag_wf env (ah_push c ah) i" if "i \<le> ah_nfrag ah" for i
    using wf(6) [OF that] wf(7) assms(2) wf(2,4) by (auto simp: frag_wf_def ah_push_frag)
  then show ?thesis using wf len assms(2) by (auto simp: ah_wf_def ah_push_frag)
qed

lemma ah_wf_shrink:
  assumes "ah_wf env ah" "k \<le> frag_len (cur_frag ah)"
  shows "ah_wf env (ah_shrink k ah)"
proof -
  note wf = ah_wfD [OF assms(1)]
  have len: "length (ah_frags (ah_shrink k ah)) = WSI_TOKEN_COUNT" using wf(2) by (simp add: ah_shrink_def)
  have "frag_wf env (ah_shrink k ah) i" if "i \<le> ah_nfrag ah" for i
    using wf(6) [OF that] wf(7) assms(2) wf(2,4) by (auto simp: frag_wf_def ah_shrink_frag)
  then show ?thesis using wf len assms(2)
    by (cases "frag_len (cur_frag ah) = 0") (auto simp: ah_wf_def ah_shrink_frag)
qed

text \<open>Well-formedness does not look at the parser's own state.\<close>

lemma ah_wf_upd [simp]:
  "ah_wf env (ah\<lparr>ah_ups := u\<rparr>) = ah_wf env ah" "ah_wf env (ah\<lparr>ah_ues := v\<rparr>) = ah_wf env ah"
  "ah_wf env (ah\<lparr>ah_esc_stash := c\<rparr>) = ah_wf env ah" "ah_wf env (ah\<lparr>ah_post_literal_equal := b\<rparr>) = ah_wf env ah"
  "ah_wf env (ah\<lparr>ah_parser_state := st\<rparr>) = ah_wf env ah" "ah_wf env (ah\<lparr>ah_lextable_pos := l\<rparr>) = ah_wf env ah"
  "ah_wf env (ah\<lparr>ah_current_token_limit := t\<rparr>) = ah_wf env ah" "ah_wf env (ah\<lparr>ah_hdr_token_idx := x\<rparr>) = ah_wf env ah"
  by (simp_all add: ah_wf_def frag_wf_def)

lemma ah_wf_reset:
  assumes "length (ah_data ah) = max_http_header_data env" "length (ah_frags ah) = WSI_TOKEN_COUNT"
    "length (ah_frag_index ah) = WSI_TOKEN_COUNT"
  shows "ah_wf env (lws_header_table_reset_ah ah)"
  using assms by (auto simp: ah_wf_def frag_wf_def lws_header_table_reset_ah_def frag_zero_def)



subsection \<open>Writing characters\<close>

definition hdr_full :: "hdr_env \<Rightarrow> allocated_headers \<Rightarrow> int option" where
  \<comment> \<open>\<open>lws_pos_in_bounds\<close> when there is no room\<close>
  "hdr_full env ah = (if ah_pos ah = max_http_header_data env \<or> \<not> asserts_enabled env then Some 1 else None)"

lemma lws_pos_in_bounds_wf:
  assumes "env_ok env" "ah_pos ah \<le> max_http_header_data env + 1"
  shows "lws_pos_in_bounds env (Some ah) =
     (if ah_pos ah < max_http_header_data env then Some 0 else hdr_full env ah)"
  using assms by (auto simp: lws_pos_in_bounds_def env_ok_def int_of32_small hdr_full_def)

lemma put_data_wf:
  assumes "env_ok env" "ah_wf env ah" "ah_pos ah < max_http_header_data env"
  shows "put_data c ah = Some (ah\<lparr>ah_data := (ah_data ah)[ah_pos ah := c], ah_pos := ah_pos ah + 1\<rparr>)"
  using assms ah_wfD(1) [OF assms(2)] by (simp add: put_data_def wr_Some add32_small env_ok_def)

lemma inc16_small: "n < 2 ^ 16 - 1 \<Longrightarrow> inc16 n = n + 1"
  by (simp add: inc16_def)

lemma dec16_small: "0 < n \<Longrightarrow> n < 2 ^ 16 \<Longrightarrow> dec16 n = n - 1"
proof -
  assume "0 < n" "n < 2 ^ 16"
  then have "n + (2 ^ 16 - 1) = (n - 1) + 2 ^ 16" by simp
  then have "(n + (2 ^ 16 - 1)) mod 2 ^ 16 = (n - 1) mod 2 ^ 16" by (simp only: mod_add_self2)
  with \<open>n < 2 ^ 16\<close> show ?thesis by (simp add: dec16_def)
qed

lemma put_data_push:
  assumes "env_ok env" "ah_wf env ah" "ah_pos ah < max_http_header_data env"
  shows "do { ah \<leftarrow> put_data c ah;
      if c \<noteq> 0 then upd_frag (ah_nfrag ah) (\<lambda>fr. fr\<lparr>frag_len := inc16 (frag_len fr)\<rparr>) ah else Some ah } =
    Some (ah_push c ah)"
proof -
  note wf = ah_wfD [OF assms(2)]
  have "frag_len (cur_frag ah) < 2 ^ 16 - 1" using wf(7) assms(1,3) by (simp add: env_ok_def)
  with wf(2,4) show ?thesis
    by (simp add: put_data_wf [OF assms] upd_frag_def rd_Some inc16_small ah_push_def)
qed

text \<open>All that \<open>issue_char\<close> can do: there is no room, the character is written, or the limit of the token
  is reached.\<close>

definition ah_hit_limit :: "allocated_headers \<Rightarrow> allocated_headers" where
  "ah_hit_limit ah = (if frag_len (cur_frag ah) = ah_current_token_limit ah then ah_push 0 ah else ah)"

lemma issue_char_spec:
  assumes "env_ok env" "ah_wf env ah"
  shows "issue_char env c ah =
     (if ah_pos ah < max_http_header_data env then
        (if ah_current_token_limit ah = 0 \<or> frag_len (cur_frag ah) < ah_current_token_limit ah
         then Some (0, ah_push c ah) else Some (1, ah_hit_limit ah))
      else map_option (\<lambda>_. (- 1, ah)) (hdr_full env ah))"
proof (cases "ah_pos ah < max_http_header_data env")
  case False
  then show ?thesis using ah_wfD(8) [OF assms(2)]
    by (simp add: issue_char_def lws_pos_in_bounds_wf [OF assms(1)] hdr_full_def)
next
  case True
  note wf = ah_wfD [OF assms(2)]
  have b: "lws_pos_in_bounds env (Some ah) = Some 0" using True wf(8) by (simp add: lws_pos_in_bounds_wf [OF assms(1)])
  have "rd (ah_frags ah) (ah_nfrag ah) = Some (cur_frag ah)" using wf(2,4) by (simp add: rd_Some)
  moreover have "do { ah \<leftarrow> put_data c ah;
      ah \<leftarrow> (if c \<noteq> 0 then upd_frag (ah_nfrag ah) (\<lambda>fr. fr\<lparr>frag_len := inc16 (frag_len fr)\<rparr>) ah else Some ah);
      Some (0::int, ah) } = Some (0, ah_push c ah)"
    using put_data_push [OF assms True, of c] by (auto simp: bind_eq_Some)
  moreover have "put_data 0 ah = Some (ah_push 0 ah)" using put_data_push [OF assms True, of 0] by simp
  ultimately show ?thesis using True
    by (simp add: issue_char_def b ah_hit_limit_def not_less le_less)
qed

lemma ah_wf_hit_limit:
  "ah_wf env ah \<Longrightarrow> ah_pos ah < max_http_header_data env \<Longrightarrow> ah_wf env (ah_hit_limit ah)"
  by (simp add: ah_hit_limit_def ah_wf_push)

lemma ah_hit_limit_sel [simp]:
  "ah_frag_index (ah_hit_limit ah) = ah_frag_index ah" "ah_nfrag (ah_hit_limit ah) = ah_nfrag ah"
  "ah_ups (ah_hit_limit ah) = ah_ups ah" "ah_ues (ah_hit_limit ah) = ah_ues ah"
  "ah_parser_state (ah_hit_limit ah) = ah_parser_state ah" "ah_esc_stash (ah_hit_limit ah) = ah_esc_stash ah"
  "ah_lextable_pos (ah_hit_limit ah) = ah_lextable_pos ah"
  by (simp_all add: ah_hit_limit_def)



subsection \<open>Opening and linking fragments\<close>

definition ah_open :: "nat \<Rightarrow> lws_fragments \<Rightarrow> allocated_headers \<Rightarrow> allocated_headers" where
  "ah_open p fr ah = ah\<lparr>ah_nfrag := ah_nfrag ah + 1, ah_pos := p, ah_frags := (ah_frags ah)[ah_nfrag ah + 1 := fr]\<rparr>"

lemma ah_open_sel [simp]:
  "ah_frag_index (ah_open p fr ah) = ah_frag_index ah" "ah_nfrag (ah_open p fr ah) = ah_nfrag ah + 1"
  "ah_pos (ah_open p fr ah) = p" "ah_ups (ah_open p fr ah) = ah_ups ah" "ah_ues (ah_open p fr ah) = ah_ues ah"
  "ah_parser_state (ah_open p fr ah) = ah_parser_state ah" "ah_data (ah_open p fr ah) = ah_data ah"
  "ah_lextable_pos (ah_open p fr ah) = ah_lextable_pos ah" "ah_esc_stash (ah_open p fr ah) = ah_esc_stash ah"
  by (simp_all add: ah_open_def)

lemma ah_open_frag:
  "ah_nfrag ah + 1 < length (ah_frags ah) \<Longrightarrow>
   ah_frags (ah_open p fr ah) ! i = (if i = ah_nfrag ah + 1 then fr else ah_frags ah ! i)"
  by (simp add: ah_open_def)

lemma ah_wf_open:
  assumes "ah_wf env ah" "ah_nfrag ah + 1 < WSI_TOKEN_COUNT" "ah_pos ah \<le> p" "p \<le> max_http_header_data env + 1"
    and "frag_offset fr = p" "frag_len fr = 0" "frag_nfrag fr = 0"
  shows "ah_wf env (ah_open p fr ah)"
proof -
  note wf = ah_wfD [OF assms(1)]
  have n: "ah_nfrag ah + 1 < length (ah_frags ah)" using assms(2) wf(2) by simp
  have "frag_wf env (ah_open p fr ah) i" if "i \<le> ah_nfrag ah + 1" for i
  proof (cases "i = ah_nfrag ah + 1")
    case True
    then show ?thesis using assms(6,7) by (simp add: frag_wf_def ah_open_frag [OF n])
  next
    case False
    then have i: "i \<le> ah_nfrag ah" using that by simp
    have "frag_offset (ah_frags ah ! i) + frag_len (ah_frags ah ! i) \<le> ah_pos ah"
      using wf(6) [OF i] wf(7) i by (cases "i = ah_nfrag ah") (auto simp: frag_wf_def)
    then show ?thesis using wf(6) [OF i] False i assms(3,5) by (auto simp: frag_wf_def ah_open_frag [OF n])
  qed
  moreover have "length (ah_frags (ah_open p fr ah)) = WSI_TOKEN_COUNT" using wf(2) by (simp add: ah_open_def)
  moreover have "\<forall>i \<in> set (ah_frag_index ah). i \<le> ah_nfrag ah + 1" using wf(5) by fastforce
  ultimately show ?thesis using wf(1,3) assms(2,4-7) by (auto simp: ah_wf_def ah_open_frag [OF n])
qed

lemma ah_wf_link:
  assumes "ah_wf env ah" "n < m" "m \<le> ah_nfrag ah"
  shows "ah_wf env (ah\<lparr>ah_frags := (ah_frags ah)[n := (ah_frags ah ! n)\<lparr>frag_nfrag := m\<rparr>]\<rparr>)" (is "ah_wf env ?ah")
proof -
  note wf = ah_wfD [OF assms(1)]
  have n: "n < length (ah_frags ah)" using assms(2,3) wf(2,4) by simp
  have "frag_wf env ?ah i" if "i \<le> ah_nfrag ah" for i
    using wf(6) [OF that] assms(2,3) n by (cases "i = n") (auto simp: frag_wf_def)
  then show ?thesis using wf assms(2,3) n by (auto simp: ah_wf_def)
qed

lemma ah_wf_index:
  assumes "ah_wf env ah"
  shows "ah_wf env (ah\<lparr>ah_frag_index := (ah_frag_index ah)[h := ah_nfrag ah]\<rparr>)" (is "ah_wf env ?ah")
proof -
  note wf = ah_wfD [OF assms]
  have "\<forall>i \<in> set ((ah_frag_index ah)[h := ah_nfrag ah]). i \<le> ah_nfrag ah"
    using wf(5) by (auto dest!: set_update_subset_insert [THEN subsetD])
  moreover have "frag_wf env ?ah i = frag_wf env ah i" for i by (simp add: frag_wf_def)
  ultimately show ?thesis using assms by (simp add: ah_wf_def)
qed

lemma inc8_small: "n < 255 \<Longrightarrow> inc8 n = n + 1"
  by (simp add: inc8_def)


subsection \<open>The value of a header\<close>

text \<open>The chain of fragments that starts with fragment \<open>n\<close>.\<close>

inductive hdr_chain :: "lws_fragments list \<Rightarrow> nat \<Rightarrow> nat list \<Rightarrow> bool" for frags where
  last: "n < length frags \<Longrightarrow> frag_nfrag (frags ! n) = 0 \<Longrightarrow> hdr_chain frags n [n]"
| link: "n < length frags \<Longrightarrow> frag_nfrag (frags ! n) = m \<Longrightarrow> m \<noteq> 0 \<Longrightarrow> hdr_chain frags m is \<Longrightarrow> hdr_chain frags n (n # is)"

lemma hdr_chain_exists:
  assumes "ah_wf env ah" "n \<le> ah_nfrag ah"
  shows "\<exists>is. hdr_chain (ah_frags ah) n is \<and> (\<forall>i \<in> set is. i \<le> ah_nfrag ah)"
  using assms(2)
proof (induction "ah_nfrag ah - n" arbitrary: n rule: less_induct)
  case less
  note wf = ah_wfD [OF assms(1)]
  let ?m = "frag_nfrag (ah_frags ah ! n)"
  have m: "?m = 0 \<or> n < ?m \<and> ?m \<le> ah_nfrag ah" using wf(6) [OF less.prems] by (auto simp: frag_wf_def)
  show ?case
  proof (cases "?m = 0")
    case True
    then show ?thesis using less.prems wf(2,4) by (intro exI [of _ "[n]"]) (auto intro: hdr_chain.last)
  next
    case False
    with m have "ah_nfrag ah - ?m < ah_nfrag ah - n" "?m \<le> ah_nfrag ah" by auto
    from less.hyps [OF this] obtain js where
      js: "hdr_chain (ah_frags ah) ?m js" "\<forall>i \<in> set js. i \<le> ah_nfrag ah" by blast
    then show ?thesis using False less.prems wf(2,4)
      by (intro exI [of _ "n # js"]) (auto intro: hdr_chain.link)
  qed
qed

fun hdr_join :: "bool \<Rightarrow> u8 list list \<Rightarrow> u8 list" where
  "hdr_join comma [] = []"
| "hdr_join comma [v] = v"
| "hdr_join comma (v # vs) = v @ (if comma then [ch CHR '','']  else []) @ hdr_join comma vs"

abbreviation hdr_value :: "allocated_headers \<Rightarrow> nat \<Rightarrow> nat list \<Rightarrow> u8 list" where
  "hdr_value ah h is \<equiv> hdr_join (h \<noteq> WSI_TOKEN_HTTP_COOKIE) (map (hdr_bytes ah) is)"

lemma hdr_chain_Cons: "hdr_chain frags n is \<Longrightarrow> \<exists>js. is = n # js"
  by (erule hdr_chain.cases) auto

lemma hdr_value_link:
  "hdr_chain frags m js \<Longrightarrow> hdr_value ah h (n # js) =
     hdr_bytes ah n @ (if h \<noteq> WSI_TOKEN_HTTP_COOKIE then [ch CHR '','']  else []) @ hdr_value ah h js"
  by (drule hdr_chain_Cons) auto

lemma length_hdr_bytes:
  assumes "ah_wf env ah" "i \<le> ah_nfrag ah"
  shows "length (hdr_bytes ah i) = frag_len (ah_frags ah ! i)"
proof -
  have "frag_len (ah_frags ah ! i) = 0 \<or> frag_offset (ah_frags ah ! i) + frag_len (ah_frags ah ! i) \<le> length (ah_data ah)"
    using ah_wfD(6) [OF assms] ah_wfD(1) [OF assms(1)] by (auto simp: frag_wf_def)
  then show ?thesis by (auto simp: hdr_bytes_def)
qed

lemma hdr_total_length_loop_chain:
  assumes "ah_wf env ah"
  shows "hdr_chain (ah_frags ah) n is \<Longrightarrow> \<forall>i \<in> set is. i \<le> ah_nfrag ah \<Longrightarrow>
    hdr_total_length_loop (ah_frags ah) h n len = Some (len + length (hdr_value ah h is))"
proof (induction arbitrary: len rule: hdr_chain.induct)
  case (last n)
  then show ?case by (subst hdr_total_length_loop.simps) (simp add: rd_Some length_hdr_bytes [OF assms] Let_def)
next
  case (link n m js)
  then obtain ks where "js = m # ks" using hdr_chain_Cons by blast
  with link show ?case
    by (subst hdr_total_length_loop.simps)
       (simp add: rd_Some length_hdr_bytes [OF assms] Let_def)
qed

lemma lws_hdr_total_length_wf:
  assumes "ah_wf env ah" "h < WSI_TOKEN_COUNT"
  shows "\<exists>n. lws_hdr_total_length (Some ah) h = Some n"
proof -
  note wf = ah_wfD [OF assms(1)]
  have n: "ah_frag_index ah ! h \<le> ah_nfrag ah" using wf(3) wf(5) assms(2) by simp
  from hdr_chain_exists [OF assms(1) n] obtain js where
    "hdr_chain (ah_frags ah) (ah_frag_index ah ! h) js" "\<forall>i \<in> set js. i \<le> ah_nfrag ah" by blast
  from hdr_total_length_loop_chain [OF assms(1) this] show ?thesis
    using wf(3) assms(2) by (simp add: lws_hdr_total_length_def rd_Some)
qed

text \<open>Writing a list of bytes over a part of an array.\<close>

definition patch :: "nat \<Rightarrow> u8 list \<Rightarrow> u8 list \<Rightarrow> u8 list" where
  "patch d xs dst = take d dst @ xs @ drop (d + length xs) dst"

lemma length_patch: "d + length xs \<le> length dst \<Longrightarrow> length (patch d xs dst) = length dst"
  by (simp add: patch_def)

lemma patch_patch:
  "d + length xs + length ys \<le> length dst \<Longrightarrow> patch (d + length xs) ys (patch d xs dst) = patch d (xs @ ys) dst"
  by (simp add: patch_def ac_simps)

lemma patch_Nil [simp]: "patch d [] dst = dst"
  by (simp add: patch_def)

lemma wr_patch: "d < length dst \<Longrightarrow> wr dst d c = Some (patch d [c] dst)"
  by (simp add: wr_Some patch_def upd_conv_take_nth_drop)

lemma strncpy_to_patch:
  "0 \<notin> set xs \<Longrightarrow> xs = take n (drop s src) \<Longrightarrow> length xs = n \<Longrightarrow> d + n \<le> length dst \<Longrightarrow>
   strncpy_to dst d src s n = Some (patch d xs dst)"
proof (induction n arbitrary: dst d s xs)
  case (Suc n)
  then have s: "s < length src" by (cases "s < length src") auto
  then have xs: "xs = src ! s # take n (drop (Suc s) src)" using Suc.prems by (simp add: Cons_nth_drop_Suc [symmetric])
  let ?ys = "take n (drop (Suc s) src)"
  have ys: "length ?ys = n" "0 \<notin> set ?ys" "src ! s \<noteq> 0" using Suc.prems(1,3) xs by simp_all
  have "strncpy_to (patch d [src ! s] dst) (d + 1) src (s + 1) n = Some (patch (d + 1) ?ys (patch d [src ! s] dst))"
    by (rule Suc.IH) (use ys Suc.prems(4) in \<open>simp_all add: length_patch\<close>)
  also have "patch (d + 1) ?ys (patch d [src ! s] dst) = patch d xs dst"
    using patch_patch [of d "[src ! s]" ?ys dst] Suc.prems(4) ys(1) xs by simp
  finally show ?case using s ys(3) Suc.prems(4) by (simp add: rd_Some wr_patch)
qed simp


lemma hdr_copy_loop_chain:
  assumes "ah_wf env ah"
  shows "hdr_chain (ah_frags ah) n is \<Longrightarrow> \<forall>i \<in> set is. i \<le> ah_nfrag ah \<and> 0 \<notin> set (hdr_bytes ah i) \<Longrightarrow>
    int (length (hdr_value ah h is)) < len \<Longrightarrow> d + length (hdr_value ah h is) < length dst \<Longrightarrow>
    hdr_copy_loop ah h n dst d len toklen = Some (int toklen, patch d (hdr_value ah h is @ [0]) dst)"
proof (induction arbitrary: dst d len rule: hdr_chain.induct)
  case (last n)
  then have l: "length (hdr_bytes ah n) = frag_len (ah_frags ah ! n)" by (simp add: length_hdr_bytes [OF assms])
  have "strncpy_to dst d (ah_data ah) (frag_offset (ah_frags ah ! n)) (frag_len (ah_frags ah ! n)) =
      Some (patch d (hdr_bytes ah n) dst)"
    by (rule strncpy_to_patch) (use last l in \<open>simp_all add: hdr_bytes_def\<close>)
  moreover have "wr (patch d (hdr_bytes ah n) dst) (d + frag_len (ah_frags ah ! n)) 0 =
      Some (patch d (hdr_bytes ah n @ [0]) dst)"
    using last l patch_patch [of d "hdr_bytes ah n" "[0]" dst] by (simp add: wr_patch length_patch)
  ultimately show ?case using last l
    by (subst hdr_copy_loop.simps) (simp add: rd_Some Let_def)
next
  case (link n m js)
  let ?c = "if h \<noteq> WSI_TOKEN_HTTP_COOKIE then [ch CHR '','']  else []"
  let ?b = "hdr_bytes ah n" and ?v = "hdr_value ah h js"
  from link have l: "length ?b = frag_len (ah_frags ah ! n)" by (simp add: length_hdr_bytes [OF assms])
  have v: "hdr_value ah h (n # js) = ?b @ ?c @ ?v" by (rule hdr_value_link [OF link(4)])
  note len = link.prems(2,3) [unfolded v]
  have b: "strncpy_to dst d (ah_data ah) (frag_offset (ah_frags ah ! n)) (frag_len (ah_frags ah ! n)) = Some (patch d ?b dst)"
    by (rule strncpy_to_patch) (use link.prems len l in \<open>simp_all add: hdr_bytes_def\<close>)
  have c: "(if ?c \<noteq> [] then wr (patch d ?b dst) (d + length ?b) (ch CHR '','') else Some (patch d ?b dst)) = Some (patch d (?b @ ?c) dst)"
    using len l patch_patch [of d ?b ?c dst]
    by (cases "h = WSI_TOKEN_HTTP_COOKIE") (simp_all add: wr_patch length_patch)
  have "hdr_copy_loop ah h m (patch d (?b @ ?c) dst) (d + length (?b @ ?c)) (len - int (length ?b)) toklen =
      Some (int toklen, patch (d + length (?b @ ?c)) (?v @ [0]) (patch d (?b @ ?c) dst))"
    by (rule link.IH) (use link.prems len in \<open>auto simp: length_patch\<close>)
  also have "patch (d + length (?b @ ?c)) (?v @ [0]) (patch d (?b @ ?c) dst) = patch d (hdr_value ah h (n # js) @ [0]) dst"
    unfolding v by (subst patch_patch) (use len in auto)
  finally show ?case using link(1,2,3) len b c l
    by (subst hdr_copy_loop.simps) (auto simp: rd_Some Let_def split: if_splits)
qed


subsection \<open>Correctness of the accessors\<close>

lemma lws_hdr_copy_spec:
  assumes "ah_wf env ah" "h < WSI_TOKEN_COUNT" "ah_frag_index ah ! h \<noteq> 0"
    and "hdr_chain (ah_frags ah) (ah_frag_index ah ! h) is"
    and "\<forall>i \<in> set is. i \<le> ah_nfrag ah \<and> 0 \<notin> set (hdr_bytes ah i)"
    and "0 < len" "len \<le> int (length dst)"
  shows "lws_hdr_copy (Some ah) dst len h =
     (if int (length (hdr_value ah h is)) < len
      then Some (int (length (hdr_value ah h is)), patch 0 (hdr_value ah h is @ [0]) dst)
      else Some (- 1, patch 0 [0] dst))"
proof -
  have n: "rd (ah_frag_index ah) h = Some (ah_frag_index ah ! h)" using ah_wfD(3) [OF assms(1)] assms(2) by (simp add: rd_Some)
  have t: "lws_hdr_total_length (Some ah) h = Some (length (hdr_value ah h is))"
    using n assms(3) hdr_total_length_loop_chain [OF assms(1,4)] assms(5) by (simp add: lws_hdr_total_length_def)
  have w: "wr dst 0 0 = Some (patch 0 [0] dst)" using assms(6,7) by (intro wr_patch) linarith
  show ?thesis
  proof (cases "int (length (hdr_value ah h is)) < len \<and> hdr_value ah h is \<noteq> []")
    case True
    then have "hdr_copy_loop ah h (ah_frag_index ah ! h) (patch 0 [0] dst) 0 len (length (hdr_value ah h is)) =
        Some (int (length (hdr_value ah h is)), patch 0 (hdr_value ah h is @ [0]) (patch 0 [0] dst))"
      using assms(7) by (intro hdr_copy_loop_chain [OF assms(1,4,5)]) (auto simp: length_patch)
    moreover have "patch 0 (hdr_value ah h is @ [0]) (patch 0 [0] dst) = patch 0 (hdr_value ah h is @ [0]) dst"
      by (simp add: patch_def)
    ultimately show ?thesis using True n t w assms(3) by (simp add: lws_hdr_copy_def)
  qed (use t w assms(6) in \<open>auto simp: lws_hdr_copy_def\<close>)
qed


text \<open>The loop of \<open>lws_hdr_simple_create\<close> on a terminated string that fits.\<close>

fun ah_pushes :: "u8 list \<Rightarrow> allocated_headers \<Rightarrow> allocated_headers" where
  "ah_pushes [] ah = ah"
| "ah_pushes (c # cs) ah = ah_pushes cs (ah_push c ah)"

lemma ah_wf_pushes:
  "ah_wf env ah \<Longrightarrow> ah_pos ah + length xs \<le> max_http_header_data env \<Longrightarrow> ah_wf env (ah_pushes xs ah)"
  by (induction xs arbitrary: ah) (auto simp: ah_wf_push)

lemma ah_pushes_sel [simp]:
  "ah_frag_index (ah_pushes xs ah) = ah_frag_index ah" "ah_nfrag (ah_pushes xs ah) = ah_nfrag ah"
  "ah_pos (ah_pushes xs ah) = ah_pos ah + length xs" "ah_ups (ah_pushes xs ah) = ah_ups ah"
  "ah_ues (ah_pushes xs ah) = ah_ues ah" "ah_parser_state (ah_pushes xs ah) = ah_parser_state ah"
  by (induction xs arbitrary: ah) simp_all

lemma ah_pushes_frag:
  "ah_nfrag ah < length (ah_frags ah) \<Longrightarrow> 0 \<notin> set xs \<Longrightarrow> ah_frags (ah_pushes xs ah) ! i =
     (if i = ah_nfrag ah then (cur_frag ah)\<lparr>frag_len := frag_len (cur_frag ah) + length xs\<rparr> else ah_frags ah ! i)"
proof (induction xs arbitrary: ah)
  case (Cons c xs)
  have "ah_nfrag (ah_push c ah) < length (ah_frags (ah_push c ah))" using Cons.prems by (simp add: ah_push_def)
  from Cons.IH [OF this] Cons.prems show ?case by (auto simp: ah_push_frag)
qed simp

lemma ah_pushes_data:
  "ah_pos ah + length xs \<le> length (ah_data ah) \<Longrightarrow> ah_data (ah_pushes xs ah) = patch (ah_pos ah) xs (ah_data ah)"
proof (induction xs arbitrary: ah)
  case (Cons c xs)
  have "(ah_data ah)[ah_pos ah := c] = patch (ah_pos ah) [c] (ah_data ah)"
    using Cons.prems by (simp add: patch_def upd_conv_take_nth_drop)
  moreover have "ah_data (ah_pushes xs (ah_push c ah)) = patch (ah_pos ah + 1) xs ((ah_data ah)[ah_pos ah := c])"
    using Cons.IH [of "ah_push c ah"] Cons.prems by simp
  ultimately show ?case using patch_patch [of "ah_pos ah" "[c]" xs "ah_data ah"] Cons.prems by simp
qed simp

lemma hdr_simple_create_loop_wf:
  "env_ok env \<Longrightarrow> ah_wf env ah \<Longrightarrow> 0 \<notin> set xs \<Longrightarrow> ah_pos ah + length xs < max_http_header_data env \<Longrightarrow>
   hdr_simple_create_loop env (xs @ [0]) ah = Some (0, ah_pushes (xs @ [0]) ah)"
proof (induction xs arbitrary: ah)
  case Nil
  then show ?case using put_data_push [of env ah 0] by (simp add: lws_pos_in_bounds_wf)
next
  case (Cons c xs)
  from Cons.prems have r: "ah_pos ah < max_http_header_data env" by simp
  have push: "put_data c ah \<bind> (\<lambda>ah. upd_frag (ah_nfrag ah) (\<lambda>fr. fr\<lparr>frag_len := inc16 (frag_len fr)\<rparr>) ah) = Some (ah_push c ah)"
    using put_data_push [OF Cons.prems(1,2) r, of c] Cons.prems(3) by simp
  have "hdr_simple_create_loop env (xs @ [0]) (ah_push c ah) = Some (0, ah_pushes (xs @ [0]) (ah_push c ah))"
    by (rule Cons.IH) (use Cons.prems ah_wf_push [OF _ r] in auto)
  then show ?case using Cons.prems r push
    by (auto simp: lws_pos_in_bounds_wf bind_eq_Some)
qed

text \<open>C22: storing a string as a header and reading it back: if there is a free fragment and room for the
  string with its terminator, \<open>lws_hdr_simple_create\<close> succeeds, keeps the table well-formed, the bytes
  stored for the token are the string, and \<open>lws_hdr_copy\<close> returns it.\<close>

theorem lws_hdr_simple_create_copy:
  assumes "env_ok env" "ah_wf env ah" "h < WSI_TOKEN_COUNT" "ah_nfrag ah + 1 < WSI_TOKEN_COUNT"
    and "0 \<notin> set s" "ah_pos ah + length s < max_http_header_data env" "length s < length dst"
  shows "\<exists>ah'. lws_hdr_simple_create env h (s @ [0]) ah = Some (0, ah') \<and> ah_wf env ah' \<and>
     lws_hdr_copy (Some ah') dst (int (length dst)) h = Some (int (length s), patch 0 (s @ [0]) dst)"
proof -
  note wf = ah_wfD [OF assms(2)]
  define fr where "fr = (ah_frags ah ! (ah_nfrag ah + 1))\<lparr>frag_offset := ah_pos ah, frag_len := 0, frag_nfrag := 0\<rparr>"
  define ah1 where "ah1 = ah_open (ah_pos ah) fr (ah\<lparr>ah_frag_index := (ah_frag_index ah)[h := ah_nfrag ah + 1]\<rparr>)"
  define ah2 where "ah2 = ah_pushes (s @ [0]) ah1"
  have o: "ah_wf env (ah_open (ah_pos ah) fr ah)"
    by (rule ah_wf_open [OF assms(2)]) (use assms(4) wf(8) in \<open>simp_all add: fr_def\<close>)
  have wf1: "ah_wf env ah1" using ah_wf_index [OF o, of h] by (cases ah) (simp add: ah1_def ah_open_def)
  have len: "ah_nfrag ah1 < length (ah_frags ah1)" using wf(2) assms(4) by (simp add: ah1_def ah_open_def)
  have wf2: "ah_wf env ah2" unfolding ah2_def
    by (rule ah_wf_pushes [OF wf1]) (use assms(6) in \<open>simp add: ah1_def\<close>)
  have "hdr_simple_create_loop env (s @ [0]) ah1 = Some (0, ah2)" unfolding ah2_def
    by (rule hdr_simple_create_loop_wf [OF assms(1) wf1 assms(5)]) (use assms(6) in \<open>simp add: ah1_def\<close>)
  then have create: "lws_hdr_simple_create env h (s @ [0]) ah = Some (0, ah2)"
    using assms(3,4) wf(2-4)
    by (cases ah) (simp add: lws_hdr_simple_create_def inc8_small Let_def wr_Some upd_frag_def rd_Some ah1_def ah_open_def fr_def)
  have f2: "ah_frags ah2 ! ah_nfrag ah1 = fr\<lparr>frag_len := length s\<rparr>"
  proof -
    have "ah_frags (ah_pushes [0] (ah_pushes s ah1)) ! ah_nfrag ah1 = ah_frags (ah_pushes s ah1) ! ah_nfrag ah1"
      by (simp add: ah_push_def)
    moreover have "ah2 = ah_pushes [0] (ah_pushes s ah1)" unfolding ah2_def by (induction s arbitrary: ah1) simp_all
    moreover have "ah_frags ah1 ! ah_nfrag ah1 = fr" using wf(2) assms(4) by (simp add: ah1_def ah_open_def)
    ultimately show ?thesis using ah_pushes_frag [OF len assms(5)] by (simp add: fr_def)
  qed
  have d2: "ah_data ah2 = patch (ah_pos ah) (s @ [0]) (ah_data ah)"
    using ah_pushes_data [of ah1 "s @ [0]"] assms(6) wf(1) by (simp add: ah2_def ah1_def)
  have b2: "hdr_bytes ah2 (ah_nfrag ah1) = s"
    using assms(6) wf(1) by (simp add: hdr_bytes_def f2 d2 patch_def fr_def)
  have i2: "ah_frag_index ah2 ! h = ah_nfrag ah1" using assms(3) wf(3) by (simp add: ah2_def ah1_def)
  have c2: "hdr_chain (ah_frags ah2) (ah_frag_index ah2 ! h) [ah_nfrag ah1]"
    unfolding i2 using ah_wfD(2,4) [OF wf2] f2 by (intro hdr_chain.last) (simp_all add: ah2_def fr_def)
  have "lws_hdr_copy (Some ah2) dst (int (length dst)) h = Some (int (length s), patch 0 (s @ [0]) dst)"
    using lws_hdr_copy_spec [OF wf2 assms(3) _ c2, of "int (length dst)" dst] assms(5,7) i2 b2
    by (cases dst) (simp_all add: ah2_def ah1_def)
  with create wf2 show ?thesis by blast
qed

text \<open>C21: \<open>lws_hdr_copy\<close> copies the value of a header, its fragments joined by commas (by nothing for
  cookies), with a terminator into the destination; it never writes past the \<open>len\<close> bytes it is given,
  leaves the rest of the destination alone, and refuses a value that does not fit. The fragments contain
  no NUL.\<close>

theorem lws_hdr_copy_correct:
  assumes "ah_wf env ah" "h < WSI_TOKEN_COUNT" "ah_frag_index ah ! h \<noteq> 0"
    and "hdr_chain (ah_frags ah) (ah_frag_index ah ! h) is"
    and "\<forall>i \<in> set is. i \<le> ah_nfrag ah \<and> 0 \<notin> set (hdr_bytes ah i)"
    and "0 < len" "len \<le> int (length dst)"
  shows "lws_hdr_copy (Some ah) dst len h =
     (if int (length (hdr_value ah h is)) < len
      then Some (int (length (hdr_value ah h is)), patch 0 (hdr_value ah h is @ [0]) dst)
      else Some (- 1, patch 0 [0] dst))"
  by (rule lws_hdr_copy_spec [OF assms])


definition demo_env :: hdr_env where
  "demo_env = \<lparr>max_http_header_data = 16, token_limits = None, role_h1 = True, role_server = True,
     fallback_to_raw = False, asserts_enabled = False\<rparr>"

definition demo_ah :: allocated_headers where
  \<comment> \<open>a range header in two fragments\<close>
  "demo_ah = \<lparr>ah_data = bytes_of ''ab'' @ [0] @ bytes_of ''c'' @ replicate 12 0,
     ah_frags = [frag_zero, frag_zero\<lparr>frag_len := 2, frag_nfrag := 2\<rparr>, frag_zero\<lparr>frag_offset := 3, frag_len := 1\<rparr>] @
       replicate 92 frag_zero,
     ah_frag_index = replicate 30 0 @ [1] @ replicate 64 0, ah_pos = 5, ah_http_response = 0,
     ah_current_token_limit = 16, ah_hdr_token_idx = 30, ah_lextable_pos = 0, ah_nfrag = 2, ah_ups = URIPS_IDLE,
     ah_ues = URIES_IDLE, ah_esc_stash = 0, ah_post_literal_equal = False, ah_parser_state = WSI_TOKEN_NAME_PART\<rparr>"

lemma demo_env_ok: "env_ok demo_env"
  by (simp add: env_ok_def demo_env_def)

lemma demo_ah_wf: "ah_wf demo_env demo_ah"
proof -
  have "frag_wf demo_env demo_ah i" if "i \<le> 2" for i
  proof -
    from that have "i = 0 \<or> i = 1 \<or> i = 2" by auto
    then show ?thesis by (auto simp: frag_wf_def demo_ah_def demo_env_def frag_zero_def)
  qed
  then show ?thesis by (auto simp: ah_wf_def demo_ah_def demo_env_def frag_zero_def)
qed

lemma demo_chain: "hdr_chain (ah_frags demo_ah) 1 [1, 2]"
  by (rule hdr_chain.link [where m = 2]) (auto simp: demo_ah_def frag_zero_def intro: hdr_chain.last)

theorem lws_hdr_copy_correct_witness:
  "lws_hdr_copy (Some demo_ah) (replicate 6 7) 6 30 = Some (4, bytes_of ''ab,c'' @ [0, 7])"
proof -
  have i: "ah_frag_index demo_ah ! 30 = 1" by (simp add: demo_ah_def nth_append)
  have v: "hdr_value demo_ah 30 [1, 2] = bytes_of ''ab,c''"
    by (simp add: hdr_bytes_def demo_ah_def frag_zero_def)
  have n: "\<forall>i \<in> set [1, 2]. i \<le> ah_nfrag demo_ah \<and> 0 \<notin> set (hdr_bytes demo_ah i)"
    by (simp add: hdr_bytes_def demo_ah_def frag_zero_def)
  show ?thesis
    using lws_hdr_copy_correct [OF demo_ah_wf _ _ _ n, of 30 6 "replicate 6 7"] demo_chain
    by (simp only: i v) (simp add: patch_def numeral_eq_Suc)
qed

theorem lws_hdr_simple_create_copy_witness:
  "\<exists>ah'. lws_hdr_simple_create demo_env 7 (bytes_of ''x'' @ [0]) demo_ah = Some (0, ah') \<and> ah_wf demo_env ah' \<and>
     lws_hdr_copy (Some ah') [9, 9, 9] (int (length [9::u8, 9, 9])) 7 =
       Some (int (length (bytes_of ''x'')), patch 0 (bytes_of ''x'' @ [0]) [9, 9, 9])"
  by (rule lws_hdr_simple_create_copy [OF demo_env_ok demo_ah_wf])
     (simp_all add: demo_ah_def demo_env_def)

end
