(* ===== verification/Http_Uri.thy ===== *)
theory Http_Uri
  imports Http_Headers
begin

text \<open>
  The URI decoder \<open>lws_parse_urldecode\<close> of \<open>lib/roles/http/server/parsers.c\<close>: one character of a request
  URI at a time it resolves the \<open>%xx\<close> escapes, collapses repeated slashes and the path segments \<open>.\<close> and
  \<open>..\<close>, and splits off the arguments after \<open>?\<close>. The C function is cut at its two \<open>switch\<close> statements.

  The main result is the safety of this filter: what it lets through as the path of an absolute URI has
  no \<open>..\<close> segment.
\<close>

datatype lpur = LPUR_CONTINUE | LPUR_SWALLOW | LPUR_FORBID | LPUR_EXCESSIVE | LPUR_FAIL
  \<comment> \<open>\<open>LPUR_FAIL\<close> is the return value \<open>-1\<close>\<close>

definition char_to_hex :: "u8 \<Rightarrow> int" where
  "char_to_hex c =
     (if ch CHR ''0'' \<le> c \<and> c \<le> ch CHR ''9'' then uint c - uint (ch CHR ''0'')
      else if ch CHR ''a'' \<le> c \<and> c \<le> ch CHR ''f'' then uint c - uint (ch CHR ''a'') + 10
      else if ch CHR ''A'' \<le> c \<and> c \<le> ch CHR ''F'' then uint c - uint (ch CHR ''A'') + 10
      else - 1)"

definition uri_unhex :: "u8 \<Rightarrow> u8 \<Rightarrow> u8" where
  "uri_unhex a b = push_bit 4 (word_of_int (char_to_hex a)) OR word_of_int (char_to_hex b)"

text \<open>Priority 1, the escapes: \<open>Inl\<close> when the function returns, else whether the character was escaped,
  and the character.\<close>

definition uri_unescape :: "u8 \<Rightarrow> allocated_headers \<Rightarrow> (lpur + bool \<times> u8) \<times> allocated_headers" where
  "uri_unescape c ah =
     (case ah_ues ah of
        URIES_IDLE \<Rightarrow>
          if c = ch CHR ''%'' then (Inl LPUR_SWALLOW, ah\<lparr>ah_ues := URIES_SEEN_PERCENT\<rparr>)
          else (Inr (False, c), ah)
      | URIES_SEEN_PERCENT \<Rightarrow>
          if char_to_hex c < 0 then (Inl LPUR_FORBID, ah)
          else (Inl LPUR_SWALLOW, ah\<lparr>ah_esc_stash := c, ah_ues := URIES_SEEN_PERCENT_H1\<rparr>)
      | URIES_SEEN_PERCENT_H1 \<Rightarrow>
          if char_to_hex c < 0 then (Inl LPUR_FORBID, ah)
          else (Inr (True, uri_unhex (ah_esc_stash ah) c), ah\<lparr>ah_ues := URIES_IDLE\<rparr>))"

text \<open>Backing up to the slash before the last path segment; also used at the end of the URI.\<close>

partial_function (option) uri_backup_loop :: "allocated_headers \<Rightarrow> allocated_headers option" where
  "uri_backup_loop ah = do {
     ah \<leftarrow> upd_frag (ah_nfrag ah) (\<lambda>fr. fr\<lparr>frag_len := dec16 (frag_len fr)\<rparr>) (ah\<lparr>ah_pos := sub32 (ah_pos ah) 1\<rparr>);
     fr \<leftarrow> rd (ah_frags ah) (ah_nfrag ah);
     if frag_len fr > 1 then do {
       c \<leftarrow> rd (ah_data ah) (ah_pos ah);
       if c \<noteq> ch CHR ''/'' then uri_backup_loop ah else Some ah
     }
     else Some ah
   }"

declare uri_backup_loop.simps [code]

definition uri_backup :: "allocated_headers \<Rightarrow> allocated_headers option" where
  "uri_backup ah = do {
     fr \<leftarrow> rd (ah_frags ah) (ah_nfrag ah);
     if frag_len fr > 2 then do {
       ah \<leftarrow> upd_frag (ah_nfrag ah) (\<lambda>fr. fr\<lparr>frag_len := dec16 (frag_len fr)\<rparr>) (ah\<lparr>ah_pos := sub32 (ah_pos ah) 1\<rparr>);
       uri_backup_loop ah
     }
     else Some ah
   }"

text \<open>The genuine \<open>&\<close> and \<open>;\<close> delimiters start a new fragment of the same token.\<close>

definition uri_next_fragment :: "hdr_env \<Rightarrow> allocated_headers \<Rightarrow> (lpur \<times> allocated_headers) option" where
  "uri_next_fragment env ah = do {
     (r, ah) \<leftarrow> issue_char env 0 ah;
     if r < 0 then Some (LPUR_FAIL, ah)
     else do {
       ah \<leftarrow> upd_frag (ah_nfrag ah) (\<lambda>fr. fr\<lparr>frag_nfrag := inc8 (ah_nfrag ah)\<rparr>) ah;
       let ah = ah\<lparr>ah_nfrag := inc8 (ah_nfrag ah)\<rparr> in
       if ah_nfrag ah \<ge> length (ah_frags ah) then Some (LPUR_EXCESSIVE, ah)
       else do {
         let ah = ah\<lparr>ah_post_literal_equal := False, ah_pos := add32 (ah_pos ah) 1\<rparr> in do {
         ah \<leftarrow> upd_frag (ah_nfrag ah) (\<lambda>fr. fr\<lparr>frag_offset := ah_pos ah, frag_len := 0, frag_nfrag := 0\<rparr>) ah;
         Some (LPUR_SWALLOW, ah)
         }
       }
     }
   }"

text \<open>Priority 2, the path: \<open>Inl\<close> when the function returns, else the character to go on with.\<close>

definition uri_path_idle ::
    "hdr_env \<Rightarrow> bool \<Rightarrow> u8 \<Rightarrow> allocated_headers \<Rightarrow> ((lpur + u8) \<times> allocated_headers) option" where
  "uri_path_idle env enc c ah =
     (if c = 0 then Some (Inl LPUR_FAIL, ah)
      else if (c = ch CHR ''&'' \<or> c = ch CHR '';'') \<and> \<not> enc then
        map_option (apfst Inl) (uri_next_fragment env ah)
      else do {
        args \<leftarrow> rd (ah_frag_index ah) WSI_TOKEN_HTTP_URI_ARGS;
        let c = (if c = ch CHR ''='' \<and> enc \<and> args \<noteq> 0 \<and> \<not> ah_post_literal_equal ah then ch CHR ''_'' else c);
            ah = (if c = ch CHR ''='' \<and> \<not> enc then ah\<lparr>ah_post_literal_equal := True\<rparr> else ah);
            c = (if c = ch CHR ''+'' \<and> \<not> enc then ch CHR '' '' else c);
            ah = (if c = ch CHR ''/'' \<and> args = 0 then ah\<lparr>ah_ups := URIPS_SEEN_SLASH\<rparr> else ah) in
        Some (Inr c, ah)
      })"

definition uri_path_dot_dot ::
    "hdr_env \<Rightarrow> u8 \<Rightarrow> allocated_headers \<Rightarrow> ((lpur + u8) \<times> allocated_headers) option" where
  "uri_path_dot_dot env c ah =
     (if c = ch CHR ''/'' \<or> c = ch CHR ''?'' then do {
        ah \<leftarrow> uri_backup ah;
        let ah = ah\<lparr>ah_ups := URIPS_SEEN_SLASH\<rparr> in do {
        fr \<leftarrow> rd (ah_frags ah) (ah_nfrag ah);
        Some (if frag_len fr > 1 then Inr c else Inl LPUR_SWALLOW, ah)
        }
      }
      else do {
        (r, ah) \<leftarrow> issue_char env (ch CHR ''.'') ah;
        if r < 0 then Some (Inl LPUR_FAIL, ah)
        else do {
          (r, ah) \<leftarrow> issue_char env (ch CHR ''.'') ah;
          if r < 0 then Some (Inl LPUR_FAIL, ah)
          else Some (Inr c, ah\<lparr>ah_ups := URIPS_IDLE\<rparr>)
        }
      })"

definition uri_path_step ::
    "hdr_env \<Rightarrow> bool \<Rightarrow> u8 \<Rightarrow> allocated_headers \<Rightarrow> ((lpur + u8) \<times> allocated_headers) option" where
  "uri_path_step env enc c ah =
     (case ah_ups ah of
        URIPS_IDLE \<Rightarrow> uri_path_idle env enc c ah
      | URIPS_SEEN_SLASH \<Rightarrow>
          if c = ch CHR ''/'' then Some (Inl LPUR_SWALLOW, ah)
          else if c = ch CHR ''.'' then Some (Inl LPUR_SWALLOW, ah\<lparr>ah_ups := URIPS_SEEN_SLASH_DOT\<rparr>)
          else Some (Inr c, ah\<lparr>ah_ups := URIPS_IDLE\<rparr>)
      | URIPS_SEEN_SLASH_DOT \<Rightarrow>
          if c = ch CHR ''.'' then Some (Inl LPUR_SWALLOW, ah\<lparr>ah_ups := URIPS_SEEN_SLASH_DOT_DOT\<rparr>)
          else if c = ch CHR ''/'' then Some (Inl LPUR_SWALLOW, ah\<lparr>ah_ups := URIPS_SEEN_SLASH\<rparr>)
          else do {
            (r, ah) \<leftarrow> issue_char env (ch CHR ''.'') (ah\<lparr>ah_ups := URIPS_IDLE\<rparr>);
            if r < 0 then Some (Inl LPUR_FAIL, ah) else Some (Inr c, ah)
          }
      | URIPS_SEEN_SLASH_DOT_DOT \<Rightarrow> uri_path_dot_dot env c ah)"

text \<open>The start of the arguments: the path is sealed off and a fragment for the arguments opened.\<close>

definition uri_start_args :: "hdr_env \<Rightarrow> allocated_headers \<Rightarrow> (lpur \<times> allocated_headers) option" where
  "uri_start_args env ah =
     (if ah_ues ah \<noteq> URIES_IDLE then Some (LPUR_FORBID, ah)
      else do {
        (r, ah) \<leftarrow> issue_char env 0 ah;
        if r < 0 then Some (LPUR_FAIL, ah)
        else
          let ah = ah\<lparr>ah_nfrag := inc8 (ah_nfrag ah)\<rparr> in
          if ah_nfrag ah \<ge> length (ah_frags ah) then Some (LPUR_EXCESSIVE, ah)
          else do {
            let ah = ah\<lparr>ah_pos := add32 (ah_pos ah) 1\<rparr> in do {
            ah \<leftarrow> upd_frag (ah_nfrag ah) (\<lambda>fr. fr\<lparr>frag_offset := ah_pos ah, frag_len := 0, frag_nfrag := 0\<rparr>) ah;
            fi \<leftarrow> wr (ah_frag_index ah) WSI_TOKEN_HTTP_URI_ARGS (ah_nfrag ah);
            Some (LPUR_SWALLOW,
              ah\<lparr>ah_post_literal_equal := False, ah_frag_index := fi, ah_ups := URIPS_IDLE\<rparr>)
            }
          }
      })"

definition lws_parse_urldecode ::
    "hdr_env \<Rightarrow> u8 \<Rightarrow> allocated_headers \<Rightarrow> (lpur \<times> u8 \<times> allocated_headers) option" where
  "lws_parse_urldecode env c0 ah =
     (case uri_unescape c0 ah of
        (Inl r, ah) \<Rightarrow> Some (r, c0, ah)
      | (Inr (enc, c), ah) \<Rightarrow> do {
          (r, ah) \<leftarrow> uri_path_step env enc c ah;
          case r of
            Inl r \<Rightarrow> Some (r, c, ah)
          | Inr c \<Rightarrow> do {
              args \<leftarrow> rd (ah_frag_index ah) WSI_TOKEN_HTTP_URI_ARGS;
              if c = ch CHR ''?'' \<and> \<not> enc \<and> args = 0 then do {
                (r, ah) \<leftarrow> uri_start_args env ah;
                Some (r, c, ah)
              }
              else Some (LPUR_CONTINUE, c, ah)
            }
        })"



subsection \<open>Backing up\<close>

lemma ah_shrink_shrink: "ah_nfrag ah < length (ah_frags ah) \<Longrightarrow> ah_shrink j (ah_shrink k ah) = ah_shrink (k + j) ah"
  by (simp add: ah_shrink_def)

lemma ah_shrink_0: "ah_shrink 0 ah = ah"
  by (simp add: ah_shrink_def)

lemma shrink_step:
  assumes "env_ok env" "ah_wf env ah" "0 < frag_len (cur_frag ah)"
  shows "upd_frag (ah_nfrag ah) (\<lambda>fr. fr\<lparr>frag_len := dec16 (frag_len fr)\<rparr>) (ah\<lparr>ah_pos := sub32 (ah_pos ah) 1\<rparr>) =
     Some (ah_shrink 1 ah)"
proof -
  note wf = ah_wfD [OF assms(2)]
  have "ah_pos ah < 2 ^ 16" "1 \<le> ah_pos ah" "frag_len (cur_frag ah) < 2 ^ 16"
    using wf(7,9) assms(1,3) by (auto simp: env_ok_def)
  with wf(2,4) assms(3) show ?thesis
    by (simp add: upd_frag_def rd_Some sub32_small dec16_small ah_shrink_def)
qed

lemma uri_backup_loop_spec:
  "env_ok env \<Longrightarrow> ah_wf env ah \<Longrightarrow> 1 < frag_len (cur_frag ah) \<Longrightarrow>
   \<exists>k. 0 < k \<and> k < frag_len (cur_frag ah) \<and> uri_backup_loop ah = Some (ah_shrink k ah) \<and>
     (frag_len (cur_frag ah) - k = 1 \<or> ah_data ah ! (ah_pos ah - k) = ch CHR ''/'')"
proof (induction "frag_len (cur_frag ah)" arbitrary: ah rule: less_induct)
  case less
  note wf = ah_wfD [OF less.prems(2)]
  have n: "ah_nfrag ah < length (ah_frags ah)" using wf(2,4) by simp
  let ?a = "ah_shrink 1 ah"
  have wfa: "ah_wf env ?a" using ah_wf_shrink [OF less.prems(2), of 1] less.prems(3) by simp
  have fa: "cur_frag ?a = (cur_frag ah)\<lparr>frag_len := frag_len (cur_frag ah) - 1\<rparr>" by (simp add: ah_shrink_frag [OF n])
  have step: "upd_frag (ah_nfrag ah) (\<lambda>fr. fr\<lparr>frag_len := dec16 (frag_len fr)\<rparr>) (ah\<lparr>ah_pos := sub32 (ah_pos ah) 1\<rparr>) = Some ?a"
    using shrink_step [OF less.prems(1,2)] less.prems(3) by simp
  have ra: "rd (ah_frags ?a) (ah_nfrag ?a) = Some (cur_frag ?a)" using ah_wfD(2,4) [OF wfa] by (simp add: rd_Some)
  have rp: "rd (ah_data ?a) (ah_pos ?a) = Some (ah_data ah ! (ah_pos ah - 1))"
    using wf(1,7,9) less.prems(3) by (simp add: rd_Some)
  show ?case
  proof (cases "frag_len (cur_frag ah) = 2 \<or> ah_data ah ! (ah_pos ah - 1) = ch CHR ''/''")
    case True
    then have "uri_backup_loop ah = Some ?a" using step ra rp fa by (subst uri_backup_loop.simps) auto
    then show ?thesis using True less.prems(3) by (intro exI [of _ 1]) auto
  next
    case False
    then have gt: "1 < frag_len (cur_frag ?a)" "frag_len (cur_frag ?a) < frag_len (cur_frag ah)"
      using fa less.prems(3) by auto
    from less.hyps [OF gt(2) less.prems(1) wfa gt(1)] obtain k where
      k: "0 < k" "k < frag_len (cur_frag ?a)" "uri_backup_loop ?a = Some (ah_shrink k ?a)"
        "frag_len (cur_frag ?a) - k = 1 \<or> ah_data ?a ! (ah_pos ?a - k) = ch CHR ''/''" by blast
    have "uri_backup_loop ah = uri_backup_loop ?a"
      using step ra rp False gt(1) by (subst uri_backup_loop.simps) auto
    also have "\<dots> = Some (ah_shrink (1 + k) ah)" using k(3) ah_shrink_shrink [OF n] by simp
    finally show ?thesis using k fa by (intro exI [of _ "1 + k"]) auto
  qed
qed

lemma uri_backup_spec:
  assumes "env_ok env" "ah_wf env ah"
  shows "\<exists>k. uri_backup ah = Some (ah_shrink k ah) \<and>
     (frag_len (cur_frag ah) \<le> 2 \<and> k = 0 \<or>
      0 < k \<and> k < frag_len (cur_frag ah) \<and>
      (frag_len (cur_frag ah) - k = 1 \<or> ah_data ah ! (ah_pos ah - k) = ch CHR ''/''))"
proof (cases "frag_len (cur_frag ah) \<le> 2")
  case True
  then show ?thesis using ah_wfD(2,4) [OF assms(2)]
    by (intro exI [of _ 0]) (simp add: uri_backup_def rd_Some ah_shrink_0)
next
  case False
  have n: "ah_nfrag ah < length (ah_frags ah)" using ah_wfD(2,4) [OF assms(2)] by simp
  let ?a = "ah_shrink 1 ah"
  have wfa: "ah_wf env ?a" using ah_wf_shrink [OF assms(2), of 1] False by simp
  have fa: "cur_frag ?a = (cur_frag ah)\<lparr>frag_len := frag_len (cur_frag ah) - 1\<rparr>" by (simp add: ah_shrink_frag [OF n])
  have "1 < frag_len (cur_frag ?a)" using False fa by simp
  from uri_backup_loop_spec [OF assms(1) wfa this] obtain k where
    k: "0 < k" "k < frag_len (cur_frag ?a)" "uri_backup_loop ?a = Some (ah_shrink k ?a)"
      "frag_len (cur_frag ?a) - k = 1 \<or> ah_data ?a ! (ah_pos ?a - k) = ch CHR ''/''" by blast
  have "uri_backup ah = Some (ah_shrink (1 + k) ah)"
    using False n k(3) shrink_step [OF assms] ah_shrink_shrink [OF n]
    by (simp add: uri_backup_def rd_Some)
  then show ?thesis using k fa by (intro exI [of _ "1 + k"]) auto
qed



subsection \<open>Path segments\<close>

fun segs :: "u8 list \<Rightarrow> u8 list list" where
  "segs [] = [[]]"
| "segs (c # cs) = (if c = ch CHR ''/'' then [] # segs cs else (c # hd (segs cs)) # tl (segs cs))"

abbreviation dot_dot :: "u8 list" where
  "dot_dot \<equiv> bytes_of ''..''"

lemma segs_not_Nil [simp]: "segs p \<noteq> []"
  by (cases p) auto

lemma segs_append_slash: "segs (p @ ch CHR ''/'' # q) = segs p @ segs q"
  by (induction p) auto

lemma segs_snoc_slash: "segs (p @ [ch CHR ''/'']) = segs p @ [[]]"
  using segs_append_slash [of p "[]"] by simp

lemma segs_snoc: "c \<noteq> ch CHR ''/'' \<Longrightarrow> segs (p @ [c]) = butlast (segs p) @ [last (segs p) @ [c]]"
proof (induction p)
  case (Cons a p)
  show ?case
  proof (cases "segs p")
    case (Cons s ss)
    then show ?thesis using Cons.IH [OF Cons.prems] by (cases ss) auto
  qed simp
qed simp

lemmas segs_slash = segs_append_slash [simplified] segs_snoc_slash [simplified]

text \<open>A segment that is complete or may grow without becoming \<open>..\<close>.\<close>

definition seg_ok :: "u8 list \<Rightarrow> bool" where
  "seg_ok s \<longleftrightarrow> s \<noteq> [] \<and> s \<noteq> bytes_of ''.'' \<and> s \<noteq> dot_dot"

lemma seg_ok_snoc: "seg_ok s \<Longrightarrow> seg_ok (s @ [c])"
  by (auto simp: seg_ok_def append_eq_Cons_conv)

lemma seg_ok_start:
  "c \<noteq> ch CHR ''.'' \<Longrightarrow> s = [] \<or> seg_ok s \<Longrightarrow> seg_ok (s @ [c])"
  by (auto simp: seg_ok_def append_eq_Cons_conv)

text \<open>An absolute path without \<open>..\<close> segment.\<close>

definition path_clean :: "u8 list \<Rightarrow> bool" where
  "path_clean p \<longleftrightarrow> p \<noteq> [] \<and> hd p = ch CHR ''/'' \<and> dot_dot \<notin> set (segs p)"

text \<open>What holds of the bytes of the path once its first slash is stored, for each state of the path filter.\<close>

definition path_inv :: "uri_path_states \<Rightarrow> u8 list \<Rightarrow> bool" where
  "path_inv ups p \<longleftrightarrow>
     path_clean p \<and> (seg_ok (last (segs p)) \<or> ups \<noteq> URIPS_IDLE \<and> last (segs p) = [])"

lemma path_inv_clean: "path_inv ups p \<Longrightarrow> path_clean p"
  by (simp add: path_inv_def)

lemma path_inv_slash: "path_inv URIPS_SEEN_SLASH [ch CHR ''/'']"
  by (simp add: path_inv_def path_clean_def)

lemma path_clean_snoc:
  "path_clean p \<Longrightarrow> last (segs p) @ [c] \<noteq> dot_dot \<Longrightarrow> c \<noteq> ch CHR ''/'' \<Longrightarrow> path_clean (p @ [c])"
  by (auto simp: path_clean_def segs_snoc dest: in_set_butlastD)

lemma path_inv_snoc:
  "path_clean p \<Longrightarrow> seg_ok (last (segs p) @ [c]) \<Longrightarrow> c \<noteq> ch CHR ''/'' \<Longrightarrow> path_inv ups (p @ [c])"
  using path_clean_snoc [of p c] by (simp add: path_inv_def segs_snoc) (simp add: seg_ok_def)

lemma path_inv_snoc_slash: "path_clean p \<Longrightarrow> path_inv URIPS_SEEN_SLASH (p @ [ch CHR ''/''])"
  by (simp add: path_inv_def path_clean_def segs_slash)

lemma path_inv_idle:
  assumes "path_inv URIPS_IDLE p"
  shows "c \<noteq> ch CHR ''/'' \<Longrightarrow> path_inv URIPS_IDLE (p @ [c])"
    and "path_inv URIPS_SEEN_SLASH (p @ [ch CHR ''/''])"
  using assms path_inv_snoc [of p c] path_inv_snoc_slash [of p] seg_ok_snoc by (auto simp: path_inv_def)

text \<open>Leaving the states after a slash: the dots held back and another character follow.\<close>

lemma path_inv_leave:
  assumes "path_inv ups p" "c \<noteq> ch CHR ''/''"
  shows "c \<noteq> ch CHR ''.'' \<Longrightarrow> path_inv URIPS_IDLE (p @ [c])"
    and "c \<noteq> ch CHR ''.'' \<Longrightarrow> path_inv URIPS_IDLE (p @ [ch CHR ''.''] @ [c])"
    and "path_inv URIPS_IDLE (p @ [ch CHR ''.''] @ [ch CHR ''.''] @ [c])"
    and "path_clean (p @ [ch CHR ''.''])"
proof -
  let ?d = "ch CHR ''.''"
  have p: "path_clean p" "last (segs p) = [] \<or> seg_ok (last (segs p))"
    using assms(1) by (auto simp: path_inv_def)
  have d: "?d \<noteq> ch CHR ''/''" by simp
  show ok1: "path_clean (p @ [?d])"
    by (rule path_clean_snoc [OF p(1)]) (use p(2) in \<open>auto simp: seg_ok_def append_eq_Cons_conv\<close>)
  have l1: "last (segs (p @ [?d])) = last (segs p) @ [?d]" using segs_snoc [OF d, of p] by simp
  show "path_inv URIPS_IDLE (p @ [c])" if "c \<noteq> ?d"
    by (rule path_inv_snoc [OF p(1) seg_ok_start [OF that p(2)] assms(2)])
  show "path_inv URIPS_IDLE (p @ [?d] @ [c])" if "c \<noteq> ?d"
  proof -
    have "seg_ok (last (segs (p @ [?d])) @ [c])" using p(2) that unfolding l1 by (auto simp: seg_ok_def append_eq_Cons_conv)
    from path_inv_snoc [OF ok1 this assms(2)] show ?thesis by simp
  qed
  show "path_inv URIPS_IDLE (p @ [?d] @ [?d] @ [c])"
  proof -
    have s3: "seg_ok (last (segs p) @ [?d, ?d, c])" using p(2) by (auto simp: seg_ok_def append_eq_Cons_conv)
    have "dot_dot \<notin> set (butlast (segs p))" using p(1) by (auto simp: path_clean_def dest: in_set_butlastD)
    then have "dot_dot \<notin> set (segs (p @ [?d, ?d, c]))"
      using s3 segs_snoc [OF d, of p] segs_snoc [OF d, of "p @ [?d]"] segs_snoc [OF assms(2), of "p @ [?d, ?d]"]
      by (simp add: seg_ok_def)
    moreover have "last (segs (p @ [?d, ?d, c])) = last (segs p) @ [?d, ?d, c]"
      using segs_snoc [OF d, of p] segs_snoc [OF d, of "p @ [?d]"] segs_snoc [OF assms(2), of "p @ [?d, ?d]"] by simp
    ultimately show ?thesis using s3 p(1) by (simp add: path_inv_def path_clean_def)
  qed
qed

text \<open>After backing up the path is a proper part of the old one that ended at a slash, or a single byte.\<close>

definition path_back :: "u8 list \<Rightarrow> u8 list \<Rightarrow> bool" where
  "path_back q p \<longleftrightarrow> q = p \<and> length p \<le> 2 \<or> q \<noteq> [] \<and> (length q = 1 \<and> hd q = hd p \<or> (\<exists>r. p = q @ ch CHR ''/'' # r))"

lemma path_back_inv:
  assumes "path_inv ups p" "path_back q p"
  shows "path_clean q" and "length q \<le> 1 \<Longrightarrow> path_inv URIPS_SEEN_SLASH q"
    and "path_inv URIPS_SEEN_SLASH (q @ [ch CHR ''/''])" and "path_inv URIPS_SEEN_SLASH (q @ [ch CHR ''?''])"
proof -
  have p: "p \<noteq> []" "hd p = ch CHR ''/''" "dot_dot \<notin> set (segs p)" using assms(1) by (auto simp: path_inv_def path_clean_def)
  have q: "q \<noteq> []" "hd q = ch CHR ''/''" using p assms(2) by (auto simp: path_back_def hd_append)
  have one: "q = [ch CHR ''/'']" if "length q = 1"
    using that q by (cases q) auto
  have "dot_dot \<notin> set (segs q)"
    using assms(2) p(3) one by (auto simp: path_back_def segs_slash)
  with q show c: "path_clean q" by (simp add: path_clean_def)
  show "path_inv URIPS_SEEN_SLASH q" if "length q \<le> 1"
    using that q(1) one path_inv_slash by (cases q) auto
  show "path_inv URIPS_SEEN_SLASH (q @ [ch CHR ''/''])" by (rule path_inv_snoc_slash [OF c])
  have "seg_ok (last (segs q) @ [ch CHR ''?''])" by (auto simp: seg_ok_def append_eq_Cons_conv)
  from path_inv_snoc [OF c this] show "path_inv URIPS_SEEN_SLASH (q @ [ch CHR ''?''])" by simp
qed



subsection \<open>Well-formedness is kept\<close>

lemma issue_char_wf:
  assumes "env_ok env" "ah_wf env ah" "issue_char env c ah = Some (r, ah')"
  shows "ah_wf env ah'" "ah_frag_index ah' = ah_frag_index ah" "ah_nfrag ah' = ah_nfrag ah" "ah_ups ah' = ah_ups ah"
    "ah_ues ah' = ah_ues ah" "ah_parser_state ah' = ah_parser_state ah" "ah_esc_stash ah' = ah_esc_stash ah"
    "0 \<le> r \<Longrightarrow> ah_pos ah' \<le> max_http_header_data env" "r = - 1 \<or> r = 0 \<or> r = 1"
  using assms ah_wf_push ah_wf_hit_limit
  by (auto simp: issue_char_spec hdr_full_def ah_hit_limit_def split: if_splits)

lemma issue_char_total: "env_ok env \<Longrightarrow> ah_wf env ah \<Longrightarrow> \<not> asserts_enabled env \<Longrightarrow> \<exists>r ah'. issue_char env c ah = Some (r, ah')"
  by (simp add: issue_char_spec hdr_full_def)

text \<open>Both ways to go on to a new fragment skip one byte of the data.\<close>

lemma open_next_wf:
  assumes "env_ok env" "ah_wf env ah" "ah_pos ah \<le> max_http_header_data env" "ah_nfrag ah + 1 < WSI_TOKEN_COUNT"
  shows "add32 (ah_pos ah) 1 = ah_pos ah + 1"
    "ah_wf env (ah_open (ah_pos ah + 1)
       ((ah_frags ah ! (ah_nfrag ah + 1))\<lparr>frag_offset := ah_pos ah + 1, frag_len := 0, frag_nfrag := 0\<rparr>) ah)"
  using assms ah_wf_open [OF assms(2,4), of "ah_pos ah + 1"] by (simp_all add: add32_small env_ok_def)

definition uri_args_frag :: "allocated_headers \<Rightarrow> allocated_headers" where
  "uri_args_frag ah = ah_open (ah_pos ah + 1)
     ((ah_frags ah ! (ah_nfrag ah + 1))\<lparr>frag_offset := ah_pos ah + 1, frag_len := 0, frag_nfrag := 0\<rparr>) ah"

lemma uri_next_fragment_spec:
  assumes "env_ok env" "ah_wf env ah"
  shows "uri_next_fragment env ah =
     (case issue_char env 0 ah of
        None \<Rightarrow> None
      | Some (r, ah1) \<Rightarrow>
          if r < 0 then Some (LPUR_FAIL, ah1)
          else if ah_nfrag ah + 1 \<ge> WSI_TOKEN_COUNT then
            Some (LPUR_EXCESSIVE, ah1\<lparr>ah_frags := (ah_frags ah1)[ah_nfrag ah := (cur_frag ah1)\<lparr>frag_nfrag := ah_nfrag ah + 1\<rparr>],
              ah_nfrag := ah_nfrag ah + 1\<rparr>)
          else Some (LPUR_SWALLOW,
            (uri_args_frag ah1)\<lparr>ah_post_literal_equal := False, ah_frags := (ah_frags (uri_args_frag ah1))
               [ah_nfrag ah := (cur_frag ah1)\<lparr>frag_nfrag := ah_nfrag ah + 1\<rparr>]\<rparr>))"
proof (cases "issue_char env 0 ah")
  case (Some x)
  obtain r ah1 where x: "x = (r, ah1)" by (cases x)
  note i = issue_char_wf [OF assms Some [unfolded x]]
  note wf1 = ah_wfD [OF i(1)]
  have "0 \<le> r \<Longrightarrow> add32 (ah_pos ah1) (Suc 0) = Suc (ah_pos ah1)" using i(8) assms(1) by (simp add: add32_small env_ok_def)
  then show ?thesis using Some x i(3) wf1(2,4)
    by (cases ah1) (auto simp: uri_next_fragment_def Let_def upd_frag_def rd_Some inc8_small uri_args_frag_def ah_open_def list_update_swap)
qed (simp add: uri_next_fragment_def)

lemma uri_next_fragment_wf:
  assumes "env_ok env" "ah_wf env ah" "uri_next_fragment env ah = Some (r, ah')"
  shows "r = LPUR_SWALLOW \<or> r = LPUR_FAIL \<or> r = LPUR_EXCESSIVE"
    "r = LPUR_SWALLOW \<Longrightarrow> ah_wf env ah'"
    "r = LPUR_EXCESSIVE \<Longrightarrow> ah_nfrag ah' = WSI_TOKEN_COUNT \<and> length (ah_frags ah') = WSI_TOKEN_COUNT"
    "ah_frag_index ah' = ah_frag_index ah" "ah_parser_state ah' = ah_parser_state ah" "ah_ues ah' = ah_ues ah"
    "ah_esc_stash ah' = ah_esc_stash ah"
proof -
  obtain q ah1 where q: "issue_char env 0 ah = Some (q, ah1)"
    using assms(3) by (auto simp: uri_next_fragment_spec [OF assms(1,2)] split: option.splits)
  note i = issue_char_wf [OF assms(1,2) q]
  note spec = assms(3) [unfolded uri_next_fragment_spec [OF assms(1,2)] q, simplified]
  show "r = LPUR_SWALLOW \<or> r = LPUR_FAIL \<or> r = LPUR_EXCESSIVE" using spec by (auto split: if_splits)
  show "r = LPUR_EXCESSIVE \<Longrightarrow> ah_nfrag ah' = WSI_TOKEN_COUNT \<and> length (ah_frags ah') = WSI_TOKEN_COUNT"
    using spec i(1,3) ah_wfD(2,4) [OF assms(2)] ah_wfD(2) [OF i(1)] by (auto split: if_splits)
  show "ah_frag_index ah' = ah_frag_index ah" "ah_parser_state ah' = ah_parser_state ah" "ah_ues ah' = ah_ues ah"
    "ah_esc_stash ah' = ah_esc_stash ah"
    using spec i by (auto simp: uri_args_frag_def split: if_splits)
  show "ah_wf env ah'" if "r = LPUR_SWALLOW"
  proof -
    from spec that have n: "0 \<le> q" "ah_nfrag ah1 + 1 < WSI_TOKEN_COUNT"
      and ah': "ah' = (uri_args_frag ah1)\<lparr>ah_post_literal_equal := False, ah_frags := (ah_frags (uri_args_frag ah1))
               [ah_nfrag ah := (cur_frag ah1)\<lparr>frag_nfrag := ah_nfrag ah + 1\<rparr>]\<rparr>"
      using i(3) by (auto split: if_splits)
    have wf: "ah_wf env (uri_args_frag ah1)" unfolding uri_args_frag_def
      by (rule open_next_wf [OF assms(1) i(1) i(8) [OF n(1)] n(2)])
    have "ah_frags (uri_args_frag ah1) ! ah_nfrag ah = cur_frag ah1"
      using i(3) n(2) ah_wfD(2) [OF i(1)] by (simp add: uri_args_frag_def ah_open_def)
    then have eq: "ah' = (uri_args_frag ah1)\<lparr>ah_frags := (ah_frags (uri_args_frag ah1))
               [ah_nfrag ah := (ah_frags (uri_args_frag ah1) ! ah_nfrag ah)\<lparr>frag_nfrag := ah_nfrag ah + 1\<rparr>],
               ah_post_literal_equal := False\<rparr>" unfolding ah' by simp
    show ?thesis unfolding eq ah_wf_upd
      by (rule ah_wf_link [OF wf]) (simp_all add: uri_args_frag_def i(3))
  qed
qed

lemma uri_start_args_spec:
  assumes "env_ok env" "ah_wf env ah"
  shows "uri_start_args env ah =
     (if ah_ues ah \<noteq> URIES_IDLE then Some (LPUR_FORBID, ah)
      else case issue_char env 0 ah of
        None \<Rightarrow> None
      | Some (r, ah1) \<Rightarrow>
          if r < 0 then Some (LPUR_FAIL, ah1)
          else if ah_nfrag ah + 1 \<ge> WSI_TOKEN_COUNT then Some (LPUR_EXCESSIVE, ah1\<lparr>ah_nfrag := ah_nfrag ah + 1\<rparr>)
          else Some (LPUR_SWALLOW, (uri_args_frag ah1)\<lparr>ah_post_literal_equal := False,
            ah_frag_index := (ah_frag_index ah)[WSI_TOKEN_HTTP_URI_ARGS := ah_nfrag ah + 1], ah_ups := URIPS_IDLE\<rparr>))"
proof (cases "issue_char env 0 ah")
  case (Some x)
  obtain r ah1 where x: "x = (r, ah1)" by (cases x)
  note i = issue_char_wf [OF assms Some [unfolded x]]
  note wf1 = ah_wfD [OF i(1)]
  have "0 \<le> r \<Longrightarrow> add32 (ah_pos ah1) (Suc 0) = Suc (ah_pos ah1)" using i(8) assms(1) by (simp add: add32_small env_ok_def)
  then show ?thesis using Some x i(2,3) wf1(2,3,4)
    by (cases ah1) (auto simp: uri_start_args_def Let_def upd_frag_def rd_Some wr_Some inc8_small uri_args_frag_def ah_open_def)
qed (simp add: uri_start_args_def)

lemma uri_start_args_wf:
  assumes "env_ok env" "ah_wf env ah" "uri_start_args env ah = Some (r, ah')"
  shows "r = LPUR_SWALLOW \<Longrightarrow> ah_wf env ah'" "r \<noteq> LPUR_CONTINUE"
    "r = LPUR_EXCESSIVE \<Longrightarrow> ah_nfrag ah' = WSI_TOKEN_COUNT \<and> length (ah_frags ah') = WSI_TOKEN_COUNT"
    "ah_parser_state ah' = ah_parser_state ah" "i \<noteq> WSI_TOKEN_HTTP_URI_ARGS \<Longrightarrow> ah_frag_index ah' ! i = ah_frag_index ah ! i"
    "ah_ues ah' = ah_ues ah" "ah_esc_stash ah' = ah_esc_stash ah"
proof -
  note spec = assms(3) [unfolded uri_start_args_spec [OF assms(1,2)]]
  show "r \<noteq> LPUR_CONTINUE" using spec by (auto split: if_splits option.splits)
  show "r = LPUR_EXCESSIVE \<Longrightarrow> ah_nfrag ah' = WSI_TOKEN_COUNT \<and> length (ah_frags ah') = WSI_TOKEN_COUNT"
    using spec ah_wfD(4) [OF assms(2)] by (auto split: if_splits option.splits dest!: issue_char_wf(1) [OF assms(1,2)] ah_wfD(2))
  show "ah_parser_state ah' = ah_parser_state ah"
    using spec by (auto simp: uri_args_frag_def split: if_splits option.splits)
      (use issue_char_wf(6) [OF assms(1,2)] in blast)+
  show "ah_ues ah' = ah_ues ah"
    using spec by (auto simp: uri_args_frag_def split: if_splits option.splits)
      (use issue_char_wf(5) [OF assms(1,2)] in \<open>metis+\<close>)
  show "ah_esc_stash ah' = ah_esc_stash ah"
    using spec by (auto simp: uri_args_frag_def split: if_splits option.splits)
      (use issue_char_wf(7) [OF assms(1,2)] in \<open>metis+\<close>)
  show "ah_frag_index ah' ! i = ah_frag_index ah ! i" if "i \<noteq> WSI_TOKEN_HTTP_URI_ARGS"
    using spec that by (auto simp: uri_args_frag_def split: if_splits option.splits)
      (use issue_char_wf(2) [OF assms(1,2)] in \<open>metis+\<close>)
  show "ah_wf env ah'" if "r = LPUR_SWALLOW"
  proof -
    from spec that obtain q ah1 where q: "issue_char env 0 ah = Some (q, ah1)" "0 \<le> q" "ah_nfrag ah + 1 < WSI_TOKEN_COUNT"
      and ah': "ah' = (uri_args_frag ah1)\<lparr>ah_post_literal_equal := False,
            ah_frag_index := (ah_frag_index ah)[WSI_TOKEN_HTTP_URI_ARGS := ah_nfrag ah + 1], ah_ups := URIPS_IDLE\<rparr>"
      by (auto split: if_splits option.splits)
    note i = issue_char_wf [OF assms(1,2) q(1)]
    have wf: "ah_wf env (uri_args_frag ah1)" unfolding uri_args_frag_def
      by (rule open_next_wf [OF assms(1) i(1) i(8) [OF q(2)]]) (use q(3) i(3) in simp)
    have eq: "ah' = (uri_args_frag ah1)\<lparr>ah_frag_index := (ah_frag_index (uri_args_frag ah1))
            [WSI_TOKEN_HTTP_URI_ARGS := ah_nfrag (uri_args_frag ah1)], ah_post_literal_equal := False, ah_ups := URIPS_IDLE\<rparr>"
      unfolding ah' using i(2,3) by (simp add: uri_args_frag_def)
    show ?thesis unfolding eq ah_wf_upd by (rule ah_wf_index [OF wf])
  qed
qed


lemma uri_backup_wf:
  assumes "env_ok env" "ah_wf env ah"
  obtains k where "uri_backup ah = Some (ah_shrink k ah)" "ah_wf env (ah_shrink k ah)"
proof -
  obtain k where k: "uri_backup ah = Some (ah_shrink k ah)" "k \<le> frag_len (cur_frag ah)"
    using uri_backup_spec [OF assms] by fastforce
  then show ?thesis using ah_wf_shrink [OF assms(2) k(2)] that by blast
qed

text \<open>What a step of the URI filter does to the header table: the outcome \<open>ok\<close> keeps it well-formed.\<close>

definition uri_keeps :: "hdr_env \<Rightarrow> allocated_headers \<Rightarrow> bool \<Rightarrow> allocated_headers \<Rightarrow> bool" where
  "uri_keeps env ah ok ah' \<longleftrightarrow> (ok \<longrightarrow> ah_wf env ah') \<and> ah_parser_state ah' = ah_parser_state ah \<and>
     (\<forall>i. i \<noteq> WSI_TOKEN_HTTP_URI_ARGS \<longrightarrow> ah_frag_index ah' ! i = ah_frag_index ah ! i) \<and>
     ah_esc_stash ah' = ah_esc_stash ah \<and> ah_ues ah' = ah_ues ah"

abbreviation frags_full :: "allocated_headers \<Rightarrow> bool" where
  "frags_full ah \<equiv> ah_nfrag ah = WSI_TOKEN_COUNT \<and> length (ah_frags ah) = WSI_TOKEN_COUNT"

lemma issue_char_keeps:
  "env_ok env \<Longrightarrow> ah_wf env ah \<Longrightarrow> issue_char env c ah = Some (r, ah') \<Longrightarrow> uri_keeps env ah True ah'"
  using issue_char_wf [of env ah c r ah'] by (simp add: uri_keeps_def)

lemma uri_keeps_trans: "uri_keeps env a True b \<Longrightarrow> uri_keeps env b ok c \<Longrightarrow> uri_keeps env a ok c"
  by (simp add: uri_keeps_def)

definition uri_idle_char :: "bool \<Rightarrow> bool \<Rightarrow> u8 \<Rightarrow> u8" where
  "uri_idle_char enc name c =
     (if c = ch CHR ''='' \<and> enc \<and> name then ch CHR ''_'' else if c = ch CHR ''+'' \<and> \<not> enc then ch CHR '' '' else c)"

lemma uri_path_idle_spec:
  assumes "length (ah_frag_index ah) = WSI_TOKEN_COUNT" "c \<noteq> 0" "\<not> ((c = ch CHR ''&'' \<or> c = ch CHR '';'') \<and> \<not> enc)"
  shows "uri_path_idle env enc c ah =
     Some (Inr (uri_idle_char enc (ah_frag_index ah ! WSI_TOKEN_HTTP_URI_ARGS \<noteq> 0 \<and> \<not> ah_post_literal_equal ah) c),
       ah\<lparr>ah_post_literal_equal := (c = ch CHR ''='' \<and> \<not> enc \<or> ah_post_literal_equal ah),
          ah_ups := (if c = ch CHR ''/'' \<and> ah_frag_index ah ! WSI_TOKEN_HTTP_URI_ARGS = 0 then URIPS_SEEN_SLASH else ah_ups ah)\<rparr>)"
proof -
  have r: "rd (ah_frag_index ah) WSI_TOKEN_HTTP_URI_ARGS = Some (ah_frag_index ah ! WSI_TOKEN_HTTP_URI_ARGS)"
    using assms(1) by (simp add: rd_Some)
  consider "c = ch CHR ''=''" | "c = ch CHR ''+''" | "c = ch CHR ''/''" | "c \<noteq> ch CHR ''=''" "c \<noteq> ch CHR ''+''" "c \<noteq> ch CHR ''/''"
    by blast
  then show ?thesis
    by cases (use assms(2,3) r in \<open>cases ah, simp add: uri_path_idle_def Let_def uri_idle_char_def\<close>)+
qed

lemma uri_idle_char_nonzero: "c \<noteq> 0 \<Longrightarrow> uri_idle_char enc name c \<noteq> 0"
  by (simp add: uri_idle_char_def)

lemma uri_idle_char_slash: "uri_idle_char enc name c = ch CHR ''/'' \<longleftrightarrow> c = ch CHR ''/''"
  by (simp add: uri_idle_char_def)

lemma uri_path_idle_keeps:
  assumes "env_ok env" "ah_wf env ah" "uri_path_idle env enc c ah = Some (x, ah')"
  shows "uri_keeps env ah (x = Inl LPUR_SWALLOW \<or> (\<exists>c'. x = Inr c')) ah' \<and> (x = Inl LPUR_EXCESSIVE \<longrightarrow> frags_full ah') \<and>
     x \<noteq> Inl LPUR_CONTINUE \<and> x \<noteq> Inl LPUR_FORBID"
proof (cases "c \<noteq> 0 \<and> (c = ch CHR ''&'' \<or> c = ch CHR '';'') \<and> \<not> enc")
  case True
  with assms(3) obtain r where "uri_next_fragment env ah = Some (r, ah')" "x = Inl r"
    by (auto simp: uri_path_idle_def)
  with uri_next_fragment_wf [OF assms(1,2)] show ?thesis by (auto simp: uri_keeps_def)
next
  case False
  show ?thesis
  proof (cases "c = 0")
    case True
    then show ?thesis using assms(3) by (auto simp: uri_path_idle_def uri_keeps_def)
  next
    case nz: False
    have "\<not> ((c = ch CHR ''&'' \<or> c = ch CHR '';'') \<and> \<not> enc)" using False nz by blast
    from uri_path_idle_spec [OF ah_wfD(3) [OF assms(2)] nz this] assms(2,3) show ?thesis
      by (auto simp: uri_keeps_def)
  qed
qed

lemma uri_path_dot_dot_keeps:
  assumes "env_ok env" "ah_wf env ah" "uri_path_dot_dot env c ah = Some (x, ah')"
  shows "uri_keeps env ah True ah' \<and> (x = Inl LPUR_SWALLOW \<or> x = Inl LPUR_FAIL \<or> x = Inr c)"
proof (cases "c = ch CHR ''/'' \<or> c = ch CHR ''?''")
  case True
  obtain k where "uri_backup ah = Some (ah_shrink k ah)" "ah_wf env (ah_shrink k ah)"
    by (rule uri_backup_wf [OF assms(1,2)])
  with True assms(3) show ?thesis
    by (auto simp: uri_path_dot_dot_def uri_keeps_def bind_eq_Some split: if_splits)
next
  case False
  with assms(3) obtain q ah1 where q: "issue_char env (ch CHR ''.'') ah = Some (q, ah1)"
    by (auto simp: uri_path_dot_dot_def bind_eq_Some)
  note k1 = issue_char_keeps [OF assms(1,2) q]
  have wf1: "ah_wf env ah1" using k1 by (simp add: uri_keeps_def)
  show ?thesis
  proof (cases "q < 0")
    case True
    then show ?thesis using False assms(3) q k1 by (simp add: uri_path_dot_dot_def)
  next
    case ge: False
    with False assms(3) q obtain q2 ah2 where q2: "issue_char env (ch CHR ''.'') ah1 = Some (q2, ah2)"
      by (auto simp: uri_path_dot_dot_def bind_eq_Some)
    have "uri_keeps env ah True ah2" by (rule uri_keeps_trans [OF k1 issue_char_keeps [OF assms(1) wf1 q2]])
    then show ?thesis using False ge assms(3) q q2
      by (auto simp: uri_path_dot_dot_def uri_keeps_def split: if_splits)
  qed
qed

lemma uri_path_step_keeps:
  assumes "env_ok env" "ah_wf env ah" "uri_path_step env enc c ah = Some (x, ah')"
  shows "uri_keeps env ah (x = Inl LPUR_SWALLOW \<or> (\<exists>c'. x = Inr c')) ah' \<and> (x = Inl LPUR_EXCESSIVE \<longrightarrow> frags_full ah') \<and>
     x \<noteq> Inl LPUR_CONTINUE \<and> x \<noteq> Inl LPUR_FORBID"
proof (cases "ah_ups ah")
  case URIPS_IDLE
  then show ?thesis using uri_path_idle_keeps [OF assms(1,2)] assms(3) by (simp add: uri_path_step_def)
next
  case URIPS_SEEN_SLASH
  then show ?thesis using assms(2,3) by (auto simp: uri_path_step_def uri_keeps_def split: if_splits)
next
  case URIPS_SEEN_SLASH_DOT
  show ?thesis
  proof (cases "c = ch CHR ''.'' \<or> c = ch CHR ''/''")
    case True
    then show ?thesis using URIPS_SEEN_SLASH_DOT assms(2,3) by (auto simp: uri_path_step_def uri_keeps_def split: if_splits)
  next
    case False
    let ?a = "ah\<lparr>ah_ups := URIPS_IDLE\<rparr>"
    from False URIPS_SEEN_SLASH_DOT assms(3) obtain q where q: "issue_char env (ch CHR ''.'') ?a = Some (q, ah')"
        "x = Inl LPUR_FAIL \<or> x = Inr c"
      by (auto simp: uri_path_step_def bind_eq_Some split: if_splits)
    have "ah_wf env ?a" using assms(2) by simp
    from issue_char_keeps [OF assms(1) this q(1)] q(2) show ?thesis by (auto simp: uri_keeps_def)
  qed
next
  case URIPS_SEEN_SLASH_DOT_DOT
  then show ?thesis using uri_path_dot_dot_keeps [OF assms(1,2)] assms(3) by (auto simp: uri_path_step_def uri_keeps_def)
qed

lemma uri_path_step_total:
  assumes "env_ok env" "ah_wf env ah" "\<not> asserts_enabled env"
  shows "\<exists>x ah'. uri_path_step env enc c ah = Some (x, ah')"
proof (cases "ah_ups ah")
  case URIPS_IDLE
  have "rd (ah_frag_index ah) WSI_TOKEN_HTTP_URI_ARGS = Some (ah_frag_index ah ! WSI_TOKEN_HTTP_URI_ARGS)"
    using ah_wfD(3) [OF assms(2)] by (simp add: rd_Some)
  then show ?thesis using URIPS_IDLE issue_char_total [OF assms, of 0]
    by (auto simp: uri_path_step_def uri_path_idle_def uri_next_fragment_spec [OF assms(1,2)])
next
  case URIPS_SEEN_SLASH_DOT
  have "ah_wf env (ah\<lparr>ah_ups := URIPS_IDLE\<rparr>)" using assms(2) by simp
  from issue_char_total [OF assms(1) this assms(3), of "ch CHR ''.''"] URIPS_SEEN_SLASH_DOT show ?thesis
    by (auto simp: uri_path_step_def)
next
  case URIPS_SEEN_SLASH_DOT_DOT
  obtain k where k: "uri_backup ah = Some (ah_shrink k ah)" "ah_wf env (ah_shrink k ah)"
    by (rule uri_backup_wf [OF assms(1,2)])
  obtain q ah1 where q: "issue_char env (ch CHR ''.'') ah = Some (q, ah1)" using issue_char_total [OF assms] by blast
  have "ah_wf env ah1" using issue_char_wf(1) [OF assms(1,2) q] .
  from issue_char_total [OF assms(1) this assms(3)] obtain q2 ah2 where
    q2: "issue_char env (ch CHR ''.'') ah1 = Some (q2, ah2)" by blast
  show ?thesis using URIPS_SEEN_SLASH_DOT_DOT k q q2 ah_wfD(2,4) [OF k(2)]
    by (auto simp: uri_path_step_def uri_path_dot_dot_def rd_Some)
qed (simp add: uri_path_step_def)

lemma uri_unescape_keeps:
  "ah_wf env ah \<Longrightarrow> uri_unescape c ah = (x, ah') \<Longrightarrow> ah_wf env ah' \<and> ah_parser_state ah' = ah_parser_state ah \<and>
     ah_frag_index ah' = ah_frag_index ah \<and> ah_ups ah' = ah_ups ah \<and> ah_nfrag ah' = ah_nfrag ah \<and>
     ah_frags ah' = ah_frags ah \<and> ah_data ah' = ah_data ah \<and> ah_pos ah' = ah_pos ah \<and>
     ah_current_token_limit ah' = ah_current_token_limit ah \<and>
     (\<forall>r. x = Inl r \<longrightarrow> r = LPUR_SWALLOW \<or> r = LPUR_FORBID)"
  by (auto simp: uri_unescape_def split: if_splits uri_esc_states.splits)

lemma lws_parse_urldecode_wf:
  assumes "env_ok env" "ah_wf env ah" "lws_parse_urldecode env c ah = Some (r, c', ah')"
  shows "r = LPUR_CONTINUE \<or> r = LPUR_SWALLOW \<Longrightarrow> ah_wf env ah'" "r = LPUR_EXCESSIVE \<Longrightarrow> frags_full ah'"
    "ah_parser_state ah' = ah_parser_state ah" "i \<noteq> WSI_TOKEN_HTTP_URI_ARGS \<Longrightarrow> ah_frag_index ah' ! i = ah_frag_index ah ! i"
proof -
  obtain x ah1 where u: "uri_unescape c ah = (x, ah1)" by fastforce
  note k1 = uri_unescape_keeps [OF assms(2) u]
  have "(r = LPUR_CONTINUE \<or> r = LPUR_SWALLOW \<longrightarrow> ah_wf env ah') \<and> (r = LPUR_EXCESSIVE \<longrightarrow> frags_full ah') \<and>
    ah_parser_state ah' = ah_parser_state ah \<and>
    (\<forall>i. i \<noteq> WSI_TOKEN_HTTP_URI_ARGS \<longrightarrow> ah_frag_index ah' ! i = ah_frag_index ah ! i)"
  proof (cases x)
    case (Inl r1)
    then show ?thesis using k1 u assms(3) by (auto simp: lws_parse_urldecode_def)
  next
    case (Inr ec)
    obtain enc d where ec: "ec = (enc, d)" by (cases ec)
    from assms(3) obtain y ah2 where y: "uri_path_step env enc d ah1 = Some (y, ah2)"
      by (auto simp: lws_parse_urldecode_def u Inr ec bind_eq_Some)
    note k2 = uri_path_step_keeps [OF assms(1) k1 [THEN conjunct1] y]
    show ?thesis
    proof (cases y)
      case (Inl r2)
      then show ?thesis using assms(3) k1 k2 by (auto simp: lws_parse_urldecode_def u Inr ec y uri_keeps_def)
    next
      case in2: (Inr d2)
      have wf2: "ah_wf env ah2" using k2 in2 by (simp add: uri_keeps_def)
      show ?thesis
      proof (cases "r = LPUR_CONTINUE")
        case True
        then show ?thesis using assms(3) k1 k2 in2 uri_start_args_wf(2) [OF assms(1) wf2]
          by (auto simp: lws_parse_urldecode_def u Inr ec y uri_keeps_def bind_eq_Some split: if_splits)
      next
        case False
        then have "uri_start_args env ah2 = Some (r, ah')" using assms(3)
          by (auto simp: lws_parse_urldecode_def u Inr ec y in2 bind_eq_Some split: if_splits)
        from uri_start_args_wf [OF assms(1) wf2 this] show ?thesis using k1 k2 False by (auto simp: uri_keeps_def)
      qed
    qed
  qed
  then show "r = LPUR_CONTINUE \<or> r = LPUR_SWALLOW \<Longrightarrow> ah_wf env ah'" "r = LPUR_EXCESSIVE \<Longrightarrow> frags_full ah'"
    "ah_parser_state ah' = ah_parser_state ah" "i \<noteq> WSI_TOKEN_HTTP_URI_ARGS \<Longrightarrow> ah_frag_index ah' ! i = ah_frag_index ah ! i"
    by blast+
qed

lemma lws_parse_urldecode_total:
  assumes "env_ok env" "ah_wf env ah" "\<not> asserts_enabled env"
  shows "\<exists>r c' ah'. lws_parse_urldecode env c ah = Some (r, c', ah')"
proof -
  obtain x ah1 where u: "uri_unescape c ah = (x, ah1)" by fastforce
  note k1 = uri_unescape_keeps [OF assms(2) u]
  show ?thesis
  proof (cases x)
    case (Inr ec)
    obtain enc d where ec: "ec = (enc, d)" by (cases ec)
    obtain y ah2 where y: "uri_path_step env enc d ah1 = Some (y, ah2)"
      using uri_path_step_total [OF assms(1) k1 [THEN conjunct1] assms(3)] by blast
    show ?thesis
    proof (cases y)
      case in2: (Inr d2)
      have wf2: "ah_wf env ah2" using uri_path_step_keeps [OF assms(1) k1 [THEN conjunct1] y] in2 by (simp add: uri_keeps_def)
      have "\<exists>r ah'. uri_start_args env ah2 = Some (r, ah')"
        using issue_char_total [OF assms(1) wf2 assms(3), of 0] by (auto simp: uri_start_args_spec [OF assms(1) wf2])
      then show ?thesis using ah_wfD(3) [OF wf2]
        by (auto simp: lws_parse_urldecode_def u Inr ec y in2 rd_Some)
    qed (simp add: lws_parse_urldecode_def u Inr ec y)
  qed (simp add: lws_parse_urldecode_def u)
qed



subsection \<open>The bytes of the path\<close>

lemma frag_end:
  assumes "ah_wf env ah" "i \<le> ah_nfrag ah"
  shows "frag_offset (ah_frags ah ! i) + frag_len (ah_frags ah ! i) \<le> ah_pos ah"
  using ah_wfD(6) [OF assms] ah_wfD(7) [OF assms(1)] assms(2) by (cases "i = ah_nfrag ah") (auto simp: frag_wf_def)

lemma hdr_bytes_push_other:
  assumes "ah_wf env ah" "i \<le> ah_nfrag ah" "i < ah_nfrag ah \<or> c = 0"
  shows "hdr_bytes (ah_push c ah) i = hdr_bytes ah i"
proof (rule hdr_bytes_cong)
  show "ah_frags (ah_push c ah) ! i = ah_frags ah ! i" using assms(3) ah_wfD(2,4) [OF assms(1)] by (auto simp: ah_push_frag)
qed (use frag_end [OF assms(1,2)] in simp)

text \<open>As long as no zero byte was written the current fragment ends at \<open>pos\<close>.\<close>

definition tight :: "allocated_headers \<Rightarrow> bool" where
  "tight ah \<longleftrightarrow> frag_offset (cur_frag ah) + frag_len (cur_frag ah) = ah_pos ah"

lemma hdr_bytes_push_cur:
  assumes "ah_wf env ah" "tight ah" "ah_pos ah < max_http_header_data env" "c \<noteq> 0"
  shows "hdr_bytes (ah_push c ah) (ah_nfrag ah) = hdr_bytes ah (ah_nfrag ah) @ [c]" "tight (ah_push c ah)"
proof -
  note wf = ah_wfD [OF assms(1)]
  have f: "ah_frags (ah_push c ah) ! ah_nfrag ah = (cur_frag ah)\<lparr>frag_len := frag_len (cur_frag ah) + 1\<rparr>"
    using wf(2,4) assms(4) by (simp add: ah_push_frag)
  have "take (frag_len (cur_frag ah)) (drop (frag_offset (cur_frag ah)) ((ah_data ah)[ah_pos ah := c])) =
      hdr_bytes ah (ah_nfrag ah)" using assms(2) by (simp add: hdr_bytes_def tight_def drop_update_swap)
  moreover have "(ah_data ah)[ah_pos ah := c] ! (frag_offset (cur_frag ah) + frag_len (cur_frag ah)) = c"
    using assms(2,3) wf(1) by (simp add: tight_def)
  ultimately show "hdr_bytes (ah_push c ah) (ah_nfrag ah) = hdr_bytes ah (ah_nfrag ah) @ [c]"
    using assms(2,3) wf(1) by (simp add: hdr_bytes_def f take_Suc_conv_app_nth tight_def)
  show "tight (ah_push c ah)" using assms(2) f by (simp add: tight_def)
qed

lemma hdr_bytes_shrink_other:
  "ah_wf env ah \<Longrightarrow> i < ah_nfrag ah \<Longrightarrow> hdr_bytes (ah_shrink k ah) i = hdr_bytes ah i"
  using ah_wfD(2,4) [of env ah] by (intro hdr_bytes_cong) (simp_all add: ah_shrink_frag)

lemma hdr_bytes_shrink_cur:
  assumes "ah_wf env ah" "tight ah" "k \<le> frag_len (cur_frag ah)"
  shows "hdr_bytes (ah_shrink k ah) (ah_nfrag ah) = take (frag_len (cur_frag ah) - k) (hdr_bytes ah (ah_nfrag ah))"
    "tight (ah_shrink k ah)"
  using assms ah_wfD(2,4) [OF assms(1)]
  by (simp_all add: hdr_bytes_def ah_shrink_frag tight_def min_absorb1)

lemma uri_backup_path:
  assumes "env_ok env" "ah_wf env ah" "tight ah" "uri_backup ah = Some ah'"
  shows "path_back (hdr_bytes ah' (ah_nfrag ah)) (hdr_bytes ah (ah_nfrag ah))" "tight ah'"
    "ah_frag_index ah' = ah_frag_index ah" "ah_nfrag ah' = ah_nfrag ah" "ah_parser_state ah' = ah_parser_state ah"
    "frag_len (cur_frag ah') = length (hdr_bytes ah' (ah_nfrag ah))"
proof -
  let ?l = "frag_len (cur_frag ah)" and ?p = "hdr_bytes ah (ah_nfrag ah)"
  obtain k where k: "uri_backup ah = Some (ah_shrink k ah)"
    "?l \<le> 2 \<and> k = 0 \<or> 0 < k \<and> k < ?l \<and> (?l - k = 1 \<or> ah_data ah ! (ah_pos ah - k) = ch CHR ''/'')"
    using uri_backup_spec [OF assms(1,2)] by blast
  then have ah': "ah' = ah_shrink k ah" and le: "k \<le> ?l" using assms(4) by auto
  have len: "length ?p = ?l" by (rule length_hdr_bytes [OF assms(2) order.refl])
  note s = hdr_bytes_shrink_cur [OF assms(2,3) le]
  have idx: "frag_offset (cur_frag ah) + (?l - k) = ah_pos ah - k" using assms(3) le by (simp add: tight_def)
  have at: "?p ! (?l - k) = ah_data ah ! (ah_pos ah - k)" if "0 < k" "k < ?l"
    using that assms(3) ah_wfD(1,9) [OF assms(2)] by (simp add: hdr_bytes_def tight_def idx)
  show "path_back (hdr_bytes ah' (ah_nfrag ah)) ?p"
  proof (cases "k = 0")
    case True
    then show ?thesis using k(2) s(1) len ah' by (simp add: path_back_def)
  next
    case False
    with k(2) have kl: "0 < k" "k < ?l" "?l - k = 1 \<or> ah_data ah ! (ah_pos ah - k) = ch CHR ''/''" by auto
    show ?thesis
    proof (cases "?l - k = 1")
      case True
      moreover have "?p \<noteq> []" using len kl(2) by auto
      ultimately show ?thesis using s(1) len kl(2) ah' by (simp add: path_back_def)
    next
      case no: False
      with kl at have "?p = take (?l - k) ?p @ ch CHR ''/'' # drop (Suc (?l - k)) ?p"
        using id_take_nth_drop [of "?l - k" ?p] len by simp
      moreover have "take (?l - k) ?p \<noteq> []" using kl(2) len by auto
      ultimately show ?thesis unfolding ah' s(1) path_back_def by blast
    qed
  qed
  show "tight ah'" "ah_frag_index ah' = ah_frag_index ah" "ah_nfrag ah' = ah_nfrag ah" "ah_parser_state ah' = ah_parser_state ah"
    using s(2) by (simp_all add: ah')
  show "frag_len (cur_frag ah') = length (hdr_bytes ah' (ah_nfrag ah))"
    using length_hdr_bytes [OF ah_wf_shrink [OF assms(2) le], of "ah_nfrag ah"] by (simp add: ah')
qed

lemma hdr_bytes_open:
  "ah_wf env ah \<Longrightarrow> i \<le> ah_nfrag ah \<Longrightarrow> hdr_bytes (ah_open p fr ah) i = hdr_bytes ah i"
  by (simp add: hdr_bytes_def ah_open_def)



subsection \<open>The path stays clean\<close>

text \<open>While fragment \<open>f\<close>, the first one of the URI, is being filled its bytes satisfy the invariant of the
  path filter; once another fragment is current they are a clean path for good.\<close>

definition path_state :: "hdr_env \<Rightarrow> nat \<Rightarrow> allocated_headers \<Rightarrow> bool" where
  "path_state env f ah \<longleftrightarrow> ah_wf env ah \<and> f \<le> ah_nfrag ah \<and>
     (if ah_nfrag ah = f
      then tight ah \<and> ah_frag_index ah ! WSI_TOKEN_HTTP_URI_ARGS = 0 \<and> path_inv (ah_ups ah) (hdr_bytes ah f)
      else path_clean (hdr_bytes ah f))"

text \<open>The character \<open>c\<close> is about to be written; or the fragment has reached its limit, and it will not be.\<close>

abbreviation limited :: "allocated_headers \<Rightarrow> bool" where
  "limited ah \<equiv> ah_current_token_limit ah \<noteq> 0 \<and> ah_current_token_limit ah \<le> frag_len (cur_frag ah)"

definition path_pending :: "hdr_env \<Rightarrow> nat \<Rightarrow> u8 \<Rightarrow> allocated_headers \<Rightarrow> bool" where
  "path_pending env f c ah \<longleftrightarrow> ah_wf env ah \<and> f \<le> ah_nfrag ah \<and>
     (ah_nfrag ah \<noteq> f \<or> c = ch CHR ''?'' \<longrightarrow> path_clean (hdr_bytes ah f)) \<and>
     (ah_nfrag ah = f \<longrightarrow> limited ah \<or>
        tight ah \<and> ah_frag_index ah ! WSI_TOKEN_HTTP_URI_ARGS = 0 \<and> path_inv (ah_ups ah) (hdr_bytes ah f @ [c]))"

lemma path_state_clean: "path_state env f ah \<Longrightarrow> path_clean (hdr_bytes ah f)"
  by (auto simp: path_state_def path_inv_clean split: if_splits)

lemma path_state_pendingI:
  assumes "path_state env f ah" "ah_nfrag ah = f \<Longrightarrow> path_inv u (hdr_bytes ah f @ [c])"
  shows "path_pending env f c (ah\<lparr>ah_ups := u\<rparr>)"
proof -
  have "hdr_bytes (ah\<lparr>ah_ups := u\<rparr>) f = hdr_bytes ah f" by (simp add: hdr_bytes_def)
  with assms path_state_clean [OF assms(1)] show ?thesis
    by (simp add: path_pending_def path_state_def tight_def split: if_splits)
qed

lemma path_pending_issue:
  assumes "env_ok env" "path_pending env f c ah" "c \<noteq> 0" "issue_char env c ah = Some (r, ah')"
  shows "r = 0 \<Longrightarrow> path_state env f ah'" "ah_wf env ah'"
proof -
  have wf: "ah_wf env ah" and f: "f \<le> ah_nfrag ah" and cl: "ah_nfrag ah \<noteq> f \<Longrightarrow> path_clean (hdr_bytes ah f)"
    using assms(2) by (auto simp: path_pending_def)
  note spec = assms(4) [unfolded issue_char_spec [OF assms(1) wf]]
  note k = issue_char_wf [OF assms(1) wf assms(4)]
  show "ah_wf env ah'" using k by simp
  show "path_state env f ah'" if r: "r = 0"
  proof -
    have room: "ah_pos ah < max_http_header_data env" and nl: "\<not> limited ah" and ah': "ah' = ah_push c ah"
      using spec r by (auto simp: hdr_full_def split: if_splits)
    show ?thesis
    proof (cases "ah_nfrag ah = f")
      case True
      then have "tight ah" "ah_frag_index ah ! WSI_TOKEN_HTTP_URI_ARGS = 0" "path_inv (ah_ups ah) (hdr_bytes ah f @ [c])"
        using assms(2) nl by (auto simp: path_pending_def)
      then show ?thesis using hdr_bytes_push_cur [OF wf _ room assms(3)] True k(1) unfolding ah' path_state_def by simp
    next
      case False
      then show ?thesis using hdr_bytes_push_other [OF wf f, of c] f cl k(1) unfolding ah' path_state_def by simp
    qed
  qed
qed

text \<open>Writing one of the dots that were held back.\<close>

lemma path_issue_dot:
  assumes "env_ok env" "ah_wf env ah" "f \<le> ah_nfrag ah" "ah_nfrag ah = f \<Longrightarrow> limited ah \<or> tight ah"
    and "c \<noteq> 0" "issue_char env c ah = Some (r, ah')" "0 \<le> r"
  shows "ah_wf env ah' \<and> ah_nfrag ah' = ah_nfrag ah \<and> ah_frag_index ah' = ah_frag_index ah \<and> ah_ups ah' = ah_ups ah \<and>
     (if ah_nfrag ah = f \<and> \<not> limited ah then tight ah' \<and> hdr_bytes ah' f = hdr_bytes ah f @ [c]
      else hdr_bytes ah' f = hdr_bytes ah f \<and> (limited ah \<longrightarrow> limited ah'))"
proof -
  note spec = assms(6) [unfolded issue_char_spec [OF assms(1,2)]]
  note k = issue_char_wf [OF assms(1,2,6)]
  have room: "ah_pos ah < max_http_header_data env" using spec assms(7) by (auto simp: hdr_full_def split: if_splits)
  have n: "ah_nfrag ah < length (ah_frags ah)" using ah_wfD(2,4) [OF assms(2)] by simp
  have lim: "hdr_bytes (ah_hit_limit ah) f = hdr_bytes ah f" "cur_frag (ah_hit_limit ah) = cur_frag ah"
    "ah_current_token_limit (ah_hit_limit ah) = ah_current_token_limit ah"
    using hdr_bytes_push_other [OF assms(2,3), of 0] ah_push_frag [OF n, of 0 "ah_nfrag ah"]
    by (simp_all add: ah_hit_limit_def) (simp add: ah_push_def)
  show ?thesis
  proof (cases "limited ah")
    case True
    then have "ah' = ah_hit_limit ah" using spec room by simp
    then show ?thesis using k lim True by auto
  next
    case False
    then have ah': "ah' = ah_push c ah" using spec room by auto
    show ?thesis
      using hdr_bytes_push_cur [OF assms(2) _ room assms(5)] hdr_bytes_push_other [OF assms(2,3), of c] False k assms(3,4)
      unfolding ah' by (cases "ah_nfrag ah = f") auto
  qed
qed

lemma path_state_ups:
  "path_state env f ah \<Longrightarrow> ah_ups ah \<noteq> URIPS_IDLE \<Longrightarrow> u \<noteq> URIPS_IDLE \<Longrightarrow> path_state env f (ah\<lparr>ah_ups := u\<rparr>)"
  by (auto simp: path_state_def tight_def hdr_bytes_def path_inv_def split: if_splits)

text \<open>Sealing the fragment and opening the next one.\<close>

lemma issue_zero_bytes:
  assumes "env_ok env" "ah_wf env ah" "issue_char env 0 ah = Some (r, ah')" "i \<le> ah_nfrag ah"
  shows "hdr_bytes ah' i = hdr_bytes ah i"
proof -
  have "ah' = ah \<or> ah' = ah_push 0 ah"
    using assms(3) unfolding issue_char_spec [OF assms(1,2)] by (auto simp: ah_hit_limit_def hdr_full_def split: if_splits)
  then show ?thesis using hdr_bytes_push_other [OF assms(2,4), of 0] by auto
qed

lemma path_next_fragment:
  assumes "env_ok env" "ah_wf env ah" "f \<le> ah_nfrag ah" "path_clean (hdr_bytes ah f)"
    and "uri_next_fragment env ah = Some (LPUR_SWALLOW, ah')"
  shows "path_state env f ah'"
proof -
  from assms(5) obtain q ah1 where q: "issue_char env 0 ah = Some (q, ah1)"
      "ah' = (uri_args_frag ah1)\<lparr>ah_post_literal_equal := False, ah_frags := (ah_frags (uri_args_frag ah1))
               [ah_nfrag ah := (cur_frag ah1)\<lparr>frag_nfrag := ah_nfrag ah + 1\<rparr>]\<rparr>" "ah_nfrag ah + 1 < WSI_TOKEN_COUNT"
    by (auto simp: uri_next_fragment_spec [OF assms(1,2)] split: option.splits if_splits)
  note k = issue_char_wf [OF assms(1,2) q(1)]
  have "hdr_bytes ah' f = hdr_bytes ah1 f"
    using q(2,3) k(3) assms(3) ah_wfD(2) [OF k(1)]
    by (cases "f = ah_nfrag ah") (auto simp: hdr_bytes_def uri_args_frag_def ah_open_def)
  moreover have "ah_nfrag ah' = ah_nfrag ah + 1" using q(2) k(3) by (simp add: uri_args_frag_def)
  ultimately show ?thesis
    using uri_next_fragment_wf(2) [OF assms(1,2,5)] issue_zero_bytes [OF assms(1,2) q(1) assms(3)] assms(3,4)
    by (simp add: path_state_def)
qed

lemma path_start_args:
  assumes "env_ok env" "ah_wf env ah" "f \<le> ah_nfrag ah" "path_clean (hdr_bytes ah f)"
    and "uri_start_args env ah = Some (LPUR_SWALLOW, ah')"
  shows "path_state env f ah'"
proof -
  from assms(5) obtain q ah1 where q: "issue_char env 0 ah = Some (q, ah1)"
      "ah' = (uri_args_frag ah1)\<lparr>ah_post_literal_equal := False,
            ah_frag_index := (ah_frag_index ah)[WSI_TOKEN_HTTP_URI_ARGS := ah_nfrag ah + 1], ah_ups := URIPS_IDLE\<rparr>"
      "ah_nfrag ah + 1 < WSI_TOKEN_COUNT"
    by (auto simp: uri_start_args_spec [OF assms(1,2)] split: option.splits if_splits)
  note k = issue_char_wf [OF assms(1,2) q(1)]
  have "hdr_bytes ah' f = hdr_bytes ah1 f"
    using q(2,3) k(3) assms(3) by (simp add: hdr_bytes_def uri_args_frag_def ah_open_def)
  moreover have "ah_nfrag ah' = ah_nfrag ah + 1" using q(2) k(3) by (simp add: uri_args_frag_def)
  ultimately show ?thesis
    using uri_start_args_wf(1) [OF assms(1,2,5)] issue_zero_bytes [OF assms(1,2) q(1) assms(3)] assms(3,4)
    by (simp add: path_state_def)
qed

lemma path_step_idle:
  assumes "env_ok env" "path_state env f ah" "c \<noteq> 0" "ah_ups ah = URIPS_IDLE" "uri_path_idle env enc c ah = Some (x, ah')"
  shows "x = Inl LPUR_SWALLOW \<Longrightarrow> path_state env f ah'" "x = Inr c' \<Longrightarrow> c' \<noteq> 0 \<and> path_pending env f c' ah'"
proof -
  have wf: "ah_wf env ah" "f \<le> ah_nfrag ah" using assms(2) by (auto simp: path_state_def)
  have "(x = Inl LPUR_SWALLOW \<longrightarrow> path_state env f ah') \<and> (\<forall>c'. x = Inr c' \<longrightarrow> c' \<noteq> 0 \<and> path_pending env f c' ah')"
  proof (cases "(c = ch CHR ''&'' \<or> c = ch CHR '';'') \<and> \<not> enc")
    case True
    then show ?thesis using assms(3,5) path_next_fragment [OF assms(1) wf path_state_clean [OF assms(2)]]
      by (auto simp: uri_path_idle_def)
  next
    case False
    let ?n = "ah_frag_index ah ! WSI_TOKEN_HTTP_URI_ARGS \<noteq> 0 \<and> \<not> ah_post_literal_equal ah"
    let ?u = "if c = ch CHR ''/'' \<and> ah_frag_index ah ! WSI_TOKEN_HTTP_URI_ARGS = 0 then URIPS_SEEN_SLASH else ah_ups ah"
    define ple where "ple = (c = ch CHR ''='' \<and> \<not> enc \<or> ah_post_literal_equal ah)"
    from uri_path_idle_spec [OF ah_wfD(3) [OF wf(1)] assms(3) False] assms(5)
    have x: "x = Inr (uri_idle_char enc ?n c)" "ah' = ah\<lparr>ah_post_literal_equal := ple, ah_ups := ?u\<rparr>"
      by (simp_all add: ple_def)
    have st: "path_state env f (ah\<lparr>ah_post_literal_equal := ple\<rparr>)"
      using assms(2) by (auto simp: path_state_def tight_def hdr_bytes_def split: if_splits)
    have "path_inv ?u (hdr_bytes (ah\<lparr>ah_post_literal_equal := ple\<rparr>) f @ [uri_idle_char enc ?n c])" if "ah_nfrag ah = f"
    proof -
      have "path_inv URIPS_IDLE (hdr_bytes ah f)" "ah_frag_index ah ! WSI_TOKEN_HTTP_URI_ARGS = 0"
        using assms(2,4) that by (auto simp: path_state_def)
      moreover have "uri_idle_char enc ?n (ch CHR ''/'') = ch CHR ''/''" by (simp add: uri_idle_char_def)
      ultimately show ?thesis using path_inv_idle [of "hdr_bytes ah f"] assms(4) uri_idle_char_slash [of enc ?n c]
        by (cases "c = ch CHR ''/''") (auto simp: hdr_bytes_def)
    qed
    from path_state_pendingI [OF st] this show ?thesis using uri_idle_char_nonzero [OF assms(3)] by (simp add: x)
  qed
  then show "x = Inl LPUR_SWALLOW \<Longrightarrow> path_state env f ah'" "x = Inr c' \<Longrightarrow> c' \<noteq> 0 \<and> path_pending env f c' ah'" by blast+
qed

lemma path_step_dot_dot:
  assumes "env_ok env" "path_state env f ah" "c \<noteq> 0" "ah_ups ah = URIPS_SEEN_SLASH_DOT_DOT"
    and "uri_path_dot_dot env c ah = Some (x, ah')"
  shows "x = Inl LPUR_SWALLOW \<Longrightarrow> path_state env f ah'" "x = Inr c' \<Longrightarrow> c' \<noteq> 0 \<and> path_pending env f c' ah'"
proof -
  have wf: "ah_wf env ah" "f \<le> ah_nfrag ah" using assms(2) by (auto simp: path_state_def)
  note cl = path_state_clean [OF assms(2)]
  let ?p = "hdr_bytes ah f"
  have cur: "tight ah" "path_inv URIPS_SEEN_SLASH_DOT_DOT ?p" "ah_frag_index ah ! WSI_TOKEN_HTTP_URI_ARGS = 0"
    if "ah_nfrag ah = f" using assms(2,4) that by (auto simp: path_state_def)
  have "(x = Inl LPUR_SWALLOW \<longrightarrow> path_state env f ah') \<and> (\<forall>c'. x = Inr c' \<longrightarrow> c' \<noteq> 0 \<and> path_pending env f c' ah')"
  proof (cases "c = ch CHR ''/'' \<or> c = ch CHR ''?''")
    case True
    obtain k where b: "uri_backup ah = Some (ah_shrink k ah)" "ah_wf env (ah_shrink k ah)"
      by (rule uri_backup_wf [OF assms(1) wf(1)])
    let ?a = "ah_shrink k ah"
    from True assms(5) b have ah': "ah' = ?a\<lparr>ah_ups := URIPS_SEEN_SLASH\<rparr>"
      and x: "x = (if 1 < frag_len (cur_frag ?a) then Inr c else Inl LPUR_SWALLOW)"
      by (auto simp: uri_path_dot_dot_def bind_eq_Some rd_eq_Some)
    have bytes: "hdr_bytes ah' f = hdr_bytes ?a f" by (simp add: ah' hdr_bytes_def)
    show ?thesis
    proof (cases "ah_nfrag ah = f")
      case cf: True
      note c = cur [OF cf]
      note bp = uri_backup_path [OF assms(1) wf(1) c(1) b(1), unfolded cf]
      note pb = path_back_inv [OF c(2) bp(1)]
      have "path_inv URIPS_SEEN_SLASH (hdr_bytes ?a f @ [c])" using pb(3,4) True by auto
      then show ?thesis using pb(1,2) bp(2,6) c(3) cf b(2) assms(3)
        unfolding path_state_def path_pending_def bytes x by (auto simp: ah' tight_def cf split: if_splits)
    next
      case False
      have "hdr_bytes ?a f = ?p" using hdr_bytes_shrink_other [OF wf(1)] wf(2) False by simp
      then show ?thesis using cl b(2) wf(2) False assms(3)
        unfolding path_state_def path_pending_def bytes x by (auto simp: ah' split: if_splits)
    qed
  next
    case False
    let ?d = "ch CHR ''.''"
    show ?thesis
    proof (cases "x = Inr c")
      case True
      with False assms(5) obtain q1 ah1 q2 ah2 where q: "issue_char env ?d ah = Some (q1, ah1)" "0 \<le> q1"
          "issue_char env ?d ah1 = Some (q2, ah2)" "0 \<le> q2" "ah' = ah2\<lparr>ah_ups := URIPS_IDLE\<rparr>"
        by (auto simp: uri_path_dot_dot_def bind_eq_Some split: if_splits)
      have d: "?d \<noteq> 0" by simp
      have i1: "ah_nfrag ah = f \<Longrightarrow> limited ah \<or> tight ah" using cur by blast
      note r1 = path_issue_dot [OF assms(1) wf i1 d q(1,2)]
      have i2: "ah_wf env ah1" "f \<le> ah_nfrag ah1" "ah_nfrag ah1 = f \<Longrightarrow> limited ah1 \<or> tight ah1"
        using r1 wf(2) by (auto split: if_splits)
      note r2 = path_issue_dot [OF assms(1) i2 d q(3,4)]
      have "path_pending env f c ah'"
      proof (cases "ah_nfrag ah = f \<and> \<not> limited ah2")
        case cf: True
        then have "hdr_bytes ah2 f = ?p @ [?d] @ [?d]" "tight ah2" using r1 r2 by (auto split: if_splits)
        moreover have "path_inv URIPS_IDLE (?p @ [?d] @ [?d] @ [c])"
          using path_inv_leave(3) [OF cur(2), of c] cf False by auto
        moreover have "hdr_bytes ah' f = hdr_bytes ah2 f" using q(5) by (simp add: hdr_bytes_def)
        ultimately show ?thesis using r1 r2 cf cur(3) wf(2) False q(5) unfolding path_pending_def by (auto simp: tight_def)
      next
        case ncf: False
        moreover have "hdr_bytes ah' f = hdr_bytes ah2 f" using q(5) by (simp add: hdr_bytes_def)
        ultimately show ?thesis using r1 r2 wf(2) False q(5) cl unfolding path_pending_def by auto
      qed
      then show ?thesis using True assms(3) by simp
    next
      case no: False
      then have "x \<noteq> Inl LPUR_SWALLOW" "\<forall>c'. x \<noteq> Inr c'" using False assms(5)
        by (auto simp: uri_path_dot_dot_def bind_eq_Some split: if_splits)
      then show ?thesis by blast
    qed
  qed
  then show "x = Inl LPUR_SWALLOW \<Longrightarrow> path_state env f ah'" "x = Inr c' \<Longrightarrow> c' \<noteq> 0 \<and> path_pending env f c' ah'" by blast+
qed


lemma path_step:
  assumes "env_ok env" "path_state env f ah" "c \<noteq> 0" "uri_path_step env enc c ah = Some (x, ah')"
  shows "x = Inl LPUR_SWALLOW \<Longrightarrow> path_state env f ah'" "x = Inr c' \<Longrightarrow> c' \<noteq> 0 \<and> path_pending env f c' ah'"
proof -
  have wf: "ah_wf env ah" "f \<le> ah_nfrag ah" using assms(2) by (auto simp: path_state_def)
  note cl = path_state_clean [OF assms(2)]
  let ?p = "hdr_bytes ah f" and ?d = "ch CHR ''.''"
  have cur: "tight ah" "path_inv (ah_ups ah) ?p" "ah_frag_index ah ! WSI_TOKEN_HTTP_URI_ARGS = 0"
    if "ah_nfrag ah = f" using assms(2) that by (auto simp: path_state_def)
  have "(x = Inl LPUR_SWALLOW \<longrightarrow> path_state env f ah') \<and> (\<forall>c'. x = Inr c' \<longrightarrow> c' \<noteq> 0 \<and> path_pending env f c' ah')"
  proof (cases "ah_ups ah")
    case URIPS_IDLE
    then have "uri_path_idle env enc c ah = Some (x, ah')" using assms(4) by (simp add: uri_path_step_def)
    from path_step_idle [OF assms(1-3) URIPS_IDLE this] show ?thesis by blast
  next
    case URIPS_SEEN_SLASH
    have "path_pending env f c (ah\<lparr>ah_ups := URIPS_IDLE\<rparr>)" if "c \<noteq> ch CHR ''/''" "c \<noteq> ?d"
      by (rule path_state_pendingI [OF assms(2)])
         (use path_inv_leave(1) [OF cur(2)] that URIPS_SEEN_SLASH in auto)
    then show ?thesis using assms URIPS_SEEN_SLASH path_state_ups [OF assms(2)]
      by (auto simp: uri_path_step_def split: if_splits)
  next
    case URIPS_SEEN_SLASH_DOT
    show ?thesis
    proof (cases "c = ?d \<or> c = ch CHR ''/'' \<or> x = Inl LPUR_FAIL")
      case True
      then show ?thesis using assms URIPS_SEEN_SLASH_DOT path_state_ups [OF assms(2)]
        by (auto simp: uri_path_step_def bind_eq_Some split: if_splits)
    next
      case False
      let ?a = "ah\<lparr>ah_ups := URIPS_IDLE\<rparr>"
      from False URIPS_SEEN_SLASH_DOT assms(4) obtain q where
        q: "issue_char env ?d ?a = Some (q, ah')" "0 \<le> q" and x: "x = Inr c"
        by (auto simp: uri_path_step_def bind_eq_Some split: if_splits)
      have a: "ah_wf env ?a" "f \<le> ah_nfrag ?a" "ah_nfrag ?a = f \<Longrightarrow> limited ?a \<or> tight ?a" "?d \<noteq> 0"
        using wf cur(1) by (auto simp: tight_def)
      note r = path_issue_dot [OF assms(1) a q]
      have b: "hdr_bytes ?a f = ?p" by (simp add: hdr_bytes_def)
      have lv: "path_inv URIPS_IDLE (?p @ [?d] @ [c])" "path_clean (?p @ [?d])" if "ah_nfrag ah = f"
        using path_inv_leave(2,4) [OF cur(2), of c] that False URIPS_SEEN_SLASH_DOT by auto
      have "path_pending env f c ah'"
        using r b lv cl wf(2) cur(3) unfolding path_pending_def by (auto split: if_splits)
      then show ?thesis using x assms(3) by simp
    qed
  next
    case URIPS_SEEN_SLASH_DOT_DOT
    then have "uri_path_dot_dot env c ah = Some (x, ah')" using assms(4) by (simp add: uri_path_step_def)
    from path_step_dot_dot [OF assms(1-3) URIPS_SEEN_SLASH_DOT_DOT this] show ?thesis by blast
  qed
  then show "x = Inl LPUR_SWALLOW \<Longrightarrow> path_state env f ah'" "x = Inr c' \<Longrightarrow> c' \<noteq> 0 \<and> path_pending env f c' ah'" by blast+
qed

lemma path_urldecode:
  assumes "env_ok env" "path_state env f ah" "lws_parse_urldecode env c ah = Some (r, c', ah')"
    and nz: "\<And>enc d ah1. uri_unescape c ah = (Inr (enc, d), ah1) \<Longrightarrow> d \<noteq> 0"
  shows "r = LPUR_SWALLOW \<Longrightarrow> path_state env f ah'" "r = LPUR_CONTINUE \<Longrightarrow> c' \<noteq> 0 \<and> path_pending env f c' ah'"
proof -
  obtain x ah1 where u: "uri_unescape c ah = (x, ah1)" by fastforce
  note k1 = uri_unescape_keeps [OF _ u, of env]
  have st: "path_state env f ah1"
    using assms(2) k1 by (auto simp: path_state_def tight_def hdr_bytes_def split: if_splits)
  have "(r = LPUR_SWALLOW \<longrightarrow> path_state env f ah') \<and> (r = LPUR_CONTINUE \<longrightarrow> c' \<noteq> 0 \<and> path_pending env f c' ah')"
  proof (cases x)
    case (Inl q)
    then show ?thesis using assms(3) st k1 assms(2) by (auto simp: lws_parse_urldecode_def u path_state_def)
  next
    case (Inr ec)
    obtain enc d where ec: "ec = (enc, d)" by (cases ec)
    have d: "d \<noteq> 0" using nz u Inr ec by simp
    from assms(3) obtain y ah2 where y: "uri_path_step env enc d ah1 = Some (y, ah2)"
      by (auto simp: lws_parse_urldecode_def u Inr ec bind_eq_Some)
    note ps = path_step [OF assms(1) st d y]
    show ?thesis
    proof (cases y)
      case (Inl q)
      then show ?thesis using assms(3) ps uri_path_step_keeps [OF assms(1) _ y] st
        by (auto simp: lws_parse_urldecode_def u Inr ec y path_state_def)
    next
      case in2: (Inr d2)
      have pend: "d2 \<noteq> 0" "path_pending env f d2 ah2" using ps in2 by auto
      then have wf2: "ah_wf env ah2" "f \<le> ah_nfrag ah2" by (auto simp: path_pending_def)
      show ?thesis
      proof (cases "d2 = ch CHR ''?'' \<and> \<not> enc \<and> ah_frag_index ah2 ! WSI_TOKEN_HTTP_URI_ARGS = 0")
        case True
        then have "uri_start_args env ah2 = Some (r, ah')" using assms(3) y
          by (auto simp: lws_parse_urldecode_def u Inr ec in2 bind_eq_Some rd_eq_Some)
        moreover have "path_clean (hdr_bytes ah2 f)" using pend True by (auto simp: path_pending_def)
        ultimately show ?thesis
          using path_start_args [OF assms(1) wf2] uri_start_args_wf(2) [OF assms(1) wf2(1)] by auto
      next
        case False
        then show ?thesis using assms(3) pend
          by (auto simp: lws_parse_urldecode_def u Inr ec y in2 bind_eq_Some rd_eq_Some split: if_splits)
      qed
    qed
  qed
  then show "r = LPUR_SWALLOW \<Longrightarrow> path_state env f ah'" "r = LPUR_CONTINUE \<Longrightarrow> c' \<noteq> 0 \<and> path_pending env f c' ah'" by blast+
qed

end
