(* ===== verification/Lextable.thy ===== *)
theory Lextable
  imports Lws_Prelude
begin

text \<open>
  The header name recogniser of the HTTP parser: the byte table of \<open>lib/roles/http/lextable.h\<close>, the
  loop of \<open>lws_parse\<close> (\<open>lib/roles/http/server/parsers.c\<close>) that advances \<open>lextable_pos\<close> by one
  character, and the list of header names of \<open>lib/roles/http/lextable-strings.h\<close> that the table was
  made from. The table is cut into rows of 64 bytes so that a position can be looked up quickly.
  The main result is that the table accepts exactly those names.
\<close>

subsection \<open>The table\<close>

definition lextable_00 :: "u8 list" where
  "lextable_00 =
     [0x67, 0x40, 0x00, 0x70, 0x42, 0x00, 0x6f, 0x51, 0x00, 0x68, 0x5d, 0x00, 0x63, 0x69, 0x00, 0x75,
      0x8a, 0x00, 0x73, 0xa0, 0x00, 0x0d, 0xd9, 0x00, 0x61, 0x31, 0x01, 0x69, 0x70, 0x01, 0x64, 0x19,
      0x02, 0x72, 0x22, 0x02, 0x3a, 0x56, 0x02, 0x65, 0xe8, 0x02, 0x66, 0x04, 0x03, 0x6c, 0x26, 0x03,
      0x6d, 0x49, 0x03, 0x74, 0xb8, 0x03, 0x76, 0xd9, 0x03, 0x77, 0xe6, 0x03, 0x78, 0x0d, 0x04, 0x08]"

definition lextable_01 :: "u8 list" where
  "lextable_01 =
     [0xe5, 0xf4, 0xa0, 0x00, 0x00, 0x6f, 0x0d, 0x00, 0x72, 0x95, 0x01, 0x61, 0xe6, 0x03, 0x75, 0xe8,
      0x03, 0x08, 0xf3, 0xf4, 0xa0, 0x00, 0x01, 0x70, 0x07, 0x00, 0x72, 0x51, 0x00, 0x08, 0xf4, 0xe9,
      0xef, 0xee, 0xf3, 0xa0, 0x00, 0x02, 0x6f, 0x0a, 0x00, 0x74, 0xbf, 0x00, 0x65, 0x04, 0x04, 0x08,
      0xf3, 0xf4, 0xba, 0x00, 0x03, 0x6f, 0x07, 0x00, 0x61, 0x72, 0x01, 0x08, 0x6e, 0x07, 0x00, 0x6f]"

definition lextable_02 :: "u8 list" where
  "lextable_02 =
     [0x87, 0x01, 0x08, 0x6e, 0x07, 0x00, 0x74, 0x86, 0x01, 0x08, 0xe5, 0xe3, 0xf4, 0x69, 0x07, 0x00,
      0x20, 0xde, 0x03, 0x08, 0xef, 0xee, 0xba, 0x00, 0x04, 0x70, 0x0a, 0x00, 0x73, 0x68, 0x03, 0x72,
      0xa0, 0x03, 0x08, 0xe7, 0xf2, 0xe1, 0xe4, 0xe5, 0xba, 0x00, 0x05, 0xe9, 0xe7, 0xe9, 0xee, 0xba,
      0x00, 0x06, 0x65, 0x07, 0x00, 0x74, 0x1c, 0x03, 0x08, 0x63, 0x0a, 0x00, 0x72, 0x05, 0x03, 0x74]"

definition lextable_03 :: "u8 list" where
  "lextable_03 =
     [0x08, 0x03, 0x08, 0xad, 0xf7, 0xe5, 0xe2, 0xf3, 0xef, 0xe3, 0xeb, 0xe5, 0xf4, 0xad, 0x64, 0x19,
      0x00, 0x65, 0x20, 0x00, 0x6b, 0x29, 0x00, 0x70, 0x38, 0x00, 0x61, 0x3f, 0x00, 0x6e, 0x44, 0x00,
      0x76, 0x89, 0x01, 0x6f, 0x8f, 0x01, 0x08, 0xf2, 0xe1, 0xe6, 0xf4, 0xba, 0x00, 0x07, 0x8a, 0x00,
      0x08, 0xf8, 0xf4, 0xe5, 0xee, 0xf3, 0xe9, 0xef, 0xee, 0xf3, 0xba, 0x00, 0x09, 0xe5, 0xf9, 0x31]"

definition lextable_04 :: "u8 list" where
  "lextable_04 =
     [0x0a, 0x00, 0x32, 0x0a, 0x00, 0x3a, 0x62, 0x01, 0x08, 0xba, 0x00, 0x0a, 0xba, 0x00, 0x0b, 0xf2,
      0xef, 0xf4, 0xef, 0xe3, 0xef, 0xec, 0xba, 0x00, 0x0c, 0xe3, 0xe3, 0xe5, 0xf0, 0xf4, 0xba, 0x00,
      0x0d, 0xef, 0xee, 0xe3, 0xe5, 0xba, 0x00, 0x0e, 0xf4, 0xf0, 0x2f, 0x07, 0x00, 0x32, 0x10, 0x00,
      0x08, 0xb1, 0xae, 0x31, 0x07, 0x00, 0x30, 0x27, 0x03, 0x08, 0xa0, 0x00, 0x0f, 0xad, 0xf3, 0xe5]"

definition lextable_05 :: "u8 list" where
  "lextable_05 =
     [0xf4, 0xf4, 0xe9, 0xee, 0xe7, 0xf3, 0xba, 0x00, 0x10, 0x63, 0x0d, 0x00, 0x75, 0xac, 0x00, 0x67,
      0x86, 0x01, 0x6c, 0x87, 0x01, 0x08, 0xe3, 0xe5, 0x70, 0x07, 0x00, 0x73, 0x0e, 0x00, 0x08, 0xf4,
      0x3a, 0x07, 0x00, 0x2d, 0x59, 0x00, 0x08, 0x00, 0x11, 0xf3, 0xad, 0xe3, 0xef, 0xee, 0xf4, 0xf2,
      0xef, 0xec, 0xad, 0x72, 0x07, 0x00, 0x61, 0x51, 0x01, 0x08, 0xe5, 0xf1, 0xf5, 0xe5, 0xf3, 0xf4]"

definition lextable_06 :: "u8 list" where
  "lextable_06 =
     [0xad, 0xe8, 0xe5, 0xe1, 0xe4, 0xe5, 0xf2, 0xf3, 0xba, 0x00, 0x12, 0xe6, 0xad, 0x6d, 0x0d, 0x00,
      0x6e, 0x20, 0x00, 0x72, 0xa7, 0x01, 0x75, 0xab, 0x01, 0x08, 0x6f, 0x07, 0x00, 0x61, 0x97, 0x01,
      0x08, 0xe4, 0xe9, 0xe6, 0xe9, 0xe5, 0xe4, 0xad, 0xf3, 0xe9, 0xee, 0xe3, 0xe5, 0xba, 0x00, 0x13,
      0xef, 0xee, 0xe5, 0xad, 0xed, 0xe1, 0xf4, 0xe3, 0xe8, 0xba, 0x00, 0x14, 0x65, 0x0d, 0x00, 0x6c]"

definition lextable_07 :: "u8 list" where
  "lextable_07 =
     [0x14, 0x00, 0x63, 0xf4, 0x00, 0x72, 0xfa, 0x00, 0x08, 0xee, 0xe3, 0xef, 0xe4, 0xe9, 0xee, 0xe7,
      0xba, 0x00, 0x15, 0xe1, 0xee, 0xe7, 0xf5, 0xe1, 0xe7, 0xe5, 0xba, 0x00, 0x16, 0x61, 0x07, 0x00,
      0x6f, 0xa7, 0x01, 0x08, 0xe7, 0xed, 0xe1, 0xba, 0x00, 0x17, 0xe3, 0xe8, 0xe5, 0xad, 0xe3, 0xef,
      0xee, 0xf4, 0xf2, 0xef, 0xec, 0xba, 0x00, 0x18, 0xf4, 0xe8, 0xef, 0xf2, 0xe9, 0xfa, 0xe1, 0xf4]"

definition lextable_08 :: "u8 list" where
  "lextable_08 =
     [0xe9, 0xef, 0xee, 0xba, 0x00, 0x19, 0xeb, 0xe9, 0xe5, 0xba, 0x00, 0x1a, 0xe5, 0xee, 0xf4, 0xad,
      0x6c, 0x10, 0x00, 0x74, 0x1e, 0x00, 0x64, 0xc9, 0x00, 0x65, 0xd3, 0x00, 0x72, 0xec, 0x00, 0x08,
      0x65, 0x0a, 0x00, 0x61, 0xd3, 0x00, 0x6f, 0xd9, 0x00, 0x08, 0xee, 0xe7, 0xf4, 0xe8, 0xba, 0x00,
      0x1b, 0xf9, 0xf0, 0xe5, 0xba, 0x00, 0x1c, 0x61, 0x07, 0x00, 0x65, 0xff, 0x01, 0x08, 0xf4, 0xe5]"

definition lextable_09 :: "u8 list" where
  "lextable_09 =
     [0xba, 0x00, 0x1d, 0x61, 0x07, 0x00, 0x65, 0x0a, 0x00, 0x08, 0xee, 0xe7, 0xe5, 0xba, 0x00, 0x1e,
      0x66, 0x0a, 0x00, 0x74, 0x63, 0x01, 0x70, 0x22, 0x02, 0x08, 0x65, 0x07, 0x00, 0x72, 0x53, 0x01,
      0x08, 0xf2, 0xe5, 0xf2, 0xba, 0x00, 0x1f, 0x00, 0x20, 0xe5, 0xf2, 0xf3, 0xe9, 0xef, 0xee, 0xba,
      0x00, 0x21, 0xf2, 0xe9, 0xe7, 0xe9, 0xee, 0xba, 0x00, 0x22, 0x61, 0x0d, 0x00, 0x6d, 0x14, 0x00]"

definition lextable_10 :: "u8 list" where
  "lextable_10 =
     [0x70, 0x18, 0x00, 0x73, 0x20, 0x00, 0x08, 0xf5, 0xf4, 0xe8, 0xef, 0xf2, 0xe9, 0xf4, 0xf9, 0x00,
      0x23, 0xe5, 0xf4, 0xe8, 0xef, 0xe4, 0x00, 0x24, 0x61, 0x07, 0x00, 0x72, 0xe9, 0x01, 0x08, 0xf4,
      0xe8, 0x00, 0x25, 0x63, 0x07, 0x00, 0x74, 0x0a, 0x00, 0x08, 0xe8, 0xe5, 0xed, 0xe5, 0x00, 0x26,
      0xe1, 0xf4, 0xf5, 0xf3, 0x00, 0x27, 0xe8, 0xe1, 0xf2, 0xf3, 0xe5, 0xf4, 0xba, 0x00, 0x28, 0xe1]"

definition lextable_11 :: "u8 list" where
  "lextable_11 =
     [0xee, 0xe7, 0xe5, 0xf3, 0xba, 0x00, 0x29, 0xec, 0xec, 0xef, 0xf7, 0xad, 0xef, 0xf2, 0xe9, 0xe7,
      0xe9, 0xee, 0xba, 0x00, 0x2a, 0xe5, 0xba, 0x00, 0x2b, 0xec, 0xef, 0xf7, 0xba, 0x00, 0x2c, 0xe9,
      0xf3, 0xf0, 0xef, 0xf3, 0xe9, 0xf4, 0xe9, 0xef, 0xee, 0xba, 0x00, 0x2d, 0xee, 0xe3, 0xef, 0xe4,
      0xe9, 0xee, 0xe7, 0xba, 0x00, 0x2e, 0xee, 0xe7, 0xf5, 0xe1, 0xe7, 0xe5, 0xba, 0x00, 0x2f, 0xe3]"

definition lextable_12 :: "u8 list" where
  "lextable_12 =
     [0xe1, 0xf4, 0xe9, 0xef, 0xee, 0xba, 0x00, 0x30, 0xe1, 0xee, 0xe7, 0xe5, 0xba, 0x00, 0x31, 0x74,
      0x07, 0x00, 0x78, 0x09, 0x00, 0x08, 0xe1, 0xe7, 0xba, 0x00, 0x32, 0xf0, 0x65, 0x07, 0x00, 0x69,
      0x09, 0x00, 0x08, 0xe3, 0xf4, 0xba, 0x00, 0x33, 0xf2, 0xe5, 0xf3, 0xba, 0x00, 0x34, 0xf2, 0xef,
      0xed, 0xba, 0x00, 0x35, 0xf4, 0xe3, 0xe8, 0xba, 0x00, 0x36, 0xe1, 0xee, 0xe7, 0xe5, 0xba, 0x00]"

definition lextable_13 :: "u8 list" where
  "lextable_13 =
     [0x37, 0xee, 0xed, 0xef, 0xe4, 0xe9, 0xe6, 0xe9, 0xe5, 0xe4, 0xad, 0xf3, 0xe9, 0xee, 0xe3, 0xe5,
      0xba, 0x00, 0x38, 0x61, 0x0a, 0x00, 0x69, 0x15, 0x00, 0x6f, 0x17, 0x00, 0x08, 0xf3, 0xf4, 0xad,
      0xed, 0xef, 0xe4, 0xe9, 0xe6, 0xe9, 0xe5, 0xe4, 0xba, 0x00, 0x39, 0xee, 0xeb, 0xba, 0x00, 0x3a,
      0xe3, 0xe1, 0xf4, 0xe9, 0xef, 0xee, 0xba, 0x00, 0x3b, 0xe1, 0xf8, 0xad, 0xe6, 0xef, 0xf2, 0xf7]"

definition lextable_14 :: "u8 list" where
  "lextable_14 =
     [0xe1, 0xf2, 0xe4, 0xf3, 0xba, 0x00, 0x3c, 0xf8, 0xf9, 0x2d, 0x07, 0x00, 0x20, 0xbb, 0x00, 0x08,
      0xe1, 0xf5, 0xf4, 0xe8, 0x65, 0x07, 0x00, 0x6f, 0x0e, 0x00, 0x08, 0xee, 0xf4, 0xe9, 0xe3, 0xe1,
      0xf4, 0xe5, 0xba, 0x00, 0x3d, 0xf2, 0xe9, 0xfa, 0xe1, 0xf4, 0xe9, 0xef, 0xee, 0xba, 0x00, 0x3e,
      0xe5, 0xf3, 0xe8, 0xba, 0x00, 0x3f, 0xf2, 0xf9, 0xad, 0xe1, 0xe6, 0xf4, 0xe5, 0xf2, 0xba, 0x00]"

definition lextable_15 :: "u8 list" where
  "lextable_15 =
     [0x40, 0xf6, 0xe5, 0xf2, 0xba, 0x00, 0x41, 0xad, 0xe3, 0xef, 0xef, 0xeb, 0xe9, 0xe5, 0xba, 0x00,
      0x42, 0xf2, 0xe9, 0xe3, 0xf4, 0xad, 0xf4, 0xf2, 0xe1, 0xee, 0xf3, 0xf0, 0xef, 0xf2, 0xf4, 0xad,
      0xf3, 0xe5, 0xe3, 0xf5, 0xf2, 0xe9, 0xf4, 0xf9, 0xba, 0x00, 0x43, 0x72, 0x07, 0x00, 0x65, 0x87,
      0x00, 0x08, 0xe1, 0xee, 0xf3, 0xe6, 0xe5, 0xf2, 0xad, 0xe5, 0xee, 0xe3, 0xef, 0xe4, 0xe9, 0xee]"

definition lextable_16 :: "u8 list" where
  "lextable_16 =
     [0xe7, 0xba, 0x00, 0x44, 0xe5, 0xf2, 0xad, 0xe1, 0xe7, 0xe5, 0xee, 0xf4, 0xba, 0x00, 0x45, 0x61,
      0x07, 0x00, 0x69, 0x09, 0x00, 0x08, 0xf2, 0xf9, 0xba, 0x00, 0x46, 0xe1, 0xba, 0x00, 0x47, 0xf7,
      0xf7, 0xad, 0xe1, 0xf5, 0xf4, 0xe8, 0xe5, 0xee, 0xf4, 0xe9, 0xe3, 0xe1, 0xf4, 0xe5, 0xba, 0x00,
      0x48, 0xf4, 0xe3, 0xe8, 0x00, 0x49, 0xf4, 0x00, 0x4a, 0xec, 0xe5, 0xf4, 0xe5, 0x00, 0x4b, 0xe9]"

definition lextable_17 :: "u8 list" where
  "lextable_17 =
     [0xad, 0xe1, 0xf2, 0xe7, 0xf3, 0x00, 0x4c, 0x00, 0x4d, 0xad, 0x72, 0x0a, 0x00, 0x66, 0x13, 0x00,
      0x61, 0x3c, 0x00, 0x08, 0xe5, 0xe1, 0xec, 0xad, 0xe9, 0xf0, 0xba, 0x00, 0x4e, 0xa0, 0x00, 0x4f,
      0xef, 0xf2, 0xf7, 0xe1, 0xf2, 0xe4, 0xe5, 0xe4, 0xad, 0xe6, 0xef, 0xf2, 0x00, 0x50, 0x00, 0x51,
      0xe1, 0xe4, 0xa0, 0x00, 0x52, 0xba, 0x00, 0x53, 0xec, 0xe1, 0xf9, 0xad, 0xee, 0xef, 0xee, 0xe3]"

definition lextable_18 :: "u8 list" where
  "lextable_18 =
     [0xe5, 0xba, 0x00, 0x54, 0xef, 0xf4, 0xef, 0xe3, 0xef, 0xec, 0x00, 0x55, 0xf5, 0xf4, 0xe8, 0xad,
      0xf4, 0xef, 0xeb, 0xe5, 0xee, 0xba, 0x00, 0x56]"

definition lextable_rows :: "u8 list list" where
  "lextable_rows =
     [lextable_00, lextable_01, lextable_02, lextable_03, lextable_04, lextable_05,
      lextable_06, lextable_07, lextable_08, lextable_09, lextable_10, lextable_11,
      lextable_12, lextable_13, lextable_14, lextable_15, lextable_16, lextable_17,
      lextable_18]"

definition lextable :: "u8 list" where
  "lextable = concat lextable_rows"

definition FAIL_CHAR :: u8 where
  "FAIL_CHAR = 0x08"

definition lex :: "nat \<Rightarrow> u8 option" where
  \<comment> \<open>\<open>lextable[pos]\<close>\<close>
  "lex pos = rd lextable pos"

definition int16_of :: "nat \<Rightarrow> int" where
  \<comment> \<open>storing an \<open>int\<close> in the \<open>int16_t lextable_pos\<close>\<close>
  "int16_of n = (let m = n mod 2 ^ 16 in if m < 2 ^ 15 then int m else int m - 2 ^ 16)"

lemmas lextable_row_defs =
  lextable_00_def lextable_01_def lextable_02_def lextable_03_def lextable_04_def
  lextable_05_def lextable_06_def lextable_07_def lextable_08_def lextable_09_def
  lextable_10_def lextable_11_def lextable_12_def lextable_13_def lextable_14_def
  lextable_15_def lextable_16_def lextable_17_def lextable_18_def

lemma length_lextable: "length lextable = 1176"
  by (simp add: lextable_def lextable_rows_def lextable_row_defs)

lemma lex_bound: "lex pos = Some b \<Longrightarrow> pos < 1176"
  by (simp add: lex_def rd_eq_Some length_lextable)

text \<open>One character against the table: the new \<open>lextable_pos\<close>, \<open>-1\<close> when no name goes on with it.\<close>

function lextable_walk :: "nat \<Rightarrow> u8 \<Rightarrow> int option" where
  "lextable_walk pos c = do {
     b \<leftarrow> lex pos;
     if b AND 0x80 \<noteq> 0 then
       (if b AND 0x7f \<noteq> c then Some (- 1)
        else do {
          b' \<leftarrow> lex (pos + 1);
          Some (if b' = FAIL_CHAR then - 1 else int16_of (pos + 1))
        })
     else if b = FAIL_CHAR then Some (- 1)
     else if b < FAIL_CHAR then Some (int16_of pos)
     else if b = c then do {
       lo \<leftarrow> lex (pos + 1);
       hi \<leftarrow> lex (pos + 2);
       Some (int16_of (pos + unat lo + unat hi * 256))
     }
     else lextable_walk (pos + 3) c
   }"
  by pat_completeness auto
termination
  by (relation "measure (\<lambda>(pos, _). 1176 - pos)") (auto dest: lex_bound)

declare lextable_walk.simps [simp del]

definition lex_terminal :: "nat \<Rightarrow> nat option option" where
  \<comment> \<open>the token number when \<open>lextable_pos\<close> stands on a terminal marker\<close>
  "lex_terminal pos = do {
     b \<leftarrow> lex pos;
     if b < FAIL_CHAR then do { lo \<leftarrow> lex (pos + 1); Some (Some (unat b * 256 + unat lo)) }
     else Some None
   }"


subsection \<open>The names\<close>

definition token_names :: "u8 list list" where
  "token_names =
     [bytes_of ''get '', bytes_of ''post '', bytes_of ''options '', bytes_of ''host:'',
      bytes_of ''connection:'', bytes_of ''upgrade:'', bytes_of ''origin:'',
      bytes_of ''sec-websocket-draft:'', [0x0d, 0x0a], bytes_of ''sec-websocket-extensions:'',
      bytes_of ''sec-websocket-key1:'', bytes_of ''sec-websocket-key2:'',
      bytes_of ''sec-websocket-protocol:'', bytes_of ''sec-websocket-accept:'',
      bytes_of ''sec-websocket-nonce:'', bytes_of ''http/1.1 '', bytes_of ''http2-settings:'',
      bytes_of ''accept:'', bytes_of ''access-control-request-headers:'',
      bytes_of ''if-modified-since:'', bytes_of ''if-none-match:'',
      bytes_of ''accept-encoding:'', bytes_of ''accept-language:'', bytes_of ''pragma:'',
      bytes_of ''cache-control:'', bytes_of ''authorization:'', bytes_of ''cookie:'',
      bytes_of ''content-length:'', bytes_of ''content-type:'', bytes_of ''date:'',
      bytes_of ''range:'', bytes_of ''referer:'', bytes_of ''sec-websocket-key:'',
      bytes_of ''sec-websocket-version:'', bytes_of ''sec-websocket-origin:'',
      bytes_of '':authority'', bytes_of '':method'', bytes_of '':path'', bytes_of '':scheme'',
      bytes_of '':status'', bytes_of ''accept-charset:'', bytes_of ''accept-ranges:'',
      bytes_of ''access-control-allow-origin:'', bytes_of ''age:'', bytes_of ''allow:'',
      bytes_of ''content-disposition:'', bytes_of ''content-encoding:'',
      bytes_of ''content-language:'', bytes_of ''content-location:'',
      bytes_of ''content-range:'', bytes_of ''etag:'', bytes_of ''expect:'',
      bytes_of ''expires:'', bytes_of ''from:'', bytes_of ''if-match:'',
      bytes_of ''if-range:'', bytes_of ''if-unmodified-since:'', bytes_of ''last-modified:'',
      bytes_of ''link:'', bytes_of ''location:'', bytes_of ''max-forwards:'',
      bytes_of ''proxy-authenticate:'', bytes_of ''proxy-authorization:'',
      bytes_of ''refresh:'', bytes_of ''retry-after:'', bytes_of ''server:'',
      bytes_of ''set-cookie:'', bytes_of ''strict-transport-security:'',
      bytes_of ''transfer-encoding:'', bytes_of ''user-agent:'', bytes_of ''vary:'',
      bytes_of ''via:'', bytes_of ''www-authenticate:'', bytes_of ''patch'', bytes_of ''put'',
      bytes_of ''delete'', bytes_of ''uri-args'', bytes_of ''proxy '', bytes_of ''x-real-ip:'',
      bytes_of ''http/1.0 '', bytes_of ''x-forwarded-for'', bytes_of ''connect '',
      bytes_of ''head '', bytes_of ''te:'', bytes_of ''replay-nonce:'', bytes_of '':protocol'',
      bytes_of ''x-auth-token:'']"

text \<open>Feeding a whole word to the table; the result is the token it ends on. \<open>ent\<close> tells that the
  position was just entered, so that it is looked at for a terminal marker.\<close>

function lex_word :: "bool \<Rightarrow> nat \<Rightarrow> u8 list \<Rightarrow> nat option" where
  "lex_word True pos w =
     (case lex_terminal pos of
        None \<Rightarrow> None
      | Some (Some n) \<Rightarrow> if w = [] then Some n else None
      | Some None \<Rightarrow> lex_word False pos w)"
| "lex_word False pos [] = None"
| "lex_word False pos (c # w) =
     (case lextable_walk pos c of
        None \<Rightarrow> None
      | Some p \<Rightarrow> if p < 0 then None else lex_word True (nat p) w)"
  by pat_completeness auto
termination
  by (relation "measure (\<lambda>(ent, _, w). 2 * length w + (if ent then 1 else 0))") auto

text \<open>All words the table accepts from a position, with their token numbers, and the first characters of
  these words. \<open>None\<close> when the table is malformed there or the fuel \<open>k\<close> is too small.\<close>

fun lex_paths :: "nat \<Rightarrow> bool \<Rightarrow> nat \<Rightarrow> ((u8 list \<times> nat) list \<times> u8 list) option" where
  "lex_paths 0 ent pos = None"
| "lex_paths (Suc k) ent pos =
     (case lex pos of
        None \<Rightarrow> None
      | Some b \<Rightarrow>
          if b AND 0x80 \<noteq> 0 then
            (case (lex (pos + 1), lex_paths k True (pos + 1)) of
               (Some b', Some (ps, _)) \<Rightarrow>
                 if b' = FAIL_CHAR then None
                 else Some (map (apfst ((#) (b AND 0x7f))) ps, [b AND 0x7f])
             | _ \<Rightarrow> None)
          else if b = FAIL_CHAR then Some ([], [])
          else if b < FAIL_CHAR then
            (if ent then map_option (\<lambda>lo. ([([], unat b * 256 + unat lo)], [])) (lex (pos + 1)) else None)
          else
            (case (lex (pos + 1), lex (pos + 2)) of
               (Some lo, Some hi) \<Rightarrow>
                 (case (lex_paths k True (pos + unat lo + unat hi * 256), lex_paths k False (pos + 3)) of
                    (Some (ps, _), Some (qs, fs)) \<Rightarrow>
                      if b \<in> set fs then None else Some (map (apfst ((#) b)) ps @ qs, b # fs)
                  | _ \<Rightarrow> None)
             | _ \<Rightarrow> None))"


subsection \<open>Looking up a position\<close>

lemma nth_concat_rows:
  assumes "0 < k" "\<forall>r \<in> set rows. length r \<le> k" "\<forall>r \<in> set (butlast rows). length r = k" "n < length (concat rows)"
  shows "concat rows ! n = rows ! (n div k) ! (n mod k)"
  using assms
proof (induction rows arbitrary: n)
  case (Cons r rows)
  show ?case
  proof (cases "n < length r")
    case True
    then have "n < k" using Cons.prems by fastforce
    with True show ?thesis by (simp add: nth_append)
  next
    case False
    with Cons.prems have ne: "rows \<noteq> []" by auto
    then have r: "length r = k" using Cons.prems by (simp split: if_splits)
    have d: "n div k = Suc ((n - k) div k)" "n mod k = (n - k) mod k"
      using False r assms(1) by (simp_all add: le_div_geq le_mod_geq)
    have "concat rows ! (n - k) = rows ! ((n - k) div k) ! ((n - k) mod k)"
      by (rule Cons.IH) (use Cons.prems ne False r in auto)
    then show ?thesis using False r by (simp add: nth_append d)
  qed
qed simp

lemma lex_row: "lex n = (if n < 1176 then Some (lextable_rows ! (n div 64) ! (n mod 64)) else None)"
proof (cases "n < 1176")
  case True
  have "lextable ! n = lextable_rows ! (n div 64) ! (n mod 64)" unfolding lextable_def
    by (rule nth_concat_rows)
      (use True length_lextable in \<open>simp_all add: lextable_def, simp_all add: lextable_rows_def lextable_row_defs\<close>)
  with True show ?thesis by (simp add: lex_def rd_Some length_lextable)
qed (simp add: lex_def rd_None length_lextable)



primrec lex_from :: "nat \<Rightarrow> u8 list \<Rightarrow> bool" where
  "lex_from i [] \<longleftrightarrow> True"
| "lex_from i (b # bs) \<longleftrightarrow> lex i = Some b \<and> lex_from (i + 1) bs"

lemma lex_from_nth: "lex_from i bs \<longleftrightarrow> (\<forall>j < length bs. lex (i + j) = Some (bs ! j))"
proof (induction bs arbitrary: i)
  case (Cons b bs)
  then show ?case by (auto simp: All_less_Suc2)
qed simp

lemma lex_from_row: "k < 19 \<Longrightarrow> lex_from (64 * k) (lextable_rows ! k)"
proof -
  assume k: "k < 19"
  have len: "k < length lextable_rows" using k by (simp add: lextable_rows_def)
  have "\<forall>r \<in> set lextable_rows. length r \<le> 64" by (simp add: lextable_rows_def lextable_row_defs)
  moreover have "64 * 18 + length (lextable_rows ! 18) = 1176" by (simp add: lextable_rows_def lextable_row_defs)
  ultimately have "j < length (lextable_rows ! k) \<Longrightarrow> j < 64 \<and> 64 * k + j < 1176" for j
    using k len nth_mem [OF len] by (cases "k = 18") fastforce+
  then show ?thesis by (auto simp: lex_from_nth lex_row)
qed



subsection \<open>The words from a position\<close>

lemma int16_of_pos: "lex pos = Some b \<Longrightarrow> int16_of pos = int pos"
  by (drule lex_bound) (simp add: int16_of_def)

lemma byte_low_and: "n < 8 \<Longrightarrow> (word_of_nat n :: u8) AND 0x80 = 0"
proof -
  assume "n < 8"
  then have "n = 0 \<or> n = 1 \<or> n = 2 \<or> n = 3 \<or> n = 4 \<or> n = 5 \<or> n = 6 \<or> n = 7" by linarith
  then show ?thesis by (elim disjE) simp_all
qed

lemma byte_high_bit: "b AND 0x80 \<noteq> 0 \<Longrightarrow> \<not> b < (8::u8)"
proof
  assume high: "b AND 0x80 \<noteq> 0" and "b < 8"
  then have "unat b < 8" by (simp add: word_less_nat_alt)
  from byte_low_and [OF this] have "b AND 0x80 = 0" by simp
  with high show False by simp
qed

lemma lextable_walk_byte:
  assumes "lex pos = Some b" "b AND 0x80 \<noteq> 0" "lex (pos + 1) = Some b'" "b' \<noteq> FAIL_CHAR"
  shows "lextable_walk pos c = Some (if c = b AND 0x7f then int (pos + 1) else - 1)"
  using assms int16_of_pos [OF assms(3)] by (subst lextable_walk.simps) auto

lemma lex_walk_byte:
  assumes "lex pos = Some b" "b AND 0x80 \<noteq> 0" "lex (pos + 1) = Some b'" "b' \<noteq> FAIL_CHAR"
  shows "lex_word False pos w =
     (case w of [] \<Rightarrow> None | c # w' \<Rightarrow> if c = b AND 0x7f then lex_word True (pos + 1) w' else None)"
proof -
  note lextable_walk_byte [OF assms]
  moreover have "nat (int (pos + 1)) = pos + 1" "\<not> int (pos + 1) < 0" by simp_all
  ultimately show ?thesis by (cases w) (simp_all del: lex_word.simps(1) of_nat_add nat_int)
qed

lemma lextable_walk_goto:
  assumes "lex pos = Some b" "b AND 0x80 = 0" "FAIL_CHAR < b" "lex (pos + 1) = Some lo" "lex (pos + 2) = Some hi"
    and "lex t = Some x" "t = pos + unat lo + unat hi * 256"
  shows "lextable_walk pos c = (if c = b then Some (int t) else lextable_walk (pos + 3) c)"
proof -
  have "lextable_walk pos c = (if c = b then Some (int16_of t) else lextable_walk (pos + 3) c)"
    using assms by (subst lextable_walk.simps) auto
  then show ?thesis using int16_of_pos [OF assms(6)] by simp
qed

lemma lex_walk_goto:
  assumes "lex pos = Some b" "b AND 0x80 = 0" "FAIL_CHAR < b" "lex (pos + 1) = Some lo" "lex (pos + 2) = Some hi"
    and x: "lex (pos + unat lo + unat hi * 256) = Some x"
  shows "lex_word False pos w =
     (case w of [] \<Rightarrow> None
      | c # w' \<Rightarrow> if c = b then lex_word True (pos + unat lo + unat hi * 256) w' else lex_word False (pos + 3) w)"
proof -
  define t where "t = pos + unat lo + unat hi * 256"
  have x': "lex t = Some x" using x by (simp add: t_def)
  show ?thesis unfolding t_def [symmetric] using lextable_walk_goto [OF assms(1-5) x' t_def]
    by (cases w) (simp_all del: lex_word.simps(1))
qed

lemma lex_walk_fail: "lex pos = Some FAIL_CHAR \<Longrightarrow> lex_word False pos w = None"
  by (cases w) (simp_all add: lextable_walk.simps [of pos] FAIL_CHAR_def)

lemma lex_word_entered:
  "lex pos = Some b \<Longrightarrow> \<not> b < FAIL_CHAR \<Longrightarrow> lex_word ent pos w = lex_word False pos w"
  by (cases ent) (simp_all add: lex_terminal_def)

lemma lex_paths_lex: "lex_paths k ent pos = Some ps \<Longrightarrow> \<exists>b. lex pos = Some b"
  by (cases k) (auto split: option.splits)

lemma apfst_Cons_image: "(w, n) \<in> apfst ((#) b) ` A \<longleftrightarrow> (\<exists>w'. w = b # w' \<and> (w', n) \<in> A)"
  by (force simp: image_iff)

lemma lex_paths_first:
  "lex_paths k ent pos = Some (ps, fs) \<Longrightarrow> \<not> ent \<Longrightarrow> (w, n) \<in> set ps \<Longrightarrow> \<exists>c w'. w = c # w' \<and> c \<in> set fs"
proof (induction k arbitrary: ent pos ps fs)
  case (Suc k)
  then show ?case by (auto split: option.splits if_splits simp: apfst_Cons_image) blast+
qed simp

lemma lex_paths_correct:
  "lex_paths k ent pos = Some (ps, fs) \<Longrightarrow> lex_word ent pos w = Some n \<longleftrightarrow> (w, n) \<in> set ps"
proof (induction k arbitrary: ent pos ps fs w n)
  case (Suc k)
  from Suc.prems obtain b where b: "lex pos = Some b" by (auto split: option.splits)
  consider "b AND 0x80 \<noteq> 0" | "b = FAIL_CHAR" | "b AND 0x80 = 0" "b < FAIL_CHAR" | "b AND 0x80 = 0" "FAIL_CHAR < b"
    by fastforce
  then show ?case
  proof cases
    case 1
    then have high: "\<not> b < FAIL_CHAR" by (simp add: FAIL_CHAR_def byte_high_bit)
    from 1 b Suc.prems obtain b' qs gs where b': "lex (pos + 1) = Some b'" "b' \<noteq> FAIL_CHAR"
      and qs: "lex_paths k True (pos + 1) = Some (qs, gs)" "ps = map (apfst ((#) (b AND 0x7f))) qs"
      by (auto split: option.splits if_splits)
    show ?thesis unfolding trans [OF lex_word_entered [OF b high] lex_walk_byte [OF b 1 b']] qs(2)
      using Suc.IH [OF qs(1)] by (auto simp: apfst_Cons_image simp del: lex_word.simps split: list.splits)
  next
    case 2
    then show ?thesis using b Suc.prems lex_walk_fail lex_word_entered [OF b] by (auto simp: FAIL_CHAR_def)
  next
    case 3
    with b Suc.prems show ?thesis
      by (auto simp: lex_terminal_def split: if_splits option.splits)
  next
    case 4
    then have ne: "b \<noteq> FAIL_CHAR" "\<not> b < FAIL_CHAR" by auto
    from 4(1) ne b Suc.prems obtain lo hi qs gs rs hs where e: "lex (pos + 1) = Some lo" "lex (pos + 2) = Some hi"
      and qs: "lex_paths k True (pos + unat lo + unat hi * 256) = Some (qs, gs)"
      and rs: "lex_paths k False (pos + 3) = Some (rs, hs)" "b \<notin> set hs"
      and ps: "ps = map (apfst ((#) b)) qs @ rs"
      by (auto split: option.splits if_splits)
    obtain x where x: "lex (pos + unat lo + unat hi * 256) = Some x" using lex_paths_lex [OF qs] by blast
    have r: "(b # w', n) \<notin> set rs" "([], n) \<notin> set rs" for w' using lex_paths_first [OF rs(1)] rs(2) by blast+
    show ?thesis unfolding trans [OF lex_word_entered [OF b ne(2)] lex_walk_goto [OF b 4 e x]] ps
      using Suc.IH [OF qs] Suc.IH [OF rs(1)] r
      by (auto simp: apfst_Cons_image simp del: lex_word.simps split: list.splits)
  qed
qed simp


subsection \<open>The table accepts exactly the names\<close>

lemmas lex_paths_numeral = lex_paths.simps(2) [of "pred_numeral v" for v, folded numeral_eq_Suc]

primrec names_from :: "nat \<Rightarrow> u8 list list \<Rightarrow> bool" where
  "names_from i [] \<longleftrightarrow> True"
| "names_from i (w # ws) \<longleftrightarrow> token_names ! i = w \<and> names_from (i + 1) ws"

lemma names_from_drop: "names_from i (drop i token_names)"
proof (induction "length token_names - i" arbitrary: i)
  case (Suc n)
  then have "drop i token_names = token_names ! i # drop (Suc i) token_names" by (intro Cons_nth_drop_Suc [symmetric]) simp
  moreover have "names_from (Suc i) (drop (Suc i) token_names)" using Suc by simp
  ultimately show ?case by simp
qed simp

declare One_nat_def [simp del]

lemmas lextable_bytes =
  lex_from_row [of 0, unfolded lextable_rows_def, simplified, unfolded lextable_00_def, simplified]
  lex_from_row [of 1, unfolded lextable_rows_def, simplified, unfolded lextable_01_def, simplified]
  lex_from_row [of 2, unfolded lextable_rows_def, simplified, unfolded lextable_02_def, simplified]
  lex_from_row [of 3, unfolded lextable_rows_def, simplified, unfolded lextable_03_def, simplified]
  lex_from_row [of 4, unfolded lextable_rows_def, simplified, unfolded lextable_04_def, simplified]
  lex_from_row [of 5, unfolded lextable_rows_def, simplified, unfolded lextable_05_def, simplified]
  lex_from_row [of 6, unfolded lextable_rows_def, simplified, unfolded lextable_06_def, simplified]
  lex_from_row [of 7, unfolded lextable_rows_def, simplified, unfolded lextable_07_def, simplified]
  lex_from_row [of 8, unfolded lextable_rows_def, simplified, unfolded lextable_08_def, simplified]
  lex_from_row [of 9, unfolded lextable_rows_def, simplified, unfolded lextable_09_def, simplified]
  lex_from_row [of 10, unfolded lextable_rows_def, simplified, unfolded lextable_10_def, simplified]
  lex_from_row [of 11, unfolded lextable_rows_def, simplified, unfolded lextable_11_def, simplified]
  lex_from_row [of 12, unfolded lextable_rows_def, simplified, unfolded lextable_12_def, simplified]
  lex_from_row [of 13, unfolded lextable_rows_def, simplified, unfolded lextable_13_def, simplified]
  lex_from_row [of 14, unfolded lextable_rows_def, simplified, unfolded lextable_14_def, simplified]
  lex_from_row [of 15, unfolded lextable_rows_def, simplified, unfolded lextable_15_def, simplified]
  lex_from_row [of 16, unfolded lextable_rows_def, simplified, unfolded lextable_16_def, simplified]
  lex_from_row [of 17, unfolded lextable_rows_def, simplified, unfolded lextable_17_def, simplified]
  lex_from_row [of 18, unfolded lextable_rows_def, simplified, unfolded lextable_18_def, simplified]

lemmas token_names_at = names_from_drop [of 0, simplified, unfolded token_names_def, simplified, folded token_names_def]

declare One_nat_def [simp]

lemma lex_paths_names:
  "\<exists>ps fs. lex_paths 60 False 0 = Some (ps, fs) \<and> list_all (\<lambda>(w, n). n < 87 \<and> token_names ! n = w) ps \<and>
     distinct (map snd ps) \<and> length ps = 87"
  by (simp add: lex_paths_numeral lextable_bytes [unfolded One_nat_def] FAIL_CHAR_def token_names_at [unfolded One_nat_def]
      numeral_2_eq_2 [symmetric] del: lex_paths.simps)

text \<open>C18: the byte table accepts exactly the header names of the source list: a word takes the table
  from its start to the terminal marker \<open>n\<close> if and only if it is the \<open>n\<close>-th name.\<close>

theorem lextable_accepts_names:
  "lex_word False 0 w = Some n \<longleftrightarrow> n < 87 \<and> w = token_names ! n"
proof -
  obtain ps fs where ps: "lex_paths 60 False 0 = Some (ps, fs)" "list_all (\<lambda>(w, n). n < 87 \<and> token_names ! n = w) ps"
    "distinct (map snd ps)" "length ps = 87" using lex_paths_names by auto
  have "snd ` set ps \<subseteq> {..<87}" using ps(2) by (auto simp: list_all_iff)
  moreover have "card (snd ` set ps) = 87" using distinct_card [OF ps(3)] ps(4) by simp
  ultimately have "snd ` set ps = {..<87}" by (intro card_subset_eq) simp_all
  then have "n < 87 \<Longrightarrow> n \<in> snd ` set ps" by blast
  then have "n < 87 \<Longrightarrow> \<exists>w. (w, n) \<in> set ps" by auto
  with ps(2) show ?thesis unfolding lex_paths_correct [OF ps(1)]
    by (fastforce simp: list_all_iff)
qed


text \<open>Every position that the parser can reach is a good one: the table can be asked about any character
  there, and the token numbers are those of the names.\<close>

definition lex_good :: "nat \<Rightarrow> bool" where
  "lex_good pos \<longleftrightarrow> (\<exists>k ps fs. lex_paths k True pos = Some (ps, fs) \<and> snd ` set ps \<subseteq> {..<87})"

lemma lex_paths_walk:
  "lex_paths k ent pos = Some (ps, fs) \<Longrightarrow> ent \<longrightarrow> lex_terminal pos = Some None \<Longrightarrow>
   \<exists>p. lextable_walk pos c = Some p \<and>
     (p < 0 \<or> (\<exists>k' ps' fs'. lex_paths k' True (nat p) = Some (ps', fs') \<and> snd ` set ps' \<subseteq> snd ` set ps))"
proof (induction k arbitrary: ent pos ps fs)
  case (Suc k)
  from Suc.prems(1) obtain b where b: "lex pos = Some b" by (auto split: option.splits)
  consider "b AND 0x80 \<noteq> 0" | "b = FAIL_CHAR" | "b AND 0x80 = 0" "b < FAIL_CHAR" | "b AND 0x80 = 0" "FAIL_CHAR < b"
    by fastforce
  then show ?case
  proof cases
    case 1
    with b Suc.prems(1) obtain b' qs gs where b': "lex (pos + 1) = Some b'" "b' \<noteq> FAIL_CHAR"
      and qs: "lex_paths k True (pos + 1) = Some (qs, gs)" "ps = map (apfst ((#) (b AND 0x7f))) qs"
      by (auto split: option.splits if_splits)
    have "snd ` set ps = snd ` set qs" unfolding qs(2) by (force simp: image_iff)
    then show ?thesis using qs(1) unfolding lextable_walk_byte [OF b 1 b']
      by (cases "c = b AND 0x7f") (auto simp: nat_add_distrib)
  next
    case 2
    then show ?thesis using b by (subst lextable_walk.simps) (simp add: FAIL_CHAR_def)
  next
    case 3
    with b Suc.prems show ?thesis by (auto simp: lex_terminal_def split: if_splits option.splits)
  next
    case 4
    then have ne: "b \<noteq> FAIL_CHAR" "\<not> b < FAIL_CHAR" by auto
    from 4(1) ne b Suc.prems(1) obtain lo hi qs gs rs hs where e: "lex (pos + 1) = Some lo" "lex (pos + 2) = Some hi"
      and qs: "lex_paths k True (pos + unat lo + unat hi * 256) = Some (qs, gs)"
      and rs: "lex_paths k False (pos + 3) = Some (rs, hs)"
      and ps: "ps = map (apfst ((#) b)) qs @ rs"
      by (auto split: option.splits if_splits)
    obtain x where x: "lex (pos + unat lo + unat hi * 256) = Some x" using lex_paths_lex [OF qs] by blast
    have sub: "snd ` set qs \<subseteq> snd ` set ps" "snd ` set rs \<subseteq> snd ` set ps" unfolding ps by (force simp: image_iff)+
    show ?thesis
    proof (cases "c = b")
      case True
      then show ?thesis using qs sub(1) unfolding lextable_walk_goto [OF b 4 e x refl]
        by (intro exI [of _ "int (pos + unat lo + unat hi * 256)"]) (auto simp del: of_nat_add)
    next
      case False
      from Suc.IH [OF rs] obtain p where "lextable_walk (pos + 3) c = Some p"
        "p < 0 \<or> (\<exists>k' ps' fs'. lex_paths k' True (nat p) = Some (ps', fs') \<and> snd ` set ps' \<subseteq> snd ` set rs)" by blast
      with order.trans [OF _ sub(2)] show ?thesis unfolding lextable_walk_goto [OF b 4 e x refl] if_not_P [OF False]
        by (intro exI [of _ p]) meson
    qed
  qed
qed simp

lemma lex_good_walk:
  assumes "lex_good pos" "lex_terminal pos = Some None"
  shows "\<exists>p. lextable_walk pos c = Some p \<and> (p < 0 \<or> lex_good (nat p))"
proof -
  obtain k ps fs where k: "lex_paths k True pos = Some (ps, fs)" "snd ` set ps \<subseteq> {..<87}"
    using assms(1) by (auto simp: lex_good_def)
  with lex_paths_walk [OF k(1), of c] assms(2) show ?thesis unfolding lex_good_def by (meson order.trans)
qed

lemma lex_good_terminal:
  assumes "lex_good pos"
  shows "\<exists>t. lex_terminal pos = Some t \<and> (\<forall>n. t = Some n \<longrightarrow> n < 87)"
proof -
  obtain k ps fs where k: "lex_paths k True pos = Some (ps, fs)" "snd ` set ps \<subseteq> {..<87}"
    using assms by (auto simp: lex_good_def)
  obtain b where b: "lex pos = Some b" using lex_paths_lex [OF k(1)] by blast
  obtain j where j: "k = Suc j" using k(1) by (cases k) auto
  show ?thesis
  proof (cases "b < FAIL_CHAR")
    case True
    then have "b AND 0x80 = 0" using byte_high_bit by (auto simp: FAIL_CHAR_def)
    with True b k show ?thesis unfolding j by (auto simp: lex_terminal_def split: option.splits if_splits)
  qed (simp add: lex_terminal_def b)
qed

lemma lex_paths_entered:
  "lex pos = Some b \<Longrightarrow> \<not> b < FAIL_CHAR \<Longrightarrow> lex_paths k True pos = lex_paths k False pos"
  by (cases k) simp_all

lemma lex_good_0: "lex_good 0" "lex_terminal 0 = Some None"
proof -
  obtain ps fs where ps: "lex_paths 60 False 0 = Some (ps, fs)" "list_all (\<lambda>(w, n). n < 87 \<and> token_names ! n = w) ps"
    using lex_paths_names by auto
  have b: "lex 0 = Some 0x67" by (simp add: lextable_bytes)
  then show "lex_terminal 0 = Some None" by (simp add: lex_terminal_def FAIL_CHAR_def)
  have "lex_paths 60 True 0 = lex_paths 60 False 0"
    by (rule lex_paths_entered [OF b]) (simp add: FAIL_CHAR_def)
  then show "lex_good 0" unfolding lex_good_def using ps by (intro exI [of _ 60]) (auto simp: list_all_iff)
qed

end
