(* ===== verification/Http_Parse.thy ===== *)
theory Http_Parse
  imports Http_Uri Lextable
begin

text \<open>
  The HTTP header parser \<open>lws_parse\<close> of \<open>lib/roles/http/server/parsers.c\<close>, a state machine that is fed one
  byte at a time. Each label and each case of the \<open>switch\<close> of the C function is a definition here. The
  state is the header table together with the three members of the connection that the function sets;
  \<open>lws_return_http_status\<close> is recorded as the status code it sends.
\<close>

record hdr_wsi =
  wsi_ah :: allocated_headers
  wsi_rx_frame_type :: int
  wsi_hdr_parsing_completed :: bool
  wsi_http_status :: "nat list"

datatype parse_next = Next | Ret int
  \<comment> \<open>leave the \<open>switch\<close> and go on with the next byte, or return\<close>

abbreviation upd_ah :: "(allocated_headers \<Rightarrow> allocated_headers) \<Rightarrow> hdr_wsi \<Rightarrow> hdr_wsi" where
  "upd_ah \<equiv> wsi_ah_update"

definition methods :: "nat list" where
  "methods = [WSI_TOKEN_GET_URI, WSI_TOKEN_POST_URI, WSI_TOKEN_OPTIONS_URI, WSI_TOKEN_PUT_URI,
     WSI_TOKEN_PATCH_URI, WSI_TOKEN_DELETE_URI, WSI_TOKEN_CONNECT, WSI_TOKEN_HEAD_URI]"

text \<open>The C string at an offset of an array, undefined when it has no terminator, and \<open>atoi\<close> of it; the
  result is stored in a \<open>char\<close>.\<close>

definition c_string :: "u8 list \<Rightarrow> nat \<Rightarrow> u8 list option" where
  "c_string mem off = (if 0 \<in> set (drop off mem) then Some (takeWhile ((\<noteq>) 0) (drop off mem)) else None)"

definition is_digit :: "u8 \<Rightarrow> bool" where
  "is_digit c \<longleftrightarrow> ch CHR ''0'' \<le> c \<and> c \<le> ch CHR ''9''"

definition atoi_digits :: "u8 list \<Rightarrow> int" where
  "atoi_digits s = foldl (\<lambda>n c. n * 10 + (uint c - uint (ch CHR ''0''))) 0 (takeWhile is_digit s)"

definition atoi :: "u8 list \<Rightarrow> int" where
  "atoi s =
     (case dropWhile (\<lambda>c. c = 32 \<or> 9 \<le> c \<and> c \<le> 13) s of
        [] \<Rightarrow> 0
      | c # cs \<Rightarrow>
          if c = ch CHR ''-'' then - atoi_digits cs
          else if c = ch CHR ''+'' then atoi_digits cs
          else atoi_digits (c # cs))"

definition int_to_char :: "int \<Rightarrow> int" where
  "int_to_char i = sint (word_of_int i :: u8)"

definition parse_forbid :: "hdr_wsi \<Rightarrow> (parse_next \<times> hdr_wsi) option" where
  "parse_forbid w = Some (Ret (- 1), w\<lparr>wsi_http_status := wsi_http_status w @ [403]\<rparr>)"

definition set_parsing_complete :: "hdr_wsi \<Rightarrow> (parse_next \<times> hdr_wsi) option" where
  "set_parsing_complete w =
     (if ah_ues (wsi_ah w) \<noteq> URIES_IDLE then parse_forbid w
      else do {
        up \<leftarrow> lws_hdr_total_length (Some (wsi_ah w)) WSI_TOKEN_UPGRADE;
        w \<leftarrow> (if up \<noteq> 0 then do {
                ver \<leftarrow> lws_hdr_total_length (Some (wsi_ah w)) WSI_TOKEN_VERSION;
                if ver \<noteq> 0 then do {
                  p \<leftarrow> lws_hdr_simple_ptr (Some (wsi_ah w)) WSI_TOKEN_VERSION;
                  p \<leftarrow> p;
                  s \<leftarrow> c_string (ah_data (wsi_ah w)) p;
                  Some (w\<lparr>wsi_rx_frame_type := int_to_char (atoi s)\<rparr>)
                }
                else Some w
              }
              else Some w);
        Some (Ret 0, upd_ah (\<lambda>ah. ah\<lparr>ah_parser_state := WSI_PARSING_COMPLETE\<rparr>) (w\<lparr>wsi_hdr_parsing_completed := True\<rparr>))
      })"

text \<open>\<open>start_fragment\<close> and \<open>excessive\<close>: open the fragment \<open>nfrag\<close> for the token of the parser state,
  chained to earlier ones of the same token.\<close>

partial_function (option) frag_last :: "lws_fragments list \<Rightarrow> nat \<Rightarrow> nat option" where
  "frag_last frags n = do {
     fr \<leftarrow> rd frags n;
     if frag_nfrag fr \<noteq> 0 then frag_last frags (frag_nfrag fr) else Some n
   }"

declare frag_last.simps [code]

definition parse_excessive :: "hdr_env \<Rightarrow> hdr_wsi \<Rightarrow> (parse_next \<times> hdr_wsi) option" where
  "parse_excessive env w =
     (let ah = wsi_ah w in
      if ah_nfrag ah = length (ah_frags ah) then Some (Ret (- 1), w)
      else do {
        ah \<leftarrow> upd_frag (ah_nfrag ah)
               (\<lambda>fr. fr\<lparr>frag_offset := ah_pos ah, frag_len := 0, frag_nfrag := 0, frag_flags := 2\<rparr>) ah;
        n \<leftarrow> rd (ah_frag_index ah) (ah_parser_state ah);
        if n = 0 then do {
          fi \<leftarrow> wr (ah_frag_index ah) (ah_parser_state ah) (ah_nfrag ah);
          Some (Next, w\<lparr>wsi_ah := ah\<lparr>ah_frag_index := fi, ah_hdr_token_idx := ah_parser_state ah\<rparr>\<rparr>)
        }
        else do {
          n \<leftarrow> frag_last (ah_frags ah) n;
          ah \<leftarrow> upd_frag n (\<lambda>fr. fr\<lparr>frag_nfrag := ah_nfrag ah\<rparr>) ah;
          (r, ah) \<leftarrow> issue_char env (ch CHR '' '') ah;
          Some (if r < 0 then Ret (- 1) else Next, w\<lparr>wsi_ah := ah\<rparr>)
        }
      })"

definition parse_start_fragment :: "hdr_env \<Rightarrow> hdr_wsi \<Rightarrow> (parse_next \<times> hdr_wsi) option" where
  "parse_start_fragment env w =
     parse_excessive env (upd_ah (\<lambda>ah. ah\<lparr>ah_nfrag := inc8 (ah_nfrag ah)\<rparr>) w)"

definition parse_swallow :: "hdr_wsi \<Rightarrow> (parse_next \<times> hdr_wsi) option" where
  "parse_swallow w =
     (if ah_parser_state (wsi_ah w) = WSI_TOKEN_CHALLENGE then set_parsing_complete w else Some (Next, w))"

definition parse_issue :: "hdr_env \<Rightarrow> u8 \<Rightarrow> hdr_wsi \<Rightarrow> (parse_next \<times> hdr_wsi) option" where
  "parse_issue env c w = do {
     (n, ah) \<leftarrow> issue_char env c (wsi_ah w);
     let w = w\<lparr>wsi_ah := ah\<rparr> in
     if n < 0 then Some (Ret (- 1), w)
     else parse_swallow (if n > 0 then upd_ah (\<lambda>ah. ah\<lparr>ah_parser_state := WSI_TOKEN_SKIPPING\<rparr>) w else w)
   }"

definition parse_check_eol :: "hdr_env \<Rightarrow> u8 \<Rightarrow> hdr_wsi \<Rightarrow> (parse_next \<times> hdr_wsi) option" where
  "parse_check_eol env c w =
     (if ah_parser_state (wsi_ah w) \<noteq> WSI_TOKEN_CHALLENGE \<and> c = 0x0d then
        if ah_ues (wsi_ah w) \<noteq> URIES_IDLE then parse_forbid w
        else parse_issue env 0 (upd_ah (\<lambda>ah. ah\<lparr>ah_parser_state := WSI_TOKEN_SKIPPING_SAW_CR\<rparr>) w)
      else parse_issue env c w)"

text \<open>The space that ends a request URI.\<close>

definition parse_uri_end :: "hdr_env \<Rightarrow> hdr_wsi \<Rightarrow> (parse_next \<times> hdr_wsi) option" where
  "parse_uri_end env w = do {
     fr \<leftarrow> rd (ah_frags (wsi_ah w)) (ah_nfrag (wsi_ah w));
     (r, ah) \<leftarrow> (if frag_len fr = 0 then issue_char env (ch CHR ''/'') (wsi_ah w) else Some (0, wsi_ah w));
     if r < 0 then Some (Ret (- 1), w\<lparr>wsi_ah := ah\<rparr>)
     else do {
       ah \<leftarrow> (if ah_ups ah = URIPS_SEEN_SLASH_DOT_DOT then uri_backup ah else Some ah);
       (r, ah) \<leftarrow> issue_char env 0 ah;
       if r < 0 then Some (Ret (- 1), w\<lparr>wsi_ah := ah\<rparr>)
       else parse_start_fragment env (w\<lparr>wsi_ah := ah\<lparr>ah_parser_state := WSI_TOKEN_HTTP\<rparr>\<rparr>)
     }
   }"

text \<open>The default case: a byte of the value of a token.\<close>

definition parse_value :: "hdr_env \<Rightarrow> u8 \<Rightarrow> hdr_wsi \<Rightarrow> (parse_next \<times> hdr_wsi) option" where
  "parse_value env c w = do {
     i \<leftarrow> rd (ah_frag_index (wsi_ah w)) (ah_parser_state (wsi_ah w));
     fr \<leftarrow> rd (ah_frags (wsi_ah w)) i;
     if frag_len fr = 0 \<and> c = ch CHR '' '' then Some (Next, w)
     else if ah_parser_state (wsi_ah w) \<notin> set methods then parse_check_eol env c w
     else if c = ch CHR '' '' then parse_uri_end env w
     else do {
       (r, c, ah) \<leftarrow> lws_parse_urldecode env c (wsi_ah w);
       let w = w\<lparr>wsi_ah := ah\<rparr> in
       case r of
         LPUR_CONTINUE \<Rightarrow> parse_check_eol env c w
       | LPUR_SWALLOW \<Rightarrow> parse_swallow w
       | LPUR_FORBID \<Rightarrow> parse_forbid w
       | LPUR_EXCESSIVE \<Rightarrow> parse_excessive env w
       | LPUR_FAIL \<Rightarrow> Some (Ret (- 1), w)
     }
   }"

text \<open>The name of a header matched: token number \<open>n\<close>.\<close>

definition parse_known_header :: "hdr_env \<Rightarrow> nat \<Rightarrow> hdr_wsi \<Rightarrow> (parse_next \<times> hdr_wsi) option" where
  "parse_known_header env n w = do {
     dup \<leftarrow> (if n \<in> set methods then rd (ah_frag_index (wsi_ah w)) n else Some 0);
     if dup \<noteq> 0 then Some (Ret (- 1), w)
     else do {
       let st = (if n = WSI_TOKEN_SWORIGIN then WSI_TOKEN_ORIGIN else n) in do {
       limit \<leftarrow> (case token_limits env of
                  Some limits \<Rightarrow> rd limits st
                | None \<Rightarrow> Some (max_http_header_data env));
       let w = upd_ah (\<lambda>ah. ah\<lparr>ah_parser_state := st, ah_ups := URIPS_IDLE, ah_current_token_limit := limit\<rparr>) w in
       if st = WSI_TOKEN_CHALLENGE then set_parsing_complete w else parse_start_fragment env w
       }
     }
   }"

definition to_lower :: "u8 \<Rightarrow> u8" where
  "to_lower c = (if ch CHR ''A'' \<le> c \<and> c \<le> ch CHR ''Z'' then c + (ch CHR ''a'' - ch CHR ''A'') else c)"

definition seen_method :: "nat list \<Rightarrow> bool" where
  \<comment> \<open>the search for a method with a fragment\<close>
  "seen_method frag_index \<longleftrightarrow> list_ex (\<lambda>m. m < length frag_index \<and> frag_index ! m \<noteq> 0) methods"

definition parse_name_part :: "hdr_env \<Rightarrow> u8 \<Rightarrow> hdr_wsi \<Rightarrow> (parse_next \<times> hdr_wsi) option" where
  "parse_name_part env c w =
     (if ah_lextable_pos (wsi_ah w) < 0 then None
      else do {
        p \<leftarrow> lextable_walk (nat (ah_lextable_pos (wsi_ah w))) (to_lower c);
        let w = upd_ah (\<lambda>ah. ah\<lparr>ah_lextable_pos := p\<rparr>) w in
        if p < 0 \<and> role_h1 env \<and> role_server env then
          if seen_method (ah_frag_index (wsi_ah w)) then
            Some (Next, upd_ah (\<lambda>ah. ah\<lparr>ah_parser_state := WSI_TOKEN_SKIPPING\<rparr>) w)
          else if fallback_to_raw env then Some (Ret 2, w)
          else parse_forbid w
        else if p < 0 then
          Some (Next, upd_ah (\<lambda>ah. ah\<lparr>ah_parser_state := WSI_TOKEN_SKIPPING\<rparr>) w)
        else do {
          t \<leftarrow> lex_terminal (nat p);
          case t of
            Some n \<Rightarrow> parse_known_header env n w
          | None \<Rightarrow> Some (Next, w)
        }
      })"

definition parse_skipping_saw_cr :: "u8 \<Rightarrow> hdr_wsi \<Rightarrow> (parse_next \<times> hdr_wsi) option" where
  "parse_skipping_saw_cr c w =
     (if ah_ues (wsi_ah w) \<noteq> URIES_IDLE then parse_forbid w
      else if c = 0x0a then
        Some (Next, upd_ah (\<lambda>ah. ah\<lparr>ah_parser_state := WSI_TOKEN_NAME_PART, ah_lextable_pos := 0\<rparr>) w)
      else Some (Next, upd_ah (\<lambda>ah. ah\<lparr>ah_parser_state := WSI_TOKEN_SKIPPING\<rparr>) w))"

definition lws_parse_char :: "hdr_env \<Rightarrow> u8 \<Rightarrow> hdr_wsi \<Rightarrow> (parse_next \<times> hdr_wsi) option" where
  "lws_parse_char env c w =
     (let st = ah_parser_state (wsi_ah w) in
      if st = WSI_TOKEN_NAME_PART then parse_name_part env c w
      else if st = WSI_TOKEN_SKIPPING then
        Some (Next, if c = 0x0d then upd_ah (\<lambda>ah. ah\<lparr>ah_parser_state := WSI_TOKEN_SKIPPING_SAW_CR\<rparr>) w else w)
      else if st = WSI_TOKEN_SKIPPING_SAW_CR then parse_skipping_saw_cr c w
      else if st = WSI_PARSING_COMPLETE then Some (Next, w)
      else parse_value env c w)"

text \<open>The whole function: the return value, the bytes that are left, and the new state. \<open>*len\<close> is at
  least 1.\<close>

fun lws_parse :: "hdr_env \<Rightarrow> u8 list \<Rightarrow> hdr_wsi \<Rightarrow> (int \<times> u8 list \<times> hdr_wsi) option" where
  "lws_parse env [] w = None"
| "lws_parse env (c # buf) w =
     (case lws_parse_char env c w of
        None \<Rightarrow> None
      | Some (Ret r, w) \<Rightarrow> Some (r, buf, w)
      | Some (Next, w) \<Rightarrow> if buf = [] then Some (0, [], w) else lws_parse env buf w)"



subsection \<open>What lies before the current fragment is left alone\<close>

definition front_kept :: "allocated_headers \<Rightarrow> allocated_headers \<Rightarrow> bool" where
  "front_kept ah ah' \<longleftrightarrow> ah_nfrag ah \<le> ah_nfrag ah' \<and> frag_offset (cur_frag ah) \<le> frag_offset (cur_frag ah') \<and>
     (\<forall>i \<le> ah_nfrag ah. frag_offset (ah_frags ah' ! i) = frag_offset (ah_frags ah ! i)) \<and>
     take (frag_offset (cur_frag ah)) (ah_data ah') = take (frag_offset (cur_frag ah)) (ah_data ah) \<and>
     length (ah_data ah') = length (ah_data ah)"

lemma front_kept_refl: "front_kept ah ah"
  by (simp add: front_kept_def)

lemma front_kept_trans:
  assumes "front_kept a b" "front_kept b c"
  shows "front_kept a c"
proof -
  have "take (frag_offset (cur_frag a)) (ah_data c) = take (frag_offset (cur_frag a)) (ah_data b)"
    using arg_cong [of _ _ "take (frag_offset (cur_frag a))", OF conjunct1 [OF conjunct2 [OF conjunct2 [OF conjunct2
      [OF assms(2) [unfolded front_kept_def]]]]]] assms(1)
    by (simp add: front_kept_def min_absorb1)
  then show ?thesis using assms unfolding front_kept_def by auto
qed

lemma front_kept_upd:
  "front_kept ah (ah'\<lparr>ah_ups := u\<rparr>) = front_kept ah ah'" "front_kept ah (ah'\<lparr>ah_post_literal_equal := b\<rparr>) = front_kept ah ah'"
  "front_kept ah (ah'\<lparr>ah_frag_index := fi\<rparr>) = front_kept ah ah'" "front_kept (ah\<lparr>ah_ups := u\<rparr>) ah' = front_kept ah ah'"
  by (simp_all add: front_kept_def)

lemma front_kept_push: "ah_wf env ah \<Longrightarrow> front_kept ah (ah_push c ah)"
  using ah_wfD(2,4,7) [of env ah] by (simp add: front_kept_def ah_push_frag)

lemma front_kept_issue_char:
  assumes "env_ok env" "ah_wf env ah" "issue_char env c ah = Some (r, ah')"
  shows "front_kept ah ah'"
  using assms(3) front_kept_push [OF assms(2)]
  by (auto simp: issue_char_spec [OF assms(1,2)] ah_hit_limit_def front_kept_refl split: if_splits)

lemma front_kept_backup:
  assumes "env_ok env" "ah_wf env ah" "uri_backup ah = Some ah'"
  shows "front_kept ah ah'"
proof -
  obtain k where "ah' = ah_shrink k ah" using uri_backup_wf [OF assms(1,2)] assms(3) by fastforce
  then show ?thesis using ah_wfD(2,4) [OF assms(2)] by (simp add: front_kept_def ah_shrink_frag)
qed

lemma front_kept_open:
  assumes "ah_wf env ah" "ah_nfrag ah + 1 < WSI_TOKEN_COUNT"
  shows "front_kept ah (uri_args_frag ah)"
  using ah_wfD(2,4,7) [OF assms(1)] assms(2) by (simp add: front_kept_def uri_args_frag_def ah_open_def)

lemma front_kept_link:
  "front_kept ah ah' \<Longrightarrow> n < length (ah_frags ah') \<Longrightarrow> fr = ah_frags ah' ! n \<Longrightarrow>
   front_kept ah (ah'\<lparr>ah_frags := (ah_frags ah')[n := fr\<lparr>frag_nfrag := m\<rparr>]\<rparr>)"
  by (auto simp: front_kept_def nth_list_update)

lemma front_kept_next_fragment:
  assumes "env_ok env" "ah_wf env ah" "uri_next_fragment env ah = Some (LPUR_SWALLOW, ah')"
  shows "front_kept ah ah'"
proof -
  from assms(3) obtain r ah1 where i: "issue_char env 0 ah = Some (r, ah1)"
    and n: "ah_nfrag ah + 1 < WSI_TOKEN_COUNT"
    and ah': "ah' = (uri_args_frag ah1)\<lparr>ah_post_literal_equal := False, ah_frags := (ah_frags (uri_args_frag ah1))
      [ah_nfrag ah := (cur_frag ah1)\<lparr>frag_nfrag := ah_nfrag ah + 1\<rparr>]\<rparr>"
    by (auto simp: uri_next_fragment_spec [OF assms(1,2)] split: option.splits if_splits)
  note w = issue_char_wf [OF assms(1,2) i]
  have k: "front_kept ah (uri_args_frag ah1)"
    using front_kept_trans [OF front_kept_issue_char [OF assms(1,2) i] front_kept_open [OF w(1)]] n w(3) by simp
  have f: "cur_frag ah1 = ah_frags (uri_args_frag ah1) ! ah_nfrag ah" "ah_nfrag ah < length (ah_frags (uri_args_frag ah1))"
    using ah_wfD(2,4) [OF w(1)] w(3) by (simp_all add: uri_args_frag_def ah_open_def)
  have e: "ah' = (uri_args_frag ah1)\<lparr>ah_frags := (ah_frags (uri_args_frag ah1))
      [ah_nfrag ah := (cur_frag ah1)\<lparr>frag_nfrag := ah_nfrag ah + 1\<rparr>]\<rparr>\<lparr>ah_post_literal_equal := False\<rparr>"
    unfolding ah' by (cases "uri_args_frag ah1") simp
  show ?thesis unfolding e front_kept_upd by (rule front_kept_link [OF k f(2,1)])
qed

lemma front_kept_start_args:
  assumes "env_ok env" "ah_wf env ah" "uri_start_args env ah = Some (LPUR_SWALLOW, ah')"
  shows "front_kept ah ah'"
proof -
  from assms(3) obtain r ah1 where i: "issue_char env 0 ah = Some (r, ah1)"
    and n: "ah_nfrag ah + 1 < WSI_TOKEN_COUNT"
    and ah': "ah' = (uri_args_frag ah1)\<lparr>ah_post_literal_equal := False,
            ah_frag_index := (ah_frag_index ah)[WSI_TOKEN_HTTP_URI_ARGS := ah_nfrag ah + 1], ah_ups := URIPS_IDLE\<rparr>"
    by (auto simp: uri_start_args_spec [OF assms(1,2)] split: option.splits if_splits)
  note w = issue_char_wf [OF assms(1,2) i]
  have "front_kept ah (uri_args_frag ah1)"
    using front_kept_trans [OF front_kept_issue_char [OF assms(1,2) i] front_kept_open [OF w(1)]] n w(3) by simp
  then show ?thesis unfolding ah' by (simp add: front_kept_def)
qed

lemma front_kept_dot_dot:
  assumes "env_ok env" "ah_wf env ah" "uri_path_dot_dot env c ah = Some (x, ah')"
  shows "front_kept ah ah'"
proof (cases "c = ch CHR ''/'' \<or> c = ch CHR ''?''")
  case True
  then obtain ah1 where "uri_backup ah = Some ah1" "ah' = ah1\<lparr>ah_ups := URIPS_SEEN_SLASH\<rparr>"
    using assms(3) by (auto simp: uri_path_dot_dot_def bind_eq_Some split: if_splits)
  then show ?thesis using front_kept_backup [OF assms(1,2)] by (simp add: front_kept_upd)
next
  case False
  then obtain r1 a1 where i1: "issue_char env (ch CHR ''.'') ah = Some (r1, a1)"
    and r1: "ah' = a1 \<or> (\<exists>r2 a2. issue_char env (ch CHR ''.'') a1 = Some (r2, a2) \<and> (ah' = a2 \<or> ah' = a2\<lparr>ah_ups := URIPS_IDLE\<rparr>))"
    using assms(3) by (auto simp: uri_path_dot_dot_def bind_eq_Some split: if_splits)
  note k1 = front_kept_issue_char [OF assms(1,2) i1] and w1 = issue_char_wf(1) [OF assms(1,2) i1]
  from r1 show ?thesis using k1 front_kept_trans [OF k1 front_kept_issue_char [OF assms(1) w1]]
    by (auto simp: front_kept_upd)
qed

lemma front_kept_path_idle:
  assumes "env_ok env" "ah_wf env ah" "uri_path_idle env enc c ah = Some (x, ah')" "x \<noteq> Inl LPUR_EXCESSIVE" "x \<noteq> Inl LPUR_FAIL"
  shows "front_kept ah ah'"
proof (cases "c = 0 \<or> (c = ch CHR ''&'' \<or> c = ch CHR '';'') \<and> \<not> enc")
  case True
  then obtain r where r: "uri_next_fragment env ah = Some (r, ah')" "x = Inl r"
    using assms(3,5) by (auto simp: uri_path_idle_def)
  then show ?thesis using uri_next_fragment_wf(1) [OF assms(1,2) r(1)] assms(4,5) front_kept_next_fragment [OF assms(1,2)] by auto
next
  case False
  then have c: "c \<noteq> 0" "\<not> ((c = ch CHR ''&'' \<or> c = ch CHR '';'') \<and> \<not> enc)" by auto
  show ?thesis using assms(3) unfolding uri_path_idle_spec [OF ah_wfD(3) [OF assms(2)] c]
    by (auto simp: front_kept_def)
qed

lemma front_kept_path_step:
  assumes "env_ok env" "ah_wf env ah" "uri_path_step env enc c ah = Some (x, ah')" "x \<noteq> Inl LPUR_EXCESSIVE" "x \<noteq> Inl LPUR_FAIL"
  shows "front_kept ah ah'"
proof (cases "ah_ups ah")
  case URIPS_IDLE
  then show ?thesis using assms(3) front_kept_path_idle [OF assms(1,2) _ assms(4,5)] by (simp add: uri_path_step_def)
next
  case URIPS_SEEN_SLASH
  then show ?thesis using assms(3) by (auto simp: uri_path_step_def front_kept_upd front_kept_refl split: if_splits)
next
  case URIPS_SEEN_SLASH_DOT
  have "issue_char env (ch CHR ''.'') (ah\<lparr>ah_ups := URIPS_IDLE\<rparr>) = Some (r, ah1) \<Longrightarrow> front_kept ah ah1" for r ah1
    using front_kept_issue_char [of env "ah\<lparr>ah_ups := URIPS_IDLE\<rparr>"] assms(1,2) by (simp add: front_kept_upd)
  with URIPS_SEEN_SLASH_DOT show ?thesis using assms(3)
    by (auto simp: uri_path_step_def front_kept_upd front_kept_refl bind_eq_Some split: if_splits)
next
  case URIPS_SEEN_SLASH_DOT_DOT
  then show ?thesis using assms(3) front_kept_dot_dot [OF assms(1,2)] by (simp add: uri_path_step_def)
qed

lemma front_kept_urldecode:
  assumes "env_ok env" "ah_wf env ah" "lws_parse_urldecode env c ah = Some (r, c', ah')"
    and r: "r = LPUR_CONTINUE \<or> r = LPUR_SWALLOW"
  shows "front_kept ah ah'"
proof -
  obtain x ah1 where u: "uri_unescape c ah = (x, ah1)" by fastforce
  note k1 = uri_unescape_keeps [OF assms(2) u]
  then have f1: "front_kept ah ah1" by (simp add: front_kept_def)
  show ?thesis
  proof (cases x)
    case (Inl q)
    then show ?thesis using assms(3) f1 by (simp add: lws_parse_urldecode_def u)
  next
    case (Inr ec)
    obtain enc d where ec: "ec = (enc, d)" by (cases ec)
    from assms(3) obtain y ah2 where y: "uri_path_step env enc d ah1 = Some (y, ah2)"
      by (auto simp: lws_parse_urldecode_def u Inr ec bind_eq_Some)
    have ne: "y \<noteq> Inl LPUR_EXCESSIVE" "y \<noteq> Inl LPUR_FAIL"
      using assms(3) r by (auto simp: lws_parse_urldecode_def u Inr ec y)
    note f2 = front_kept_trans [OF f1 front_kept_path_step [OF assms(1) conjunct1 [OF k1] y ne]]
    have w2: "ah_wf env ah2 \<or> (\<exists>q. y = Inl q)"
      using uri_path_step_keeps [OF assms(1) conjunct1 [OF k1] y] by (cases y) (auto simp: uri_keeps_def)
    show ?thesis using assms(3) y f2 r w2 front_kept_trans [OF f2 front_kept_start_args [OF assms(1)]]
      uri_start_args_wf(2) [OF assms(1)]
      by (auto simp: lws_parse_urldecode_def u Inr ec bind_eq_Some split: sum.splits if_splits)
  qed
qed


subsection \<open>The invariant of the parser\<close>

text \<open>The value of the version header will be read as a C string: it has a terminator somewhere before
  \<open>b\<close>, or is still being collected and has not passed its limit.\<close>

abbreviation ver_frag :: "allocated_headers \<Rightarrow> nat" where
  "ver_frag ah \<equiv> ah_frag_index ah ! WSI_TOKEN_VERSION"

definition ver_term :: "allocated_headers \<Rightarrow> nat \<Rightarrow> bool" where
  "ver_term ah b \<longleftrightarrow> ver_frag ah = 0 \<or>
     (\<exists>j < b. frag_offset (ah_frags ah ! ver_frag ah) \<le> j \<and> j < length (ah_data ah) \<and> ah_data ah ! j = 0)"

definition ver_open :: "allocated_headers \<Rightarrow> bool" where
  "ver_open ah \<longleftrightarrow> ah_parser_state ah = WSI_TOKEN_VERSION \<and> ver_frag ah = ah_nfrag ah \<and>
     (ah_current_token_limit ah = 0 \<or> frag_len (cur_frag ah) \<le> ah_current_token_limit ah)"

definition parse_bound :: "allocated_headers \<Rightarrow> nat" where
  "parse_bound ah = (if ah_parser_state ah \<in> set methods then frag_offset (cur_frag ah) else ah_pos ah)"

definition parse_state_ok :: "allocated_headers \<Rightarrow> bool" where
  "parse_state_ok ah \<longleftrightarrow>
     (if ah_parser_state ah = WSI_TOKEN_NAME_PART
      then 0 \<le> ah_lextable_pos ah \<and> lex_good (nat (ah_lextable_pos ah)) \<and> lex_terminal (nat (ah_lextable_pos ah)) = Some None
      else ah_parser_state ah < WSI_TOKEN_COUNT \<and> ah_parser_state ah \<noteq> WSI_TOKEN_CHALLENGE \<or>
        ah_parser_state ah = WSI_TOKEN_SKIPPING \<or> ah_parser_state ah = WSI_TOKEN_SKIPPING_SAW_CR \<or>
        ah_parser_state ah = WSI_PARSING_COMPLETE)"

definition parse_inv :: "hdr_env \<Rightarrow> allocated_headers \<Rightarrow> bool" where
  "parse_inv env ah \<longleftrightarrow> ah_wf env ah \<and> parse_state_ok ah \<and> (ver_open ah \<or> ver_term ah (parse_bound ah))"

text \<open>What a step may lead to: only a failed assertion is undefined; it goes on in a good state, or
  returns, and with 0 only when all headers are complete.\<close>

definition parse_good :: "hdr_env \<Rightarrow> (parse_next \<times> hdr_wsi) option \<Rightarrow> bool" where
  "parse_good env x \<longleftrightarrow>
     (case x of
        None \<Rightarrow> asserts_enabled env
      | Some (Next, w) \<Rightarrow> parse_inv env (wsi_ah w)
      | Some (Ret r, w) \<Rightarrow> r = - 1 \<or> r = 2 \<or>
          r = 0 \<and> parse_inv env (wsi_ah w) \<and> ah_parser_state (wsi_ah w) = WSI_PARSING_COMPLETE)"

lemma parse_goodI:
  "parse_good env (parse_forbid w)" "parse_good env (Some (Ret (- 1), w))" "parse_good env (Some (Ret 2, w))"
  "parse_inv env (wsi_ah w) \<Longrightarrow> parse_good env (Some (Next, w))"
  by (simp_all add: parse_good_def parse_forbid_def)

lemma parse_good_if:
  "(P \<Longrightarrow> parse_good env x) \<Longrightarrow> (\<not> P \<Longrightarrow> parse_good env y) \<Longrightarrow> parse_good env (if P then x else y)"
  by simp

lemma ver_term_mono: "ver_term ah b \<Longrightarrow> b \<le> b' \<Longrightarrow> ver_term ah b'"
  unfolding ver_term_def by (meson order_less_le_trans)

lemma ver_term_cong:
  assumes "ver_term ah b" "b \<le> b'" "ver_frag ah' = ver_frag ah"
    and "frag_offset (ah_frags ah' ! ver_frag ah) = frag_offset (ah_frags ah ! ver_frag ah)"
    and "take b (ah_data ah') = take b (ah_data ah)" "length (ah_data ah') = length (ah_data ah)"
  shows "ver_term ah' b'"
proof (cases "ver_frag ah = 0")
  case False
  then obtain j where j: "j < b" "frag_offset (ah_frags ah ! ver_frag ah) \<le> j" "j < length (ah_data ah)" "ah_data ah ! j = 0"
    using assms(1) by (auto simp: ver_term_def)
  have "ah_data ah' ! j = ah_data ah ! j" using arg_cong [OF assms(5), of "\<lambda>xs. xs ! j"] j(1,3) assms(6) by simp
  then show ?thesis using j assms by (auto simp: ver_term_def)
qed (simp add: ver_term_def assms(3))

lemma ver_term_upd [simp]:
  "ver_term (ah\<lparr>ah_ups := u\<rparr>) b = ver_term ah b" "ver_term (ah\<lparr>ah_parser_state := st\<rparr>) b = ver_term ah b"
  "ver_term (ah\<lparr>ah_lextable_pos := l\<rparr>) b = ver_term ah b" "ver_term (ah\<lparr>ah_current_token_limit := t\<rparr>) b = ver_term ah b"
  "ver_term (ah\<lparr>ah_hdr_token_idx := x\<rparr>) b = ver_term ah b" "ver_term (ah\<lparr>ah_pos := p\<rparr>) b = ver_term ah b"
  by (simp_all add: ver_term_def)

lemma parse_bound_le: "ah_wf env ah \<Longrightarrow> parse_bound ah \<le> ah_pos ah"
  using ah_wfD(7) [of env ah] by (simp add: parse_bound_def)

lemma ver_frag_le: "ah_wf env ah \<Longrightarrow> ver_frag ah \<le> ah_nfrag ah"
  using ah_wfD(3,5) [of env ah] by simp

lemma ver_term_push:
  assumes "ah_wf env ah" "ver_term ah b" "b \<le> ah_pos ah"
  shows "ver_term (ah_push c ah) b" "ver_term (ah_push c ah) (ah_pos ah + 1)"
proof -
  show "ver_term (ah_push c ah) b"
    by (rule ver_term_cong [OF assms(2)]) (use ah_wfD(2,4) [OF assms(1)] assms(3) in \<open>simp_all add: ah_push_frag\<close>)
  from ver_term_mono [OF this] show "ver_term (ah_push c ah) (ah_pos ah + 1)" using assms(3) by simp
qed

text \<open>A terminator closes the value.\<close>

lemma ver_term_zero:
  assumes "ah_wf env ah" "ah_pos ah < max_http_header_data env" "ver_frag ah = ah_nfrag ah"
  shows "ver_term (ah_push 0 ah) (ah_pos ah + 1)"
proof -
  have "frag_offset (cur_frag ah) \<le> ah_pos ah" using ah_wfD(7) [OF assms(1)] by simp
  then show ?thesis using ah_wfD(1,2,4) [OF assms(1)] assms(2,3)
    by (auto simp: ver_term_def ah_push_frag intro!: exI [of _ "ah_pos ah"])
qed

lemma ver_open_push:
  assumes "ah_wf env ah" "ver_open ah" "ah_current_token_limit ah = 0 \<or> frag_len (cur_frag ah) < ah_current_token_limit ah"
  shows "ver_open (ah_push c ah)"
  using assms ah_wfD(2,4) [OF assms(1)] by (auto simp: ver_open_def ah_push_frag) (simp_all add: ah_push_def)

lemma ver_ok_pos:
  assumes "ah_wf env ah" "ver_open ah \<or> ver_term ah (parse_bound ah)" "ah_parser_state ah \<noteq> WSI_TOKEN_VERSION"
  shows "ver_term ah (ah_pos ah)"
  using assms ver_term_mono [OF _ parse_bound_le [OF assms(1)]] by (auto simp: ver_open_def)


subsection \<open>The steps keep the invariant\<close>

lemma set_parsing_complete_good:
  assumes "env_ok env" "ah_wf env (wsi_ah w)" "ver_term (wsi_ah w) (ah_pos (wsi_ah w))"
  shows "parse_good env (set_parsing_complete w)"
proof -
  let ?ah = "wsi_ah w"
  obtain up ver where l: "lws_hdr_total_length (Some ?ah) WSI_TOKEN_UPGRADE = Some up"
    "lws_hdr_total_length (Some ?ah) WSI_TOKEN_VERSION = Some ver"
    using lws_hdr_total_length_wf [OF assms(2), of WSI_TOKEN_UPGRADE] lws_hdr_total_length_wf [OF assms(2), of WSI_TOKEN_VERSION]
    by auto
  have r: "rd (ah_frag_index ?ah) WSI_TOKEN_VERSION = Some (ver_frag ?ah)" using ah_wfD(3) [OF assms(2)] by (simp add: rd_Some)
  have "\<exists>p s. lws_hdr_simple_ptr (Some ?ah) WSI_TOKEN_VERSION = Some (Some p) \<and> c_string (ah_data ?ah) p = Some s" if "ver \<noteq> 0"
  proof -
    have f: "ver_frag ?ah \<noteq> 0" using that l(2) r by (auto simp: lws_hdr_total_length_def split: if_splits)
    then obtain j where j: "frag_offset (ah_frags ?ah ! ver_frag ?ah) \<le> j" "j < length (ah_data ?ah)" "ah_data ?ah ! j = 0"
      using assms(3) by (auto simp: ver_term_def)
    from j have "0 \<in> set (drop (frag_offset (ah_frags ?ah ! ver_frag ?ah)) (ah_data ?ah))"
      by (auto simp: in_set_conv_nth intro!: exI [of _ "j - frag_offset (ah_frags ?ah ! ver_frag ?ah)"])
    then show ?thesis using f r ver_frag_le [OF assms(2)] ah_wfD(2,4) [OF assms(2)]
      by (simp add: lws_hdr_simple_ptr_def c_string_def rd_Some)
  qed
  moreover have "w\<lparr>wsi_rx_frame_type := wsi_rx_frame_type w\<rparr> = w" by simp
  ultimately obtain t where t: "(if up \<noteq> 0 then if ver \<noteq> 0 then do {
        p \<leftarrow> lws_hdr_simple_ptr (Some ?ah) WSI_TOKEN_VERSION; p \<leftarrow> p; s \<leftarrow> c_string (ah_data ?ah) p;
        Some (w\<lparr>wsi_rx_frame_type := int_to_char (atoi s)\<rparr>) } else Some w else Some w) = Some (w\<lparr>wsi_rx_frame_type := t\<rparr>)"
    by (cases "up \<noteq> 0 \<and> ver \<noteq> 0") (fastforce, metis)
  have "parse_inv env (?ah\<lparr>ah_parser_state := WSI_PARSING_COMPLETE\<rparr>)" using assms(2,3)
    by (simp add: parse_inv_def parse_state_ok_def parse_bound_def methods_def)
  then have "parse_good env (Some (Ret 0, upd_ah (\<lambda>ah. ah\<lparr>ah_parser_state := WSI_PARSING_COMPLETE\<rparr>)
      (w\<lparr>wsi_rx_frame_type := t, wsi_hdr_parsing_completed := True\<rparr>)))"
    by (simp add: parse_good_def)
  then show ?thesis using parse_goodI(1) unfolding set_parsing_complete_def l bind.bind_lunit t by (simp add: parse_goodI)
qed

lemma parse_swallow_good:
  "parse_inv env (wsi_ah w) \<Longrightarrow> parse_good env (parse_swallow w)"
  by (auto simp: parse_swallow_def parse_inv_def parse_state_ok_def parse_goodI)

text \<open>Collecting a byte, in the state \<open>st\<close> of a value.\<close>

lemma parse_inv_skip:
  "ah_wf env ah \<Longrightarrow> ver_term ah (ah_pos ah) \<Longrightarrow> st \<in> {WSI_TOKEN_SKIPPING, WSI_TOKEN_SKIPPING_SAW_CR} \<Longrightarrow>
   parse_inv env (ah\<lparr>ah_parser_state := st\<rparr>)"
  by (auto simp: parse_inv_def parse_state_ok_def parse_bound_def methods_def)

lemma ver_hit_limit:
  assumes "ah_wf env ah" "ah_pos ah < max_http_header_data env" "ver_open ah \<or> ver_term ah (parse_bound ah)"
    and "\<not> (ah_current_token_limit ah = 0 \<or> frag_len (cur_frag ah) < ah_current_token_limit ah)"
  shows "ver_term (ah_hit_limit ah) (ah_pos (ah_hit_limit ah))"
proof (cases "ver_open ah")
  case True
  then have "frag_len (cur_frag ah) = ah_current_token_limit ah" "ver_frag ah = ah_nfrag ah" using assms(4) by (auto simp: ver_open_def)
  then show ?thesis using ver_term_zero [OF assms(1,2)] by (simp add: ah_hit_limit_def)
next
  case False
  then have v: "ver_term ah (parse_bound ah)" using assms(3) by simp
  show ?thesis using ver_term_push(2) [OF assms(1) v] ver_term_mono [OF v] parse_bound_le [OF assms(1)]
    by (simp add: ah_hit_limit_def)
qed

lemma parse_issue_good:
  assumes "env_ok env" "parse_inv env (wsi_ah w)"
  shows "parse_good env (parse_issue env c w)"
proof -
  let ?ah = "wsi_ah w"
  have wf: "ah_wf env ?ah" and v: "ver_open ?ah \<or> ver_term ?ah (parse_bound ?ah)" using assms(2) by (auto simp: parse_inv_def)
  show ?thesis
  proof (cases "ah_pos ?ah < max_http_header_data env")
    case False
    then show ?thesis
      by (auto simp: parse_issue_def issue_char_spec [OF assms(1) wf] hdr_full_def parse_good_def)
  next
    case room: True
    show ?thesis
    proof (cases "ah_current_token_limit ?ah = 0 \<or> frag_len (cur_frag ?ah) < ah_current_token_limit ?ah")
      case True
      have b: "parse_bound (ah_push c ?ah) = parse_bound ?ah \<or> parse_bound (ah_push c ?ah) = ah_pos ?ah + 1"
        using ah_wfD(2,4) [OF wf] by (simp add: parse_bound_def ah_push_frag)
      have "ver_open (ah_push c ?ah) \<or> ver_term (ah_push c ?ah) (parse_bound (ah_push c ?ah))"
        using v b ver_open_push [OF wf _ True] ver_term_push [OF wf _ parse_bound_le [OF wf]] by auto
      then have "parse_inv env (ah_push c ?ah)"
        using assms(2) ah_wf_push [OF wf room] by (auto simp: parse_inv_def parse_state_ok_def)
      then show ?thesis using True room parse_swallow_good [of env "w\<lparr>wsi_ah := ah_push c ?ah\<rparr>"]
        by (simp add: parse_issue_def issue_char_spec [OF assms(1) wf])
    next
      case False
      have "parse_inv env ((ah_hit_limit ?ah)\<lparr>ah_parser_state := WSI_TOKEN_SKIPPING\<rparr>)"
        using parse_inv_skip [OF ah_wf_hit_limit [OF wf room] ver_hit_limit [OF wf room v False]] by simp
      then show ?thesis using False room
          parse_swallow_good [of env "w\<lparr>wsi_ah := (ah_hit_limit ?ah)\<lparr>ah_parser_state := WSI_TOKEN_SKIPPING\<rparr>\<rparr>"]
        by (simp add: parse_issue_def issue_char_spec [OF assms(1) wf] comp_def)
    qed
  qed
qed


lemma ah_push_state: "ah_push c (ah\<lparr>ah_parser_state := st\<rparr>) = (ah_push c ah)\<lparr>ah_parser_state := st\<rparr>"
  by (simp add: ah_push_def)

lemma parse_issue_eol_good:
  assumes "env_ok env" "parse_inv env (wsi_ah w)"
  shows "parse_good env (parse_issue env 0 (upd_ah (\<lambda>ah. ah\<lparr>ah_parser_state := WSI_TOKEN_SKIPPING_SAW_CR\<rparr>) w))"
proof -
  let ?ah = "wsi_ah w" and ?s = "\<lambda>ah. ah\<lparr>ah_parser_state := WSI_TOKEN_SKIPPING_SAW_CR\<rparr>"
  have wf: "ah_wf env ?ah" "ah_wf env (?s ?ah)" and v: "ver_open ?ah \<or> ver_term ?ah (parse_bound ?ah)"
    using assms(2) by (auto simp: parse_inv_def)
  note spec = issue_char_spec [OF assms(1) wf(2), of 0]
  show ?thesis
  proof (cases "ah_pos ?ah < max_http_header_data env")
    case False
    then show ?thesis by (auto simp: parse_issue_def spec hdr_full_def parse_good_def)
  next
    case room: True
    show ?thesis
    proof (cases "ah_current_token_limit ?ah = 0 \<or> frag_len (cur_frag ?ah) < ah_current_token_limit ?ah")
      case True
      have "ver_term (ah_push 0 ?ah) (ah_pos ?ah + 1)"
        using v ver_term_zero [OF wf(1) room] ver_term_push(2) [OF wf(1) _ parse_bound_le [OF wf(1)]] by (auto simp: ver_open_def)
      then have "parse_inv env (?s (ah_push 0 ?ah))"
        using parse_inv_skip [OF ah_wf_push [OF wf(1) room]] by simp
      then show ?thesis using True room parse_swallow_good [of env "w\<lparr>wsi_ah := ?s (ah_push 0 ?ah)\<rparr>"]
        by (simp add: parse_issue_def spec ah_push_state comp_def)
    next
      case False
      have h: "ah_hit_limit (?s ?ah) = ?s (ah_hit_limit ?ah)" by (simp add: ah_hit_limit_def ah_push_state)
      have "parse_inv env ((ah_hit_limit ?ah)\<lparr>ah_parser_state := WSI_TOKEN_SKIPPING\<rparr>)"
        using parse_inv_skip [OF ah_wf_hit_limit [OF wf(1) room] ver_hit_limit [OF wf(1) room v False]] by simp
      then show ?thesis using False room
          parse_swallow_good [of env "w\<lparr>wsi_ah := (ah_hit_limit ?ah)\<lparr>ah_parser_state := WSI_TOKEN_SKIPPING\<rparr>\<rparr>"]
        by (simp add: parse_issue_def spec h comp_def)
    qed
  qed
qed

lemma parse_check_eol_good:
  "env_ok env \<Longrightarrow> parse_inv env (wsi_ah w) \<Longrightarrow> parse_good env (parse_check_eol env c w)"
  using parse_issue_eol_good parse_issue_good parse_goodI(1) by (simp add: parse_check_eol_def)

lemma frag_last_wf:
  assumes "ah_wf env ah" "\<forall>i \<le> ah_nfrag ah. frags ! i = ah_frags ah ! i" "ah_nfrag ah < length frags"
  shows "n \<le> ah_nfrag ah \<Longrightarrow> \<exists>m \<le> ah_nfrag ah. frag_last frags n = Some m"
proof (induction "ah_nfrag ah - n" arbitrary: n rule: less_induct)
  case less
  let ?m = "frag_nfrag (ah_frags ah ! n)"
  have m: "?m = 0 \<or> n < ?m \<and> ?m \<le> ah_nfrag ah" using ah_wfD(6) [OF assms(1) less.prems] by (auto simp: frag_wf_def)
  have r: "rd frags n = Some (ah_frags ah ! n)" using less.prems assms(2,3) by (simp add: rd_Some)
  show ?case
  proof (cases "?m = 0")
    case True
    then show ?thesis using less.prems r by (subst frag_last.simps) auto
  next
    case False
    with m have "ah_nfrag ah - ?m < ah_nfrag ah - n" "?m \<le> ah_nfrag ah" by auto
    from less.hyps [OF this] False r show ?thesis by (subst frag_last.simps) simp
  qed
qed

lemma ver_term_issue:
  assumes "env_ok env" "ah_wf env ah" "issue_char env c ah = Some (r, ah')" "ver_term ah b" "b \<le> ah_pos ah"
  shows "ver_term ah' b" "ah_pos ah \<le> ah_pos ah'" "frag_offset (cur_frag ah') = frag_offset (cur_frag ah)"
proof -
  have "ah' = ah \<or> ah' = ah_push c ah \<or> ah' = ah_push 0 ah" using assms(3)
    by (auto simp: issue_char_spec [OF assms(1,2)] ah_hit_limit_def split: if_splits)
  then show "ver_term ah' b" "ah_pos ah \<le> ah_pos ah'" "frag_offset (cur_frag ah') = frag_offset (cur_frag ah)"
    using assms(4) ver_term_push(1) [OF assms(2,4,5)] ah_wfD(2,4) [OF assms(2)] by (auto simp: ah_push_frag)
qed

lemma issue_char_None: "env_ok env \<Longrightarrow> ah_wf env ah \<Longrightarrow> issue_char env c ah = None \<Longrightarrow> asserts_enabled env"
  using issue_char_total [of env ah c] by auto

text \<open>Opening a fragment for the token of the parser state.\<close>

definition token_frag :: "allocated_headers \<Rightarrow> allocated_headers" where
  "token_frag ah = ah_open (ah_pos ah)
     ((ah_frags ah ! (ah_nfrag ah + 1))\<lparr>frag_offset := ah_pos ah, frag_len := 0, frag_nfrag := 0, frag_flags := 2\<rparr>) ah"

lemma token_frag_wf:
  assumes "ah_wf env ah" "ah_nfrag ah + 1 < WSI_TOKEN_COUNT" "ver_term ah (ah_pos ah)"
  shows "ah_wf env (token_frag ah)" "ver_term (token_frag ah) (ah_pos ah)" "frag_len (cur_frag (token_frag ah)) = 0"
    "frag_offset (cur_frag (token_frag ah)) = ah_pos ah" "ah_pos (token_frag ah) = ah_pos ah"
    "ah_nfrag (token_frag ah) = ah_nfrag ah + 1" "ah_frag_index (token_frag ah) = ah_frag_index ah"
    "ah_parser_state (token_frag ah) = ah_parser_state ah" "\<forall>i \<le> ah_nfrag ah. ah_frags (token_frag ah) ! i = ah_frags ah ! i"
proof -
  note wf = ah_wfD [OF assms(1)]
  show "ah_wf env (token_frag ah)" unfolding token_frag_def
    using ah_wf_open [OF assms(1,2), of "ah_pos ah"] wf(8) by simp
  have v: "ver_frag ah \<noteq> ah_nfrag ah + 1" using ver_frag_le [OF assms(1)] by simp
  show "ver_term (token_frag ah) (ah_pos ah)"
    by (rule ver_term_cong [OF assms(3)]) (use wf(2) assms(2) v in \<open>simp_all add: token_frag_def ah_open_frag\<close>)
qed (use ah_wfD(2) [OF assms(1)] assms(2) in \<open>simp_all add: token_frag_def ah_open_frag\<close>)

lemma parse_start_fragment_spec:
  assumes "ah_wf env (wsi_ah w)" "ah_nfrag (wsi_ah w) + 1 < WSI_TOKEN_COUNT" "ah_parser_state (wsi_ah w) < WSI_TOKEN_COUNT"
  shows "parse_start_fragment env w = (let ah = wsi_ah w; st = ah_parser_state ah in
      if ah_frag_index ah ! st = 0 then
        Some (Next, w\<lparr>wsi_ah := (token_frag ah)\<lparr>ah_frag_index := (ah_frag_index ah)[st := ah_nfrag ah + 1], ah_hdr_token_idx := st\<rparr>\<rparr>)
      else do {
        n \<leftarrow> frag_last (ah_frags (token_frag ah)) (ah_frag_index ah ! st);
        ah \<leftarrow> upd_frag n (\<lambda>fr. fr\<lparr>frag_nfrag := ah_nfrag ah + 1\<rparr>) (token_frag ah);
        (r, ah) \<leftarrow> issue_char env (ch CHR '' '') ah;
        Some (if r < 0 then Ret (- 1) else Next, w\<lparr>wsi_ah := ah\<rparr>)
      })"
  using assms ah_wfD(2,3) [OF assms(1)]
  by (simp add: parse_start_fragment_def parse_excessive_def inc8_small upd_frag_def rd_Some wr_Some token_frag_def ah_open_def
      comp_def Let_def)

lemma parse_bound_cases: "parse_bound ah = frag_offset (cur_frag ah) \<or> parse_bound ah = ah_pos ah"
  by (simp add: parse_bound_def)

lemma parse_start_fragment_good:
  assumes "env_ok env" "ah_wf env (wsi_ah w)" "ver_term (wsi_ah w) (ah_pos (wsi_ah w))"
    and st: "ah_parser_state (wsi_ah w) < WSI_TOKEN_COUNT" "ah_parser_state (wsi_ah w) \<noteq> WSI_TOKEN_CHALLENGE"
  shows "parse_good env (parse_start_fragment env w)"
proof (cases "ah_nfrag (wsi_ah w) + 1 = WSI_TOKEN_COUNT")
  case True
  then show ?thesis using ah_wfD(2) [OF assms(2)]
    by (simp add: parse_start_fragment_def parse_excessive_def inc8_def parse_goodI)
next
  case False
  let ?ah = "wsi_ah w"
  let ?st = "ah_parser_state ?ah"
  note wf = ah_wfD [OF assms(2)]
  have n: "ah_nfrag ?ah + 1 < WSI_TOKEN_COUNT" using False wf(4) by simp
  note o = token_frag_wf [OF assms(2) n assms(3)]
  have fi: "ah_frag_index ?ah ! ?st \<le> ah_nfrag ?ah" using st(1) wf(3,5) by simp
  note start = parse_start_fragment_spec [OF assms(2) n st(1)]
  show ?thesis
  proof (cases "ah_frag_index ?ah ! ?st = 0")
    case True
    let ?a = "(token_frag ?ah)\<lparr>ah_frag_index := (ah_frag_index ?ah)[?st := ah_nfrag ?ah + 1]\<rparr>"
    have a: "ah_wf env ?a" using ah_wf_index [OF o(1), of ?st] o(6,7) by simp
    have "ver_open ?a \<or> ver_term ?a (parse_bound ?a)"
    proof (cases "?st = WSI_TOKEN_VERSION")
      case True
      then show ?thesis using o wf(3) by (auto simp: ver_open_def)
    next
      case False
      then have "ver_term ?a (ah_pos ?ah)" using o(2,7) by (simp add: ver_term_def)
      then show ?thesis using parse_bound_cases [of ?a] o(4,5) by auto
    qed
    then have "parse_inv env (?a\<lparr>ah_hdr_token_idx := ?st\<rparr>)"
      using a st o(8) by (auto simp: parse_inv_def parse_state_ok_def ver_open_def parse_bound_def)
    then show ?thesis using True start by (simp add: parse_goodI Let_def)
  next
    case False
    obtain m where m: "m \<le> ah_nfrag ?ah" "frag_last (ah_frags (token_frag ?ah)) (ah_frag_index ?ah ! ?st) = Some m"
      using frag_last_wf [OF assms(2) o(9) _ fi] ah_wfD(2) [OF o(1)] wf(4) by auto
    let ?b = "(token_frag ?ah)\<lparr>ah_frags := (ah_frags (token_frag ?ah))[m := (ah_frags (token_frag ?ah) ! m)\<lparr>frag_nfrag := ah_nfrag ?ah + 1\<rparr>]\<rparr>"
    have b: "ah_wf env ?b" using ah_wf_link [OF o(1), of m "ah_nfrag ?ah + 1"] m(1) o(6) by simp
    have bl: "m < length (ah_frags (token_frag ?ah))" using ah_wfD(2) [OF o(1)] m(1) wf(4) by simp
    have bv: "ver_term ?b (ah_pos ?ah)"
      by (rule ver_term_cong [OF o(2)]) (use bl in \<open>simp_all add: nth_list_update\<close>)
    have bo: "frag_offset (cur_frag ?b) = ah_pos ?ah" using o(4,6) m(1) by simp
    have step: "parse_start_fragment env w = do {
        (r, ah) \<leftarrow> issue_char env (ch CHR '' '') ?b;
        Some (if r < 0 then Ret (- 1) else Next, w\<lparr>wsi_ah := ah\<rparr>) }"
      using False m bl unfolding start by (simp add: upd_frag_def rd_Some Let_def)
    show ?thesis
    proof (cases "issue_char env (ch CHR '' '') ?b")
      case None
      then show ?thesis using issue_char_None [OF assms(1) b] by (simp add: step parse_good_def)
    next
      case (Some ra)
      obtain r a where ra: "ra = (r, a)" by (cases ra)
      note i = Some [unfolded ra]
      note w = issue_char_wf [OF assms(1) b i] and v = ver_term_issue [OF assms(1) b i bv]
      have p: "ah_pos ?ah \<le> ah_pos ?b" using o(5) by simp
      have "ver_term a (parse_bound a)"
        using parse_bound_cases [of a] ver_term_mono [OF v(1) [OF p]] v(2) [OF p] v(3) [OF p] p bo by auto
      then have "parse_inv env a" using w(1,6) o(8) st by (simp add: parse_inv_def parse_state_ok_def)
      then show ?thesis using i by (simp add: step parse_goodI)
    qed
  qed
qed


lemma parse_inv_method:
  "parse_inv env ah \<Longrightarrow> ah_parser_state ah \<in> set methods \<Longrightarrow> ah_wf env ah \<and> ver_term ah (frag_offset (cur_frag ah))"
  by (auto simp: parse_inv_def ver_open_def parse_bound_def methods_def)

lemma ver_term_front:
  assumes "ah_wf env ah" "ver_term ah (frag_offset (cur_frag ah))" "front_kept ah ah'" "ver_frag ah' = ver_frag ah"
  shows "ver_term ah' (frag_offset (cur_frag ah'))"
  by (rule ver_term_cong [OF assms(2)]) (use assms(3,4) ver_frag_le [OF assms(1)] in \<open>simp_all add: front_kept_def\<close>)

lemma parse_uri_end_good:
  assumes "env_ok env" "parse_inv env (wsi_ah w)" "ah_parser_state (wsi_ah w) \<in> set methods"
  shows "parse_good env (parse_uri_end env w)"
proof -
  let ?ah = "wsi_ah w"
  have wf: "ah_wf env ?ah" and v: "ver_term ?ah (frag_offset (cur_frag ?ah))" using parse_inv_method [OF assms(2,3)] by auto
  have f: "rd (ah_frags ?ah) (ah_nfrag ?ah) = Some (cur_frag ?ah)" using ah_wfD(2,4) [OF wf] by (simp add: rd_Some)
  show ?thesis
  proof (cases "if frag_len (cur_frag ?ah) = 0 then issue_char env (ch CHR ''/'') ?ah else Some (0, ?ah)")
    case None
    then show ?thesis using f issue_char_None [OF assms(1) wf]
      by (auto simp: parse_uri_end_def parse_good_def split: if_splits)
  next
    case (Some ra)
    obtain r a where ra: "ra = (r, a)" by (cases ra)
    have a: "ah_wf env a" "front_kept ?ah a" "ah_frag_index a = ah_frag_index ?ah"
      using Some [unfolded ra] wf front_kept_refl issue_char_wf(1,2) [OF assms(1) wf] front_kept_issue_char [OF assms(1) wf]
      by (auto split: if_splits)
    show ?thesis
    proof (cases "r < 0")
      case True
      then show ?thesis using f Some [unfolded ra] by (simp add: parse_uri_end_def parse_goodI)
    next
      case False
      obtain b where b: "(if ah_ups a = URIPS_SEEN_SLASH_DOT_DOT then uri_backup a else Some a) = Some b"
        "ah_wf env b" "front_kept a b" "ah_frag_index b = ah_frag_index a"
        using uri_backup_wf [OF assms(1) a(1)] front_kept_backup [OF assms(1) a(1)] front_kept_refl a(1)
        by (metis ah_shrink_sel(1))
      note vb = ver_term_front [OF b(2) ver_term_front [OF a(1) ver_term_front [OF wf v a(2)] b(3)]]
      show ?thesis
      proof (cases "issue_char env 0 b")
        case None
        then show ?thesis using f Some [unfolded ra] False b(1) issue_char_None [OF assms(1) b(2)]
          by (simp add: parse_uri_end_def parse_good_def)
      next
        case i: (Some qc)
        obtain q d where qc: "qc = (q, d)" by (cases qc)
        note i = i [unfolded qc]
        note w = issue_char_wf [OF assms(1) b(2) i]
        have "ver_term d (frag_offset (cur_frag d))"
          using vb [OF _ _ front_kept_issue_char [OF assms(1) b(2) i]] w(2) b(4) a(3) by simp
        then have "ver_term d (ah_pos d)" by (rule ver_term_mono) (use ah_wfD(7) [OF w(1)] in simp)
        then have "parse_good env (parse_start_fragment env (w\<lparr>wsi_ah := d\<lparr>ah_parser_state := WSI_TOKEN_HTTP\<rparr>\<rparr>))"
          using w(1) by (intro parse_start_fragment_good [OF assms(1)]) simp_all
        then show ?thesis using f Some [unfolded ra] False b(1) i by (simp add: parse_uri_end_def parse_goodI)
      qed
    qed
  qed
qed

lemma parse_value_good:
  assumes "env_ok env" "parse_inv env (wsi_ah w)"
    and st: "ah_parser_state (wsi_ah w) < WSI_TOKEN_COUNT" "ah_parser_state (wsi_ah w) \<noteq> WSI_TOKEN_CHALLENGE"
  shows "parse_good env (parse_value env c w)"
proof -
  let ?ah = "wsi_ah w"
  let ?i = "ah_frag_index ?ah ! ah_parser_state ?ah"
  have wf: "ah_wf env ?ah" using assms(2) by (simp add: parse_inv_def)
  have r: "rd (ah_frag_index ?ah) (ah_parser_state ?ah) = Some ?i" "rd (ah_frags ?ah) ?i = Some (ah_frags ?ah ! ?i)"
    using ah_wfD(2-4) [OF wf] ah_wfD(5) [OF wf, of ?i] st(1) by (simp_all add: rd_Some)
  consider "frag_len (ah_frags ?ah ! ?i) = 0 \<and> c = ch CHR '' ''" | "\<not> (frag_len (ah_frags ?ah ! ?i) = 0 \<and> c = ch CHR '' '')"
      "ah_parser_state ?ah \<notin> set methods"
    | "\<not> (frag_len (ah_frags ?ah ! ?i) = 0 \<and> c = ch CHR '' '')" "ah_parser_state ?ah \<in> set methods" "c = ch CHR '' ''"
    | "ah_parser_state ?ah \<in> set methods" "c \<noteq> ch CHR '' ''" by blast
  then show ?thesis
  proof cases
    case 1
    then show ?thesis using assms(2) by (simp add: parse_value_def r parse_goodI)
  next
    case 2
    then show ?thesis using parse_check_eol_good [OF assms(1,2)] by (auto simp: parse_value_def r)
  next
    case 3
    then show ?thesis using parse_uri_end_good [OF assms(1,2)] by (auto simp: parse_value_def r)
  next
    case 4
    show ?thesis
    proof (cases "lws_parse_urldecode env c ?ah")
      case None
      then show ?thesis using 4 lws_parse_urldecode_total [OF assms(1) wf, of c]
        by (auto simp: parse_value_def r parse_good_def)
    next
      case (Some x)
      obtain q d a where x: "x = (q, d, a)" by (cases x)
      note u = Some [unfolded x]
      note k = lws_parse_urldecode_wf [OF assms(1) wf u]
      have "parse_inv env a" if q: "q = LPUR_CONTINUE \<or> q = LPUR_SWALLOW"
        using ver_term_front [OF wf _ front_kept_urldecode [OF assms(1) wf u q]] parse_inv_method [OF assms(2) 4(1)] k(1) [OF q]
          k(3) k(4) [of WSI_TOKEN_VERSION] 4(1) st by (simp add: parse_inv_def parse_state_ok_def parse_bound_def)
      then show ?thesis using 4 u k(2) parse_check_eol_good [OF assms(1), of "w\<lparr>wsi_ah := a\<rparr>"] parse_swallow_good [of env "w\<lparr>wsi_ah := a\<rparr>"]
        by (cases q) (auto simp: parse_value_def r parse_goodI parse_excessive_def)
    qed
  qed
qed

lemma parse_known_header_good:
  assumes "env_ok env" "ah_wf env (wsi_ah w)" "ver_term (wsi_ah w) (ah_pos (wsi_ah w))" "n < 87"
  shows "parse_good env (parse_known_header env n w)"
proof -
  define st where "st = (if n = WSI_TOKEN_SWORIGIN then WSI_TOKEN_ORIGIN else n)"
  then have st: "st < WSI_TOKEN_COUNT" using assms(4) by simp
  obtain dup where dup: "(if n \<in> set methods then rd (ah_frag_index (wsi_ah w)) n else Some 0) = Some dup"
    using ah_wfD(3) [OF assms(2)] assms(4) by (cases "n \<in> set methods") (auto simp: rd_Some)
  obtain limit where limit: "(case token_limits env of Some limits \<Rightarrow> rd limits st
      | None \<Rightarrow> Some (max_http_header_data env)) = Some limit"
    using assms(1) st by (cases "token_limits env") (auto simp: env_ok_def rd_Some)
  let ?w = "upd_ah (\<lambda>ah. ah\<lparr>ah_parser_state := st, ah_ups := URIPS_IDLE, ah_current_token_limit := limit\<rparr>) w"
  have "parse_good env (set_parsing_complete ?w)" by (rule set_parsing_complete_good [OF assms(1)]) (use assms st in simp_all)
  moreover have "st \<noteq> WSI_TOKEN_CHALLENGE \<Longrightarrow> parse_good env (parse_start_fragment env ?w)"
    by (rule parse_start_fragment_good [OF assms(1)]) (use assms st in simp_all)
  ultimately show ?thesis unfolding parse_known_header_def Let_def st_def [symmetric] dup limit bind.bind_lunit
    by (intro parse_good_if parse_goodI) blast+
qed

lemma parse_name_part_good:
  assumes "env_ok env" "parse_inv env (wsi_ah w)" "ah_parser_state (wsi_ah w) = WSI_TOKEN_NAME_PART"
  shows "parse_good env (parse_name_part env c w)"
proof -
  let ?ah = "wsi_ah w"
  let ?l = "nat (ah_lextable_pos ?ah)"
  have wf: "ah_wf env ?ah" and l: "0 \<le> ah_lextable_pos ?ah" "lex_good ?l" "lex_terminal ?l = Some None"
    using assms(2,3) by (auto simp: parse_inv_def parse_state_ok_def)
  have v: "ver_term ?ah (ah_pos ?ah)" using assms(2,3) ver_ok_pos [OF wf] by (simp add: parse_inv_def)
  obtain p where p: "lextable_walk ?l (to_lower c) = Some p" "p < 0 \<or> lex_good (nat p)"
    using lex_good_walk [OF l(2,3)] by blast
  have skip: "parse_inv env (?ah\<lparr>ah_lextable_pos := p, ah_parser_state := WSI_TOKEN_SKIPPING\<rparr>)"
    by (rule parse_inv_skip) (use wf v in simp_all)
  show ?thesis
  proof (cases "p < 0")
    case True
    then show ?thesis using p(1) l(1) skip by (auto simp: parse_name_part_def parse_goodI comp_def Let_def)
  next
    case False
    then obtain t where t: "lex_terminal (nat p) = Some t" "\<forall>n. t = Some n \<longrightarrow> n < 87"
      using p(2) lex_good_terminal by blast
    show ?thesis
    proof (cases t)
      case None
      have "parse_inv env (?ah\<lparr>ah_lextable_pos := p\<rparr>)" using wf v assms(3) False p(2) t None
        by (simp add: parse_inv_def parse_state_ok_def parse_bound_def methods_def)
      then show ?thesis using p(1) l(1) t None False by (simp add: parse_name_part_def parse_goodI)
    next
      case (Some n)
      have "parse_good env (parse_known_header env n (upd_ah (\<lambda>ah. ah\<lparr>ah_lextable_pos := p\<rparr>) w))"
        by (rule parse_known_header_good [OF assms(1)]) (use wf v t(2) Some in simp_all)
      then show ?thesis using p(1) l(1) t(1) Some False by (simp add: parse_name_part_def)
    qed
  qed
qed

lemma lws_parse_char_good:
  assumes "env_ok env" "parse_inv env (wsi_ah w)"
  shows "parse_good env (lws_parse_char env c w)"
proof -
  let ?ah = "wsi_ah w"
  have wf: "ah_wf env ?ah" and st: "parse_state_ok ?ah" using assms(2) by (auto simp: parse_inv_def)
  have skip: "parse_inv env (?ah\<lparr>ah_parser_state := s\<rparr>)"
    if "ah_parser_state ?ah \<noteq> WSI_TOKEN_VERSION" "s \<in> {WSI_TOKEN_SKIPPING, WSI_TOKEN_SKIPPING_SAW_CR}" for s
    using parse_inv_skip [OF wf ver_ok_pos [OF wf] that(2)] assms(2) that(1) by (simp add: parse_inv_def)
  have name: "parse_inv env (?ah\<lparr>ah_parser_state := WSI_TOKEN_NAME_PART, ah_lextable_pos := 0\<rparr>)"
    if "ah_parser_state ?ah \<noteq> WSI_TOKEN_VERSION"
    using wf ver_ok_pos [OF wf _ that] assms(2) lex_good_0
    by (simp add: parse_inv_def parse_state_ok_def parse_bound_def methods_def)
  consider "ah_parser_state ?ah = WSI_TOKEN_NAME_PART" | "ah_parser_state ?ah = WSI_TOKEN_SKIPPING"
    | "ah_parser_state ?ah = WSI_TOKEN_SKIPPING_SAW_CR" | "ah_parser_state ?ah = WSI_PARSING_COMPLETE"
    | "ah_parser_state ?ah < WSI_TOKEN_COUNT" "ah_parser_state ?ah \<noteq> WSI_TOKEN_CHALLENGE"
    using st by (auto simp: parse_state_ok_def split: if_splits)
  then show ?thesis
  proof cases
    case 1
    then show ?thesis using parse_name_part_good [OF assms] by (simp add: lws_parse_char_def)
  next
    case 2
    then show ?thesis using skip assms(2) by (simp add: lws_parse_char_def parse_goodI)
  next
    case 3
    then show ?thesis using skip name by (simp add: lws_parse_char_def parse_skipping_saw_cr_def parse_goodI)
  next
    case 4
    then show ?thesis using assms(2) by (simp add: lws_parse_char_def parse_goodI)
  next
    case 5
    then show ?thesis using parse_value_good [OF assms 5] by (simp add: lws_parse_char_def)
  qed
qed


subsection \<open>Whole buffers\<close>

lemma lws_parse_good:
  assumes "env_ok env"
  shows "parse_inv env (wsi_ah w) \<Longrightarrow> buf \<noteq> [] \<Longrightarrow>
    (case lws_parse env buf w of
       None \<Rightarrow> asserts_enabled env
     | Some (r, rest, w') \<Rightarrow> r = - 1 \<or> r = 2 \<or> r = 0 \<and> parse_inv env (wsi_ah w'))"
proof (induction buf arbitrary: w)
  case (Cons c buf)
  note g = lws_parse_char_good [OF assms Cons.prems(1), of c]
  show ?case
  proof (cases "lws_parse_char env c w")
    case None
    then show ?thesis using g by (simp add: parse_good_def)
  next
    case (Some x)
    obtain nx w' where x: "x = (nx, w')" by (cases x)
    show ?thesis
    proof (cases nx)
      case Next
      then have "parse_inv env (wsi_ah w')" using g Some x by (simp add: parse_good_def)
      with Cons.IH [of w'] Some x Next show ?thesis by simp
    next
      case (Ret r)
      then show ?thesis using g Some x by (auto simp: parse_good_def)
    qed
  qed
qed simp

text \<open>C4: the parser is memory safe. From a well-formed header table, whatever bytes a peer sends, a build
  without assertions performs no undefined operation: every access to the data, the fragments, the
  index and the name table is inside of its array, every loop ends, and the version header that is read as
  a C string has a terminator. The result is one of the three documented values, and after 0 the table is
  well-formed again, so that the next buffer may follow.\<close>

theorem lws_parse_safe:
  assumes "env_ok env" "\<not> asserts_enabled env" "parse_inv env (wsi_ah w)" "buf \<noteq> []"
  shows "\<exists>r rest w'. lws_parse env buf w = Some (r, rest, w') \<and>
    (r = - 1 \<or> r = 2 \<or> r = 0 \<and> parse_inv env (wsi_ah w'))"
  using lws_parse_good [OF assms(1,3,4)] assms(2) by (auto split: option.splits)

lemma parse_inv_reset:
  assumes "length (ah_data ah) = max_http_header_data env" "length (ah_frags ah) = WSI_TOKEN_COUNT"
    "length (ah_frag_index ah) = WSI_TOKEN_COUNT"
  shows "parse_inv env (lws_header_table_reset_ah ah)"
  using ah_wf_reset [OF assms] lex_good_0 assms(3)
  by (simp add: parse_inv_def parse_state_ok_def ver_term_def lws_header_table_reset_ah_def)

definition demo_wsi :: hdr_wsi where
  "demo_wsi = \<lparr>wsi_ah = lws_header_table_reset_ah demo_ah, wsi_rx_frame_type = 0, wsi_hdr_parsing_completed = False,
     wsi_http_status = []\<rparr>"

lemma demo_wsi_inv: "parse_inv demo_env (wsi_ah demo_wsi)"
  unfolding demo_wsi_def hdr_wsi.simps by (rule parse_inv_reset) (simp_all add: demo_ah_def demo_env_def)

theorem lws_parse_safe_witness:
  "\<exists>r rest w'. lws_parse demo_env (bytes_of ''GET /%2e%2e/x HTTP'') demo_wsi = Some (r, rest, w') \<and>
     (r = - 1 \<or> r = 2 \<or> r = 0 \<and> parse_inv demo_env (wsi_ah w'))"
  by (rule lws_parse_safe [OF demo_env_ok _ demo_wsi_inv]) (simp_all add: demo_env_def)


subsection \<open>The cut into buffers does not matter\<close>

definition marks_complete :: "hdr_wsi \<Rightarrow> (parse_next \<times> hdr_wsi) option \<Rightarrow> bool" where
  "marks_complete w x \<longleftrightarrow> (\<forall>nx w'. x = Some (nx, w') \<longrightarrow>
     wsi_hdr_parsing_completed w' = (wsi_hdr_parsing_completed w \<or> nx = Ret 0))"

lemma marks_complete_if:
  "(P \<Longrightarrow> marks_complete w x) \<Longrightarrow> (\<not> P \<Longrightarrow> marks_complete w y) \<Longrightarrow> marks_complete w (if P then x else y)"
  by simp

lemma marks_complete_bind:
  "(\<And>y. x = Some y \<Longrightarrow> marks_complete w (f y)) \<Longrightarrow> marks_complete w (x \<bind> f)"
  by (cases x) (simp_all add: marks_complete_def)

lemma marks_complete_keep:
  "wsi_hdr_parsing_completed w' = wsi_hdr_parsing_completed w \<Longrightarrow> marks_complete w x = marks_complete w' x"
  by (simp add: marks_complete_def)

lemma marks_complete_Some:
  "marks_complete w (Some (Next, w')) = (wsi_hdr_parsing_completed w' = wsi_hdr_parsing_completed w)"
  "marks_complete w (Some (Ret r, w')) = (wsi_hdr_parsing_completed w' = (wsi_hdr_parsing_completed w \<or> r = 0))"
  "marks_complete w (parse_forbid w') = (wsi_hdr_parsing_completed w' = wsi_hdr_parsing_completed w)"
  by (auto simp: marks_complete_def parse_forbid_def)

lemma marks_complete_set_parsing: "marks_complete w (set_parsing_complete w)"
  by (auto simp: set_parsing_complete_def marks_complete_Some intro!: marks_complete_if marks_complete_bind)

lemma marks_complete_excessive: "marks_complete w (parse_excessive env w)"
  by (auto simp: parse_excessive_def Let_def marks_complete_Some intro!: marks_complete_if marks_complete_bind)

lemma marks_complete_swallow: "marks_complete w (parse_swallow w)"
  by (simp add: parse_swallow_def marks_complete_set_parsing marks_complete_Some)

lemma marks_complete_start: "marks_complete w (parse_start_fragment env w)"
  unfolding parse_start_fragment_def by (rule marks_complete_keep [THEN iffD2, OF _ marks_complete_excessive]) simp


lemmas marks_complete_ends = marks_complete_set_parsing marks_complete_excessive marks_complete_swallow marks_complete_start

lemma marks_complete_upd:
  "marks_complete (w\<lparr>wsi_ah := a\<rparr>) x = marks_complete w x" "marks_complete (upd_ah f w) x = marks_complete w x"
  by (simp_all add: marks_complete_def)

lemma marks_complete_ah:
  "(\<And>w. marks_complete w (f w)) \<Longrightarrow> marks_complete w (f (w\<lparr>wsi_ah := a\<rparr>))"
  "(\<And>w. marks_complete w (f w)) \<Longrightarrow> marks_complete w (f (upd_ah g w))"
  by (metis marks_complete_upd)+

lemma marks_complete_issue: "marks_complete w (parse_issue env c w)"
proof -
  have "marks_complete w (parse_swallow w')" if "wsi_hdr_parsing_completed w' = wsi_hdr_parsing_completed w" for w'
    using marks_complete_keep [OF that] marks_complete_swallow [of w'] by simp
  then show ?thesis
    by (auto simp: parse_issue_def Let_def marks_complete_Some intro!: marks_complete_if marks_complete_bind)
qed

lemma marks_complete_check_eol: "marks_complete w (parse_check_eol env c w)"
  by (auto simp: parse_check_eol_def marks_complete_Some marks_complete_issue
      intro!: marks_complete_if marks_complete_ah(2) [where f = "parse_issue env 0"])

lemma marks_complete_uri_end: "marks_complete w (parse_uri_end env w)"
  by (auto simp: parse_uri_end_def marks_complete_Some marks_complete_start
      intro!: marks_complete_if marks_complete_bind marks_complete_ah(1) [where f = "parse_start_fragment env"])

lemma marks_complete_value: "marks_complete w (parse_value env c w)"
proof -
  have "marks_complete w (case r of LPUR_CONTINUE \<Rightarrow> parse_check_eol env d (w\<lparr>wsi_ah := ah\<rparr>)
      | LPUR_SWALLOW \<Rightarrow> parse_swallow (w\<lparr>wsi_ah := ah\<rparr>) | LPUR_FORBID \<Rightarrow> parse_forbid (w\<lparr>wsi_ah := ah\<rparr>)
      | LPUR_EXCESSIVE \<Rightarrow> parse_excessive env (w\<lparr>wsi_ah := ah\<rparr>) | LPUR_FAIL \<Rightarrow> Some (Ret (- 1), w\<lparr>wsi_ah := ah\<rparr>))" for r d ah
    using marks_complete_ah(1) [of "parse_check_eol env d"] marks_complete_ah(1) [of parse_swallow]
      marks_complete_ah(1) [of "parse_excessive env"] marks_complete_check_eol marks_complete_ends
    by (cases r) (auto simp: marks_complete_Some)
  then show ?thesis
    by (auto simp: parse_value_def Let_def marks_complete_Some marks_complete_check_eol marks_complete_uri_end
        intro!: marks_complete_if marks_complete_bind)
qed

lemma marks_complete_known_header: "marks_complete w (parse_known_header env n w)"
  by (auto simp: parse_known_header_def Let_def marks_complete_Some marks_complete_ends
      intro!: marks_complete_if marks_complete_bind marks_complete_ah(2) [where f = set_parsing_complete]
        marks_complete_ah(2) [where f = "parse_start_fragment env"])

lemma marks_complete_name_part: "marks_complete w (parse_name_part env c w)"
proof -
  have "marks_complete w (case t of Some n \<Rightarrow> parse_known_header env n (upd_ah f w) | None \<Rightarrow> Some (Next, upd_ah f w))" for t f
    using marks_complete_ah(2) [of "parse_known_header env (the t)"] marks_complete_known_header
    by (cases t) (auto simp: marks_complete_Some)
  then show ?thesis
    by (auto simp: parse_name_part_def Let_def marks_complete_Some intro!: marks_complete_if marks_complete_bind)
       (simp_all add: marks_complete_def)
qed

lemma marks_complete_char: "marks_complete w (lws_parse_char env c w)"
  by (auto simp: lws_parse_char_def Let_def marks_complete_name_part marks_complete_value parse_skipping_saw_cr_def
      marks_complete_Some)

lemma lws_parse_cut:
  assumes "a \<noteq> []" "b \<noteq> []" "\<not> wsi_hdr_parsing_completed w"
  shows "lws_parse env (a @ b) w =
    (case lws_parse env a w of
       None \<Rightarrow> None
     | Some (r, rest, w') \<Rightarrow> if r \<noteq> 0 \<or> wsi_hdr_parsing_completed w' then Some (r, rest @ b, w') else lws_parse env b w')"
  using assms(1,3)
proof (induction a arbitrary: w)
  case (Cons c a)
  show ?case
  proof (cases "lws_parse_char env c w")
    case (Some x)
    obtain nx w' where x: "x = (nx, w')" by (cases x)
    have m: "wsi_hdr_parsing_completed w' = (nx = Ret 0)"
      using marks_complete_char [of w env c] Some x Cons.prems(2) by (simp add: marks_complete_def)
    show ?thesis
    proof (cases nx)
      case Next
      with m Some x Cons.IH [of w'] assms(2) show ?thesis by (cases "a = []") auto
    next
      case (Ret r)
      with m Some x show ?thesis by simp
    qed
  qed simp
qed simp

text \<open>C17: how the stream is cut into buffers does not matter: parsing \<open>a @ b\<close> at once gives the result of
  parsing \<open>a\<close> and then, unless that failed or completed the headers, \<open>b\<close> in the state that \<open>a\<close> led to; when
  it did, the bytes of \<open>b\<close> are left unread.\<close>

theorem lws_parse_append:
  assumes "a \<noteq> []" "b \<noteq> []" "\<not> wsi_hdr_parsing_completed w"
  shows "lws_parse env (a @ b) w =
    (case lws_parse env a w of
       None \<Rightarrow> None
     | Some (r, rest, w') \<Rightarrow> if r \<noteq> 0 \<or> wsi_hdr_parsing_completed w' then Some (r, rest @ b, w') else lws_parse env b w')"
  by (rule lws_parse_cut [OF assms])

theorem lws_parse_append_witness:
  "lws_parse demo_env (bytes_of ''GE'' @ bytes_of ''T /'') demo_wsi =
     (case lws_parse demo_env (bytes_of ''GE'') demo_wsi of
        None \<Rightarrow> None
      | Some (r, rest, w') \<Rightarrow>
          if r \<noteq> 0 \<or> wsi_hdr_parsing_completed w' then Some (r, rest @ bytes_of ''T /'', w') else lws_parse demo_env (bytes_of ''T /'') w')"
  by (rule lws_parse_append) (simp_all add: demo_wsi_def)



end
