(* ===== verification/Http_Request.thy ===== *)
theory Http_Request
  imports Http_Parse
begin

text \<open>
  What \<open>lws_parse\<close> makes of the URI of a request line: the path that it stores has no \<open>..\<close> segment, as
  long as the client sends the request line first and escapes neither NUL nor a carriage return. The
  examples at the end show that each of these conditions is needed.
\<close>


subsection \<open>The path of a request\<close>

text \<open>The escapes of the URI are not those of NUL and carriage return.\<close>

fun clean_escapes :: "u8 list \<Rightarrow> bool" where
  "clean_escapes (p # a # b # cs) =
     (if p = ch CHR ''%'' then uri_unhex a b \<noteq> 0 \<and> uri_unhex a b \<noteq> 0x0d \<and> clean_escapes cs
      else clean_escapes (a # b # cs))"
| "clean_escapes _ = True"

lemma clean_escapes_tail: "p \<noteq> ch CHR ''%'' \<Longrightarrow> clean_escapes (p # cs) \<Longrightarrow> clean_escapes cs"
  by (cases cs rule: clean_escapes.cases) (auto split: if_splits)

text \<open>The part of an escape that has been read.\<close>

definition esc_pending :: "allocated_headers \<Rightarrow> u8 list" where
  "esc_pending ah =
     (case ah_ues ah of URIES_IDLE \<Rightarrow> [] | URIES_SEEN_PERCENT \<Rightarrow> [ch CHR ''%'']
      | URIES_SEEN_PERCENT_H1 \<Rightarrow> [ch CHR ''%'', ah_esc_stash ah])"

lemma esc_pending_step:
  assumes "clean_escapes (esc_pending ah @ c # rest)" "uri_unescape c ah = (x, ah1)" "x \<noteq> Inl LPUR_FORBID" "c \<noteq> 0" "c \<noteq> 0x0d"
  shows "clean_escapes (esc_pending ah1 @ rest)" "x = Inr (enc, d) \<Longrightarrow> d \<noteq> 0 \<and> d \<noteq> 0x0d"
proof -
  have "clean_escapes (esc_pending ah1 @ rest) \<and> (\<forall>enc d. x = Inr (enc, d) \<longrightarrow> d \<noteq> 0 \<and> d \<noteq> 0x0d)"
  proof (cases "ah_ues ah")
    case URIES_IDLE
    then show ?thesis using assms clean_escapes_tail [of c rest]
      by (cases "c = ch CHR ''%''") (auto simp: esc_pending_def uri_unescape_def)
  next
    case URIES_SEEN_PERCENT
    then show ?thesis using assms by (auto simp: esc_pending_def uri_unescape_def split: if_splits)
  next
    case URIES_SEEN_PERCENT_H1
    then show ?thesis using assms by (auto simp: esc_pending_def uri_unescape_def split: if_splits)
  qed
  then show "clean_escapes (esc_pending ah1 @ rest)" "x = Inr (enc, d) \<Longrightarrow> d \<noteq> 0 \<and> d \<noteq> 0x0d" by blast+
qed

lemma esc_pending_cong: "ah_ues ah' = ah_ues ah \<Longrightarrow> ah_esc_stash ah' = ah_esc_stash ah \<Longrightarrow> esc_pending ah' = esc_pending ah"
  by (cases "ah_ues ah") (simp_all add: esc_pending_def)

lemma uri_path_step_char:
  assumes "env_ok env" "ah_wf env ah" "uri_path_step env enc d ah = Some (Inr c', ah')"
  shows "c' = d \<or> c' = ch CHR ''_'' \<or> c' = ch CHR '' ''"
proof (cases "ah_ups ah = URIPS_IDLE")
  case True
  then have i: "uri_path_idle env enc d ah = Some (Inr c', ah')" using assms(3) by (simp add: uri_path_step_def)
  then have c: "d \<noteq> 0" "\<not> ((d = ch CHR ''&'' \<or> d = ch CHR '';'') \<and> \<not> enc)"
    by (auto simp: uri_path_idle_def)
  show ?thesis using i unfolding uri_path_idle_spec [OF ah_wfD(3) [OF assms(2)] c]
    by (auto simp: uri_idle_char_def split: if_splits)
next
  case False
  then show ?thesis using assms(3)
    by (auto simp: uri_path_step_def uri_path_dot_dot_def bind_eq_Some split: uri_path_states.splits if_splits)
qed

lemma urldecode_escapes:
  assumes "env_ok env" "ah_wf env ah" "lws_parse_urldecode env c ah = Some (r, c', ah')" "r = LPUR_CONTINUE \<or> r = LPUR_SWALLOW"
    and "clean_escapes (esc_pending ah @ c # rest)" "c \<noteq> 0" "c \<noteq> 0x0d"
  shows "clean_escapes (esc_pending ah' @ rest)" "r = LPUR_CONTINUE \<Longrightarrow> c' \<noteq> 0x0d"
    "uri_unescape c ah = (Inr (enc, d), ah1) \<Longrightarrow> d \<noteq> 0"
proof -
  obtain x ah2 where u: "uri_unescape c ah = (x, ah2)" by fastforce
  have x: "x \<noteq> Inl LPUR_FORBID" using assms(3,4) u by (auto simp: lws_parse_urldecode_def)
  note e = esc_pending_step [OF assms(5) u x assms(6,7)]
  show "uri_unescape c ah = (Inr (enc, d), ah1) \<Longrightarrow> d \<noteq> 0" using e(2) u by simp
  note k = uri_unescape_keeps [OF assms(2) u]
  have "clean_escapes (esc_pending ah' @ rest) \<and> (r = LPUR_CONTINUE \<longrightarrow> c' \<noteq> 0x0d)"
  proof (cases x)
    case (Inl q)
    then show ?thesis using assms(3) u k e(1) by (auto simp: lws_parse_urldecode_def)
  next
    case (Inr ec)
    obtain en d2 where ec: "ec = (en, d2)" by (cases ec)
    from assms(3) obtain y ah3 where y: "uri_path_step env en d2 ah2 = Some (y, ah3)"
      by (auto simp: lws_parse_urldecode_def u Inr ec bind_eq_Some)
    note ps = uri_path_step_keeps [OF assms(1) conjunct1 [OF k] y]
    have k3: "esc_pending ah3 = esc_pending ah2" by (rule esc_pending_cong) (use ps in \<open>simp_all add: uri_keeps_def\<close>)
    have w3: "ah_wf env ah3" if "y = Inr z" for z using ps that by (simp add: uri_keeps_def)
    show ?thesis
    proof (cases y)
      case (Inl q)
      then show ?thesis using assms(3,4) y k3 e(1) ps
        by (auto simp: lws_parse_urldecode_def u Inr ec)
    next
      case i2: (Inr d3)
      have "d2 \<noteq> 0x0d" using e(2) Inr ec by simp
      then have d3: "d3 \<noteq> 0x0d" using uri_path_step_char [OF assms(1) conjunct1 [OF k], of en d2 d3 ah3] y i2 by auto
      show ?thesis
      proof (cases "d3 = ch CHR ''?'' \<and> \<not> en \<and> ah_frag_index ah3 ! WSI_TOKEN_HTTP_URI_ARGS = 0")
        case True
        then have s: "uri_start_args env ah3 = Some (r, ah')" using assms(3) y
          by (auto simp: lws_parse_urldecode_def u Inr ec i2 bind_eq_Some rd_eq_Some)
        note sa = uri_start_args_wf [OF assms(1) w3 [OF i2] s]
        show ?thesis using sa(2) esc_pending_cong [OF sa(6,7)] k3 e(1) by simp
      next
        case False
        then show ?thesis using assms(3) y d3 k3 e(1)
          by (auto simp: lws_parse_urldecode_def u Inr ec i2 bind_eq_Some rd_eq_Some split: if_splits)
      qed
    qed
  qed
  then show "clean_escapes (esc_pending ah' @ rest)" "r = LPUR_CONTINUE \<Longrightarrow> c' \<noteq> 0x0d" by blast+
qed


text \<open>While the URI is read: the parser collects it into fragment \<open>f\<close>, and what has been collected is clean;
  or a limit was hit and the rest of the line is skipped.\<close>

definition uri_inv :: "hdr_env \<Rightarrow> nat \<Rightarrow> nat \<Rightarrow> u8 list \<Rightarrow> allocated_headers \<Rightarrow> bool" where
  "uri_inv env m f rest ah \<longleftrightarrow>
     ah_parser_state ah = WSI_TOKEN_SKIPPING \<or>
     ah_parser_state ah = m \<and> ah_frag_index ah ! m = f \<and> path_state env f ah \<and> clean_escapes (esc_pending ah @ rest)"

lemma methods_range: "m \<in> set methods \<Longrightarrow> m < 83 \<and> m \<noteq> WSI_TOKEN_CHALLENGE \<and> m \<noteq> WSI_TOKEN_HTTP \<and> m \<noteq> WSI_TOKEN_HTTP_URI_ARGS"
  by (auto simp: methods_def)

text \<open>The decoded character \<open>d\<close> is stored.\<close>

lemma uri_inv_issue:
  assumes "env_ok env" "m \<in> set methods" "path_pending env f d a" "d \<noteq> 0" "d \<noteq> 0x0d" "clean_escapes (esc_pending a @ rest)"
    and "ah_parser_state a = m" "ah_frag_index a ! m = f"
    and "parse_check_eol env d (w\<lparr>wsi_ah := a\<rparr>) = Some (nx, w')" "nx \<noteq> Ret (- 1)"
  shows "nx = Next \<and> uri_inv env m f rest (wsi_ah w')"
proof -
  note mr = methods_range [OF assms(2)]
  have wfa: "ah_wf env a" using assms(3) by (simp add: path_pending_def)
  have pi: "parse_issue env d (w\<lparr>wsi_ah := a\<rparr>) = Some (nx, w')" using assms(5,9) by (simp add: parse_check_eol_def)
  then obtain q b where i: "issue_char env d a = Some (q, b)" by (auto simp: parse_issue_def bind_eq_Some)
  note b = issue_char_wf [OF assms(1) wfa i]
  have "ah_parser_state b = m" using b(6) assms(7) by simp
  then have nx: "nx = Next" "wsi_ah w' = (if q > 0 then b\<lparr>ah_parser_state := WSI_TOKEN_SKIPPING\<rparr> else b)" "0 \<le> q"
    using pi i assms(10) mr by (auto simp: parse_issue_def parse_swallow_def Let_def split: if_splits)
  show ?thesis
  proof (cases "q > 0")
    case True
    then show ?thesis using nx by (simp add: uri_inv_def)
  next
    case False
    then have "q = 0" using nx(3) by simp
    then show ?thesis using nx path_pending_issue(1) [OF assms(1,3,4) i] assms(6-8) esc_pending_cong [OF b(5,7)] b(2,6)
      by (simp add: uri_inv_def)
  qed
qed

lemma uri_inv_char:
  assumes "env_ok env" "m \<in> set methods" "uri_inv env m f (c # rest) (wsi_ah w)" "c \<noteq> 0" "c \<noteq> 0x0d" "c \<noteq> ch CHR '' ''"
    and "lws_parse_char env c w = Some (nx, w')" "nx \<noteq> Ret (- 1)"
  shows "nx = Next \<and> uri_inv env m f rest (wsi_ah w')"
proof (cases "ah_parser_state (wsi_ah w) = WSI_TOKEN_SKIPPING")
  case True
  then show ?thesis using assms(5,7) by (simp add: lws_parse_char_def uri_inv_def)
next
  case False
  let ?ah = "wsi_ah w"
  note mr = methods_range [OF assms(2)]
  have st: "ah_parser_state ?ah = m" "ah_frag_index ?ah ! m = f" "path_state env f ?ah" "clean_escapes (esc_pending ?ah @ c # rest)"
    using assms(3) False by (auto simp: uri_inv_def)
  have wf: "ah_wf env ?ah" using st(3) by (simp add: path_state_def)
  have f: "f \<le> ah_nfrag ?ah" "f < length (ah_frags ?ah)" "m < length (ah_frag_index ?ah)"
    using st(3) ah_wfD(2-4) [OF wf] mr by (auto simp: path_state_def)
  have v: "parse_value env c w = Some (nx, w')" using assms(7) st(1) mr by (auto simp: lws_parse_char_def)
  then obtain r d a where u: "lws_parse_urldecode env c ?ah = Some (r, d, a)"
    and nx: "(case r of LPUR_CONTINUE \<Rightarrow> parse_check_eol env d (w\<lparr>wsi_ah := a\<rparr>)
       | LPUR_SWALLOW \<Rightarrow> parse_swallow (w\<lparr>wsi_ah := a\<rparr>) | LPUR_FORBID \<Rightarrow> parse_forbid (w\<lparr>wsi_ah := a\<rparr>)
       | LPUR_EXCESSIVE \<Rightarrow> parse_excessive env (w\<lparr>wsi_ah := a\<rparr>) | LPUR_FAIL \<Rightarrow> Some (Ret (- 1), w\<lparr>wsi_ah := a\<rparr>)) = Some (nx, w')"
    using assms(2,6) f st(1,2) by (auto simp: parse_value_def bind_eq_Some rd_Some Let_def)
  note k = lws_parse_urldecode_wf [OF assms(1) wf u]
  have ok: "r = LPUR_CONTINUE \<or> r = LPUR_SWALLOW"
    using nx assms(8) k(2) by (cases r) (auto simp: parse_forbid_def parse_excessive_def)
  note e = urldecode_escapes [OF assms(1) wf u ok st(4) assms(4,5)]
  note p = path_urldecode [OF assms(1) st(3) u e(3)]
  have a: "ah_parser_state a = m" "ah_frag_index a ! m = f" using k(3,4) st mr by auto
  show ?thesis
  proof (cases "r = LPUR_SWALLOW")
    case True
    then show ?thesis using nx a p(1) e(1) mr by (auto simp: parse_swallow_def uri_inv_def)
  next
    case False
    then have r: "r = LPUR_CONTINUE" using ok by simp
    have pend: "d \<noteq> 0" "path_pending env f d a" using p(2) [OF _ r] by auto
    show ?thesis
      by (rule uri_inv_issue [OF assms(1,2) pend(2,1) e(2) [OF r] e(1) a _ assms(8)]) (use nx r in simp)
  qed
qed

lemma uri_inv_parse:
  assumes "env_ok env" "m \<in> set methods"
  shows "cs \<noteq> [] \<Longrightarrow> uri_inv env m f (cs @ rest) (wsi_ah w) \<Longrightarrow> 0 \<notin> set cs \<Longrightarrow> 0x0d \<notin> set cs \<Longrightarrow> ch CHR '' '' \<notin> set cs \<Longrightarrow>
    lws_parse env cs w = Some (r, bs, w') \<Longrightarrow> r \<noteq> - 1 \<Longrightarrow> r = 0 \<and> bs = [] \<and> uri_inv env m f rest (wsi_ah w')"
proof (induction cs arbitrary: w)
  case (Cons c cs)
  from Cons.prems(6) obtain nx w1 where c: "lws_parse_char env c w = Some (nx, w1)" "nx \<noteq> Ret (- 1)"
    using Cons.prems(7) by (auto split: option.splits parse_next.splits)
  have i: "uri_inv env m f (c # cs @ rest) (wsi_ah w)" "c \<noteq> 0" "c \<noteq> 0x0d" "c \<noteq> ch CHR '' ''" using Cons.prems(2-5) by auto
  have n: "nx = Next" "uri_inv env m f (cs @ rest) (wsi_ah w1)"
    using uri_inv_char [OF assms i c] by auto
  show ?case
  proof (cases "cs = []")
    case True
    then show ?thesis using c n Cons.prems(6) by simp
  next
    case False
    then show ?thesis using Cons.IH [OF False n(2)] Cons.prems c n(1) by simp
  qed
qed simp


text \<open>The space at the end of the URI.\<close>

lemma issue_other_bytes:
  assumes "env_ok env" "ah_wf env ah" "issue_char env c ah = Some (r, ah')" "i < ah_nfrag ah"
  shows "hdr_bytes ah' i = hdr_bytes ah i"
proof -
  have "ah' = ah \<or> ah' = ah_push c ah \<or> ah' = ah_push 0 ah" using assms(3)
    by (auto simp: issue_char_spec [OF assms(1,2)] ah_hit_limit_def split: if_splits)
  then show ?thesis using hdr_bytes_push_other [OF assms(2)] assms(4) by auto
qed

lemma start_fragment_bytes:
  assumes "env_ok env" "ah_wf env (wsi_ah w)" "ah_parser_state (wsi_ah w) < WSI_TOKEN_COUNT" "f \<le> ah_nfrag (wsi_ah w)"
    and "parse_start_fragment env w = Some (nx, w')" "nx \<noteq> Ret (- 1)"
  shows "hdr_bytes (wsi_ah w') f = hdr_bytes (wsi_ah w) f \<and> nx = Next \<and>
    ah_parser_state (wsi_ah w') = ah_parser_state (wsi_ah w) \<and>
    (\<forall>i. i \<noteq> ah_parser_state (wsi_ah w) \<longrightarrow> ah_frag_index (wsi_ah w') ! i = ah_frag_index (wsi_ah w) ! i)"
proof (cases "ah_nfrag (wsi_ah w) + 1 = WSI_TOKEN_COUNT")
  case True
  then show ?thesis using assms(5,6) ah_wfD(2) [OF assms(2)]
    by (simp add: parse_start_fragment_def parse_excessive_def inc8_def)
next
  case False
  let ?ah = "wsi_ah w"
  let ?st = "ah_parser_state ?ah"
  note wf = ah_wfD [OF assms(2)]
  have n: "ah_nfrag ?ah + 1 < WSI_TOKEN_COUNT" using False wf(4) by simp
  note start = parse_start_fragment_spec [OF assms(2) n assms(3), unfolded Let_def]
  have t: "hdr_bytes (token_frag ?ah) f = hdr_bytes ?ah f" "ah_nfrag (token_frag ?ah) = ah_nfrag ?ah + 1"
    "ah_frag_index (token_frag ?ah) = ah_frag_index ?ah" "ah_parser_state (token_frag ?ah) = ?st"
    using hdr_bytes_open [OF assms(2,4)] by (simp_all add: token_frag_def)
  have tw: "ah_wf env (token_frag ?ah)" unfolding token_frag_def
    using ah_wf_open [OF assms(2) n, of "ah_pos ?ah"] wf(8) by simp
  show ?thesis
  proof (cases "ah_frag_index ?ah ! ?st = 0")
    case True
    then show ?thesis using assms(5) t unfolding start by (auto simp: hdr_bytes_def)
  next
    case False
    from False assms(5) obtain m b r c where m: "frag_last (ah_frags (token_frag ?ah)) (ah_frag_index ?ah ! ?st) = Some m"
      and b: "upd_frag m (\<lambda>fr. fr\<lparr>frag_nfrag := ah_nfrag ?ah + 1\<rparr>) (token_frag ?ah) = Some b"
      and i: "issue_char env (ch CHR '' '') b = Some (r, c)"
      and w': "nx = (if r < 0 then Ret (- 1) else Next)" "w' = w\<lparr>wsi_ah := c\<rparr>"
      unfolding start by (auto simp: bind_eq_Some)
    have fi: "ah_frag_index ?ah ! ?st \<le> ah_nfrag ?ah" using wf(3,5) assms(3) by simp
    have "\<forall>i \<le> ah_nfrag ?ah. ah_frags (token_frag ?ah) ! i = ah_frags ?ah ! i" "ah_nfrag ?ah < length (ah_frags (token_frag ?ah))"
      using wf(2) n ah_wfD(2) [OF tw] by (simp_all add: token_frag_def ah_open_frag)
    from frag_last_wf [OF assms(2) this fi] have "m \<le> ah_nfrag ?ah" using m by simp
    then have mm: "m < length (ah_frags (token_frag ?ah))" "m < ah_nfrag ?ah + 1" using ah_wfD(2) [OF tw] wf(4) by simp_all
    have be: "b = (token_frag ?ah)\<lparr>ah_frags := (ah_frags (token_frag ?ah))[m := (ah_frags (token_frag ?ah) ! m)\<lparr>frag_nfrag := ah_nfrag ?ah + 1\<rparr>]\<rparr>"
      using b mm by (simp add: upd_frag_def rd_Some)
    have bw: "ah_wf env b" unfolding be using ah_wf_link [OF tw mm(2)] t(2) by simp
    have "hdr_bytes b f = hdr_bytes (token_frag ?ah) f"
      using mm(1) unfolding be by (auto simp: hdr_bytes_def nth_list_update)
    moreover have "hdr_bytes c f = hdr_bytes b f"
      by (rule issue_other_bytes [OF assms(1) bw i]) (use be t(2) assms(4) in simp)
    ultimately show ?thesis using issue_char_wf(2,6) [OF assms(1) bw i] be t w' assms(6) by (auto split: if_splits)
  qed
qed


lemma uri_inv_end:
  assumes "env_ok env" "m \<in> set methods" "uri_inv env m f [] (wsi_ah w)"
    and "lws_parse_char env (ch CHR '' '') w = Some (nx, w')" "nx \<noteq> Ret (- 1)" "ah_parser_state (wsi_ah w') = WSI_TOKEN_HTTP"
  shows "ah_frag_index (wsi_ah w') ! m = f \<and> path_clean (hdr_bytes (wsi_ah w') f)"
proof -
  let ?ah = "wsi_ah w"
  note mr = methods_range [OF assms(2)]
  have "ah_parser_state ?ah \<noteq> WSI_TOKEN_SKIPPING" using assms(4,6) by (auto simp: lws_parse_char_def)
  then have st: "ah_parser_state ?ah = m" "ah_frag_index ?ah ! m = f" "path_state env f ?ah"
    using assms(3) by (auto simp: uri_inv_def)
  have wf: "ah_wf env ?ah" and fn: "f \<le> ah_nfrag ?ah" using st(3) by (simp_all add: path_state_def)
  have r: "rd (ah_frag_index ?ah) m = Some f" "rd (ah_frags ?ah) f = Some (ah_frags ?ah ! f)"
      "rd (ah_frags ?ah) (ah_nfrag ?ah) = Some (cur_frag ?ah)"
    using ah_wfD(2-4) [OF wf] mr st(2) fn by (simp_all add: rd_Some)
  have "parse_value env (ch CHR '' '') w = Some (nx, w')" using assms(4) st(1) mr by (auto simp: lws_parse_char_def)
  then have ne: "frag_len (ah_frags ?ah ! f) \<noteq> 0" and e: "parse_uri_end env w = Some (nx, w')"
    using assms(2,6) st(1) mr r by (auto simp: parse_value_def split: if_splits)
  obtain q a where a: "(if frag_len (cur_frag ?ah) = 0 then issue_char env (ch CHR ''/'') ?ah else Some (0, ?ah)) = Some (q, a)" "\<not> q < 0"
    using e assms(5) r(3) by (auto simp: parse_uri_end_def bind_eq_Some split: if_splits)
  have aw: "ah_wf env a" "ah_nfrag a = ah_nfrag ?ah" "ah_frag_index a = ah_frag_index ?ah" "ah_ups a = ah_ups ?ah" "hdr_bytes a f = hdr_bytes ?ah f"
    and aeq: "ah_nfrag ?ah = f \<Longrightarrow> a = ?ah"
    using a wf issue_char_wf [OF assms(1) wf] issue_other_bytes [OF assms(1) wf] ne fn by (auto simp: le_less split: if_splits)
  obtain b q2 d where b: "(if ah_ups a = URIPS_SEEN_SLASH_DOT_DOT then uri_backup a else Some a) = Some b"
    and d: "issue_char env 0 b = Some (q2, d)"
    and s: "parse_start_fragment env (w\<lparr>wsi_ah := d\<lparr>ah_parser_state := WSI_TOKEN_HTTP\<rparr>\<rparr>) = Some (nx, w')"
    using e assms(5) r(3) a by (auto simp: parse_uri_end_def bind_eq_Some split: if_splits)
  have bw: "ah_wf env b \<and> ah_nfrag b = ah_nfrag a \<and> ah_frag_index b = ah_frag_index a \<and> path_clean (hdr_bytes b f)"
  proof (cases "ah_ups a = URIPS_SEEN_SLASH_DOT_DOT")
    case True
    then have bk: "uri_backup a = Some b" using b by simp
    then obtain k where k: "b = ah_shrink k a" "ah_wf env b" using uri_backup_wf [OF assms(1) aw(1)] by force
    show ?thesis
    proof (cases "ah_nfrag ?ah = f")
      case here: True
      then have "tight a" "path_inv (ah_ups ?ah) (hdr_bytes a f)" "hdr_bytes a f \<noteq> []"
        using st(3) aeq ne length_hdr_bytes [OF wf fn] by (auto simp: path_state_def)
      then show ?thesis using path_back_inv(1) uri_backup_path(1) [OF assms(1) aw(1) _ bk] k aw(2) here by auto
    next
      case False
      then show ?thesis using k hdr_bytes_shrink_other [OF aw(1), of f k] aw(2,5) fn path_state_clean [OF st(3)] by simp
    qed
  next
    case False
    then show ?thesis using b aw path_state_clean [OF st(3)] by simp
  qed
  note dw = issue_char_wf [OF assms(1) conjunct1 [OF bw] d]
  have db: "hdr_bytes d f = hdr_bytes b f"
    by (rule issue_zero_bytes [OF assms(1) conjunct1 [OF bw] d]) (use bw aw(2) fn in simp)
  have "hdr_bytes (wsi_ah w') f = hdr_bytes (d\<lparr>ah_parser_state := WSI_TOKEN_HTTP\<rparr>) f \<and>
      (\<forall>i. i \<noteq> WSI_TOKEN_HTTP \<longrightarrow> ah_frag_index (wsi_ah w') ! i = ah_frag_index d ! i)"
    using start_fragment_bytes [OF assms(1) _ _ _ s assms(5), of f] dw(1,3) bw aw(2) fn by simp
  then show ?thesis using db bw dw(2) aw(3) st(2) mr by (simp add: hdr_bytes_def)
qed

text \<open>The start of a request line: the name of a method, in upper or lower case, and a space. \<open>lex_line\<close> is the
  way of a word through the table, with the position it ends at and its token.\<close>

lemmas lex_eval = lextable_walk.simps lextable_bytes [unfolded One_nat_def] numeral_2_eq_2 [symmetric] int16_of_def FAIL_CHAR_def
  lex_terminal_def

fun lex_line :: "nat \<Rightarrow> u8 list \<Rightarrow> (nat \<times> nat) option" where
  "lex_line p [] = None"
| "lex_line p (c # cs) =
     do { q \<leftarrow> lextable_walk p c;
          t \<leftarrow> (if q < 0 then None else lex_terminal (nat q));
          case t of
            Some n \<Rightarrow> if cs = [] then Some (nat q, n) else None
          | None \<Rightarrow> lex_line (nat q) cs }"

lemma lex_methods: "m \<in> set methods \<Longrightarrow> \<exists>q. lex_line 0 (token_names ! m) = Some (q, m)"
  by (simp add: methods_def token_names_at [unfolded One_nat_def] lex_eval) (elim disjE; simp add: token_names_at [unfolded One_nat_def] lex_eval)

lemma lws_parse_lex:
  "lex_line p (map to_lower cs) = Some (q, n) \<Longrightarrow> ah_parser_state (wsi_ah w) = WSI_TOKEN_NAME_PART \<Longrightarrow>
   ah_lextable_pos (wsi_ah w) = int p \<Longrightarrow>
   parse_known_header env n (upd_ah (\<lambda>ah. ah\<lparr>ah_lextable_pos := int q\<rparr>) w) = Some (Next, w') \<Longrightarrow>
   lws_parse env cs w = Some (0, [], w')"
proof (induction cs arbitrary: p w)
  case (Cons c cs)
  from Cons.prems(1) obtain r t where r: "lextable_walk p (to_lower c) = Some r" "0 \<le> r" "lex_terminal (nat r) = Some t"
    and t: "(case t of Some n \<Rightarrow> if cs = [] then Some (nat r, n) else None | None \<Rightarrow> lex_line (nat r) (map to_lower cs)) = Some (q, n)"
    by (auto simp: bind_eq_Some split: if_splits)
  let ?w = "upd_ah (\<lambda>ah. ah\<lparr>ah_lextable_pos := r\<rparr>) w"
  have c: "lws_parse_char env c w = (case t of Some n \<Rightarrow> parse_known_header env n ?w | None \<Rightarrow> Some (Next, ?w))"
    using r Cons.prems(2,3) by (simp add: lws_parse_char_def parse_name_part_def Let_def)
  show ?case
  proof (cases t)
    case None
    have "upd_ah (\<lambda>ah. ah\<lparr>ah_lextable_pos := int q\<rparr>) ?w = upd_ah (\<lambda>ah. ah\<lparr>ah_lextable_pos := int q\<rparr>) w" by (simp add: comp_def)
    then have "lws_parse env cs ?w = Some (0, [], w')"
      using Cons.prems(2,4) None r(2) t by (intro Cons.IH [of "nat r" ?w]) (simp_all add: comp_def)
    then show ?thesis using None t c by (cases "cs = []") auto
  next
    case (Some k)
    then have "cs = []" "q = nat r" "n = k" using t by (auto split: if_splits)
    then show ?thesis using c Some r(2) Cons.prems(4) by simp
  qed
qed simp

definition line_ah :: "nat \<Rightarrow> nat \<Rightarrow> nat \<Rightarrow> allocated_headers \<Rightarrow> allocated_headers" where
  \<comment> \<open>the table when the name of method \<open>m\<close> and a space have been read\<close>
  "line_ah pos m limit ah = (token_frag (ah\<lparr>ah_lextable_pos := int pos, ah_parser_state := m, ah_ups := URIPS_IDLE,
       ah_current_token_limit := limit\<rparr>))\<lparr>ah_frag_index := (ah_frag_index ah)[m := 1], ah_hdr_token_idx := m\<rparr>"

lemma line_start:
  assumes "env_ok env" "ah_wf env (wsi_ah w)" "ah_parser_state (wsi_ah w) = WSI_TOKEN_NAME_PART" "ah_lextable_pos (wsi_ah w) = 0"
    and "ah_frag_index (wsi_ah w) ! m = 0" "ah_nfrag (wsi_ah w) = 0" "m \<in> set methods" "map to_lower name = token_names ! m"
  shows "\<exists>pos limit. lws_parse env name w = Some (0, [], w\<lparr>wsi_ah := line_ah pos m limit (wsi_ah w)\<rparr>)"
proof -
  note mr = methods_range [OF assms(7)]
  obtain pos where pos: "lex_line 0 (map to_lower name) = Some (pos, m)" using lex_methods [OF assms(7)] assms(8) by auto
  obtain limit where limit: "(case token_limits env of Some limits \<Rightarrow> rd limits m
      | None \<Rightarrow> Some (max_http_header_data env)) = Some limit"
    using assms(1) mr by (cases "token_limits env") (auto simp: env_ok_def rd_Some)
  let ?n = "upd_ah (\<lambda>ah. ah\<lparr>ah_lextable_pos := int pos\<rparr>) w"
  let ?k = "upd_ah (\<lambda>ah. ah\<lparr>ah_parser_state := m, ah_ups := URIPS_IDLE, ah_current_token_limit := limit\<rparr>) ?n"
  have sw: "m \<noteq> WSI_TOKEN_SWORIGIN" using assms(7) by (auto simp: methods_def)
  have "parse_known_header env m ?n = parse_start_fragment env ?k"
    using limit assms(5,7) ah_wfD(3) [OF assms(2)] mr sw by (simp add: parse_known_header_def rd_Some)
  also have "\<dots> = Some (Next, w\<lparr>wsi_ah := line_ah pos m limit (wsi_ah w)\<rparr>)"
    using parse_start_fragment_spec [of env ?k] assms(2,5,6) mr by (simp add: line_ah_def)
  finally show ?thesis using lws_parse_lex [OF pos assms(3)] assms(4) by auto
qed

text \<open>The first slash of the target is stored, and the invariant holds.\<close>

lemma line_ah_slash:
  assumes "env_ok env" "ah_wf env ah" "ah_frag_index ah = replicate WSI_TOKEN_COUNT 0" "ah_nfrag ah = 0" "ah_ues ah = URIES_IDLE"
    and "m \<in> set methods" "wsi_ah w = line_ah pos m limit ah" "clean_escapes rest"
    and "lws_parse_char env (ch CHR ''/'') w = Some (nx, w')" "nx \<noteq> Ret (- 1)"
  shows "nx = Next \<and> uri_inv env m 1 rest (wsi_ah w')"
proof -
  note mr = methods_range [OF assms(6)]
  let ?a = "ah\<lparr>ah_lextable_pos := int pos, ah_parser_state := m, ah_ups := URIPS_IDLE, ah_current_token_limit := limit\<rparr>"
  let ?l = "line_ah pos m limit ah"
  let ?s = "?l\<lparr>ah_ups := URIPS_SEEN_SLASH\<rparr>"
  have tw: "ah_wf env (token_frag ?a)" unfolding token_frag_def
    using ah_wf_open [of env ?a "ah_pos ah"] assms(2,4) ah_wfD(8) [OF assms(2)] by simp
  have l: "length (ah_frags ah) = WSI_TOKEN_COUNT" using ah_wfD(2) [OF assms(2)] .
  have g: "ah_wf env ?l"
    using ah_wf_index [OF tw, of m] assms(4) mr unfolding line_ah_def by (simp add: token_frag_def)
  have s: "ah_nfrag ?l = 1" "cur_frag ?l =
      (ah_frags ah ! 1)\<lparr>frag_offset := ah_pos ah, frag_len := 0, frag_nfrag := 0, frag_flags := 2\<rparr>" "ah_pos ?l = ah_pos ah"
    "ah_frag_index ?l = (replicate WSI_TOKEN_COUNT 0)[m := 1]" "ah_ups ?l = URIPS_IDLE"
    "ah_parser_state ?l = m" "ah_ues ?l = URIES_IDLE"
    using assms(3-5) l by (simp_all add: line_ah_def token_frag_def ah_open_def)
  have no_args: "ah_frag_index ?l ! WSI_TOKEN_HTTP_URI_ARGS = 0" and idx: "ah_frag_index ?l ! m = 1" using s(4) mr by (auto simp: nth_list_update)
  have bytes: "hdr_bytes ?s 1 = []" using s(1,2) by (simp add: hdr_bytes_def)
  have pend: "path_pending env 1 (ch CHR ''/'') ?s"
    using g s no_args bytes path_inv_slash by (simp add: path_pending_def tight_def)
  have u: "lws_parse_urldecode env (ch CHR ''/'') ?l = Some (LPUR_CONTINUE, ch CHR ''/'', ?s)"
    using s no_args ah_wfD(3) [OF g]
    by (simp add: lws_parse_urldecode_def uri_unescape_def uri_path_step_def uri_path_idle_def rd_Some)
  have "parse_value env (ch CHR ''/'') w = Some (nx, w')" using assms(7,9) s(6) mr by (auto simp: lws_parse_char_def)
  then have "parse_check_eol env (ch CHR ''/'') (w\<lparr>wsi_ah := ?s\<rparr>) = Some (nx, w')"
    using assms(6,7) s(1,6) idx u mr ah_wfD(2,3) [OF g] by (auto simp: parse_value_def bind_eq_Some rd_Some Let_def)
  moreover have "clean_escapes (esc_pending ?s @ rest)" using s(7) assms(8) by (simp add: esc_pending_def)
  ultimately show ?thesis
    by (intro uri_inv_issue [OF assms(1,6) pend _ _ _ _ _ _ assms(10)]) (use s(6) idx in simp_all)
qed

text \<open>C1: the path of a request never climbs. A client whose first line is the name of a method, a space, a
  target that starts with a slash and has no NUL and carriage return, plain or escaped, and a space, cannot get
  a \<open>..\<close> segment into the stored path, however it escapes dots and slashes, repeats them, or is cut off by
  limits: when the parser has gone on to the HTTP version, the stored path starts with a slash and none of its
  segments is \<open>..\<close>.\<close>

theorem uri_path_no_dot_dot:
  assumes "env_ok env" "length (ah_data ah) = max_http_header_data env" "length (ah_frags ah) = WSI_TOKEN_COUNT"
    "length (ah_frag_index ah) = WSI_TOKEN_COUNT" "ah_ues ah = URIES_IDLE"
    and w: "wsi_ah w = lws_header_table_reset_ah ah" "\<not> wsi_hdr_parsing_completed w"
    and m: "m \<in> set methods" "map to_lower name = token_names ! m"
    and cs: "cs = ch CHR ''/'' # cs'" "0 \<notin> set cs" "0x0d \<notin> set cs" "ch CHR '' '' \<notin> set cs" "clean_escapes cs"
    and p: "lws_parse env (name @ cs @ bytes_of '' '') w = Some (0, [], w')"
    and http: "ah_parser_state (wsi_ah w') = WSI_TOKEN_HTTP"
  shows "let path = hdr_bytes (wsi_ah w') (ah_frag_index (wsi_ah w') ! m) in
    path \<noteq> [] \<and> hd path = ch CHR ''/'' \<and> dot_dot \<notin> set (segs path)"
proof -
  note wf = ah_wf_reset [OF assms(2-4)]
  obtain pos limit where g: "lws_parse env name w = Some (0, [], w\<lparr>wsi_ah := line_ah pos m limit (wsi_ah w)\<rparr>)"
    using line_start [OF assms(1) _ _ _ _ _ m, of w] wf w(1) assms(4) methods_range [OF m(1)] by (auto simp: lws_header_table_reset_ah_def)
  let ?w = "w\<lparr>wsi_ah := line_ah pos m limit (wsi_ah w)\<rparr>"
  have name: "name \<noteq> []" using g by auto
  have rest: "lws_parse env (cs @ bytes_of '' '') ?w = Some (0, [], w')"
    using p w(2) g name lws_parse_cut [of name "cs @ bytes_of '' ''" w env] by simp
  then obtain nx w1 where c: "lws_parse_char env (ch CHR ''/'') ?w = Some (nx, w1)" "nx \<noteq> Ret (- 1)"
    and r1: "nx = Next \<Longrightarrow> lws_parse env (cs' @ bytes_of '' '') w1 = Some (0, [], w')"
    unfolding cs(1) by (auto split: option.splits parse_next.splits)
  have ce: "clean_escapes cs'" using clean_escapes_tail [of "ch CHR ''/''" cs'] cs(1,5) by simp
  have i: "nx = Next" "uri_inv env m 1 (cs' @ []) (wsi_ah w1)"
    using line_ah_slash [OF assms(1) wf _ _ _ m(1) _ ce c] w(1) assms(4,5) by (simp_all add: lws_header_table_reset_ah_def)
  have nc: "\<not> wsi_hdr_parsing_completed w1"
    using marks_complete_char [of ?w env "ch CHR ''/''"] c(1) i(1) w(2) by (simp add: marks_complete_Some)
  have "\<exists>w2. uri_inv env m 1 [] (wsi_ah w2) \<and> lws_parse env (bytes_of '' '') w2 = Some (0, [], w')"
  proof (cases "cs' = []")
    case True
    then show ?thesis using r1 i by (intro exI [of _ w1]) simp
  next
    case False
    from lws_parse_cut [OF False _ nc, of "bytes_of '' ''" env] r1 [OF i(1)] obtain r bs w2 where
      c: "lws_parse env cs' w1 = Some (r, bs, w2)" "r = 0" and e: "lws_parse env (bytes_of '' '') w2 = Some (0, [], w')"
      by (auto split: option.splits if_splits)
    have "uri_inv env m 1 [] (wsi_ah w2)"
      using uri_inv_parse [OF assms(1) m(1) False i(2) _ _ _ c(1)] c(2) cs(1-4) by simp
    with e show ?thesis by blast
  qed
  then obtain w2 where w2: "uri_inv env m 1 [] (wsi_ah w2)" "lws_parse env (bytes_of '' '') w2 = Some (0, [], w')"
    by blast
  from w2(2) obtain nx where "lws_parse_char env (ch CHR '' '') w2 = Some (nx, w')" "nx \<noteq> Ret (- 1)"
    by (auto split: option.splits parse_next.splits)
  from uri_inv_end [OF assms(1) m(1) w2(1) this http] show ?thesis by (auto simp: path_clean_def Let_def)
qed


text \<open>Whole requests, evaluated. What a request leads to: the return value, the parser state, and the
  stored path.\<close>

definition request_outcome :: "u8 list \<Rightarrow> (int \<times> nat \<times> u8 list) option" where
  "request_outcome buf = map_option (\<lambda>(r, _, w). (r, ah_parser_state (wsi_ah w),
     hdr_bytes (wsi_ah w) (ah_frag_index (wsi_ah w) ! WSI_TOKEN_GET_URI))) (lws_parse demo_env buf demo_wsi)"

lemmas parse_eval = lws_parse_char_def parse_name_part_def parse_known_header_def parse_value_def parse_uri_end_def
  parse_check_eol_def parse_issue_def parse_swallow_def parse_start_fragment_def parse_excessive_def parse_skipping_saw_cr_def
  parse_forbid_def lws_parse_urldecode_def uri_unescape_def uri_path_step_def uri_path_idle_def uri_path_dot_dot_def
  uri_start_args_def uri_next_fragment_def uri_backup_def uri_backup_loop.simps issue_char_def put_data_def upd_frag_def
  lws_pos_in_bounds_def methods_def to_lower_def inc8_def inc16_def dec16_def add32_def sub32_def int_of32_def
  rd_def wr_def hdr_bytes_def seen_method_def uri_unhex_def char_to_hex_def

lemma demo_wsi_start: "demo_wsi = \<lparr>wsi_ah = \<lparr>ah_data = bytes_of ''ab'' @ [0] @ bytes_of ''c'' @ [0, 0, 0, 0, 0, 0, 0, 0, 0, 0, 0, 0],
     ah_frags = replicate 95 frag_zero, ah_frag_index = replicate 95 0, ah_pos = 0, ah_http_response = 0,
     ah_current_token_limit = 16, ah_hdr_token_idx = 30, ah_lextable_pos = 0, ah_nfrag = 0, ah_ups = URIPS_IDLE,
     ah_ues = URIES_IDLE, ah_esc_stash = 0, ah_post_literal_equal = False, ah_parser_state = WSI_TOKEN_NAME_PART\<rparr>,
     wsi_rx_frame_type = 0, wsi_hdr_parsing_completed = False, wsi_http_status = []\<rparr>"
  by (simp add: demo_wsi_def lws_header_table_reset_ah_def demo_ah_def numeral_eq_Suc)

lemmas request_eval = request_outcome_def demo_wsi_start demo_env_def frag_zero_def parse_eval lex_eval

lemma request_plain: "request_outcome (bytes_of ''GET /a/b/../c '') = Some (0, WSI_TOKEN_HTTP, bytes_of ''/a/c'')"
  by (simp add: request_eval)

text \<open>Without the conditions the filter does not hold: the NUL that ends a path after \<open>..\<close> is let through, so
  that the C string of the path is \<open>/..\<close>; a URI that ends with the line, without a space, keeps its \<open>..\<close>; and
  after a back-up the question mark is swallowed, so that the arguments become a part of the path. The filter
  only looks at what follows a slash, so that a target without one in front is stored as it is.\<close>

lemma request_nul: "request_outcome (bytes_of ''GET /..%00 '') = Some (0, WSI_TOKEN_HTTP, bytes_of ''/..'')"
  by (simp add: request_eval)

lemma request_cr: "request_outcome (bytes_of ''GET /..'' @ [0x0d]) = Some (0, WSI_TOKEN_SKIPPING_SAW_CR, bytes_of ''/..'')"
  by (simp add: request_eval)

lemma request_args: "request_outcome (bytes_of ''GET /..?x=1 '') = Some (0, WSI_TOKEN_HTTP, bytes_of ''/x=1'')"
  by (simp add: request_eval)

lemma request_relative: "request_outcome (bytes_of ''GET ../x '') = Some (0, WSI_TOKEN_HTTP, bytes_of ''../x'')"
  by (simp add: request_eval)

text \<open>A header before the request line switches the path filter off. The pseudo header \<open>uri-args\<close> is in
  the table of names, so a client can send it as a header of its own; the filter takes its presence as the
  sign that the arguments of the URI have begun, and the \<open>..\<close> of the request line that follows is stored.\<close>

lemma uri_args_header_bypass:
  "request_outcome (bytes_of ''uri-args'' @ [0x0d, 0x0a] @ bytes_of ''GET /../x '') = Some (0, WSI_TOKEN_HTTP, bytes_of ''/../x'')"
  by (simp add: request_eval)

theorem uri_path_no_dot_dot_witness:
  "\<exists>w'. lws_parse demo_env (bytes_of ''GET '' @ bytes_of ''/a/%2e./b'' @ bytes_of '' '') demo_wsi = Some (0, [], w') \<and>
     (let path = hdr_bytes (wsi_ah w') (ah_frag_index (wsi_ah w') ! WSI_TOKEN_GET_URI) in
      path \<noteq> [] \<and> hd path = ch CHR ''/'' \<and> dot_dot \<notin> set (segs path))"
proof -
  let ?buf = "bytes_of ''GET '' @ bytes_of ''/a/%2e./b'' @ bytes_of '' ''"
  have "map_option (\<lambda>(r, bs, w). (r, bs, ah_parser_state (wsi_ah w))) (lws_parse demo_env ?buf demo_wsi) = Some (0, [], WSI_TOKEN_HTTP)"
    by (simp add: request_eval)
  then obtain w' where w': "lws_parse demo_env ?buf demo_wsi = Some (0, [], w')" "ah_parser_state (wsi_ah w') = WSI_TOKEN_HTTP"
    by auto
  have m: "WSI_TOKEN_GET_URI \<in> set methods" "map to_lower (bytes_of ''GET '') = token_names ! WSI_TOKEN_GET_URI"
    by (simp_all add: methods_def to_lower_def token_names_def)
  have "let path = hdr_bytes (wsi_ah w') (ah_frag_index (wsi_ah w') ! WSI_TOKEN_GET_URI) in
      path \<noteq> [] \<and> hd path = ch CHR ''/'' \<and> dot_dot \<notin> set (segs path)"
    by (rule uri_path_no_dot_dot [OF demo_env_ok, of demo_ah demo_wsi _ "bytes_of ''GET ''" "bytes_of ''/a/%2e./b''"])
       (use m w' in \<open>simp_all add: demo_ah_def demo_env_def demo_wsi_def uri_unhex_def char_to_hex_def\<close>)
  with w'(1) show ?thesis by blast
qed

end
