(* ===== verification/Ranges.thy ===== *)
theory Ranges
  imports Http_Parse
begin

text \<open>
  The parser of the HTTP \<open>Range:\<close> header (\<open>lib/roles/http/server/ranges.c\<close>): \<open>lws_ranges_next\<close> walks over a
  copy of the header in a buffer of 128 bytes and stops at every usable range. One round of its \<open>while (1)\<close>
  is \<open>ranges_step\<close>, with one definition for each case of the \<open>switch\<close>. Offsets are 64 bit words that wrap.

  Shown are: a well-formed header with ranges that lie inside of the file is parsed into exactly these ranges,
  in order; the parser ends and stays in its buffer on any header that does not end with a comma; and after a
  range that it takes for unsatisfiable and a comma it jumps over a character, the terminator when the header
  ends there. A last byte behind the end of the file is not cut off (\<open>range_end_not_clamped\<close>).
\<close>

datatype range_states = LWSRS_NO_ACTIVE_RANGE | LWSRS_BYTES_EQ | LWSRS_FIRST | LWSRS_STARTING | LWSRS_ENDING |
  LWSRS_COMPLETED | LWSRS_SYNTAX

record lws_range_parsing =
  rp_start :: u64
  rp_end :: u64
  rp_extent :: u64
  rp_agg :: u64
  rp_budget :: u64
  rp_buf :: "u8 list"
  rp_pos :: nat
  rp_state :: range_states
  rp_start_valid :: bool
  rp_end_valid :: bool
  rp_ctr :: int
  rp_count_ranges :: int
  rp_did_try :: bool
  rp_inside :: bool
  rp_send_ctr :: int


subsection \<open>The operations\<close>

text \<open>The cases of the \<open>switch\<close>: \<open>Some v\<close> returns \<open>v\<close>, \<open>None\<close> breaks out of the \<open>switch\<close>.\<close>

definition ranges_beq :: "u8 list" where
  "ranges_beq = bytes_of ''bytes=''"

definition ranges_bytes_eq :: "u8 \<Rightarrow> lws_range_parsing \<Rightarrow> (int option \<times> lws_range_parsing) option" where
  "ranges_bytes_eq c rp = do {
     b \<leftarrow> rd (ranges_beq @ [0]) (rp_pos rp);
     if c \<noteq> b then Some (Some (- 1), rp\<lparr>rp_state := LWSRS_SYNTAX\<rparr>)
     else Some (None, if rp_pos rp = 5 then rp\<lparr>rp_state := LWSRS_FIRST\<rparr> else rp)
   }"

definition ranges_digit :: "u64 \<Rightarrow> u8 \<Rightarrow> u64" where
  "ranges_digit n c = n * 10 + of_int (uint c - uint (ch CHR ''0''))"

definition ranges_starting :: "u8 \<Rightarrow> lws_range_parsing \<Rightarrow> (int option \<times> lws_range_parsing) option" where
  "ranges_starting c rp =
     (if c = ch CHR ''-'' then Some (None, rp\<lparr>rp_state := LWSRS_ENDING\<rparr>)
      else if \<not> is_digit c then Some (Some 0, rp\<lparr>rp_state := LWSRS_SYNTAX\<rparr>)
      else Some (None, rp\<lparr>rp_start := ranges_digit (rp_start rp) c, rp_start_valid := True\<rparr>))"

definition ranges_first :: "lws_range_parsing \<Rightarrow> lws_range_parsing" where
  "ranges_first rp = rp\<lparr>rp_start := 0, rp_end := 0, rp_start_valid := False, rp_end_valid := False, rp_state := LWSRS_STARTING\<rparr>"

definition ranges_fix :: "lws_range_parsing \<Rightarrow> lws_range_parsing" where
  \<comment> \<open>by the end of this, start and end are valid if the range is\<close>
  "ranges_fix rp =
     (if \<not> rp_start_valid rp then
        let rp = (if rp_end rp > rp_extent rp then rp\<lparr>rp_end := rp_extent rp\<rparr> else rp) in
        rp\<lparr>rp_start := rp_extent rp - rp_end rp, rp_end := rp_extent rp - 1\<rparr>
      else if \<not> rp_end_valid rp then rp\<lparr>rp_end := rp_extent rp - 1\<rparr>
      else rp)"

definition ranges_ending :: "u8 \<Rightarrow> lws_range_parsing \<Rightarrow> (int option \<times> lws_range_parsing) option" where
  "ranges_ending c rp =
     (if c = ch CHR '','' \<or> c = 0 then
        let rp = rp\<lparr>rp_state := LWSRS_FIRST, rp_pos := (if c = ch CHR '','' then rp_pos rp + 1 else rp_pos rp)\<rparr>;
            rp = (ranges_fix rp)\<lparr>rp_did_try := True\<rparr> in
        if rp_end rp < rp_start rp then
          if c = ch CHR '','' then Some (None, rp) else Some (Some 0, rp\<lparr>rp_state := LWSRS_COMPLETED\<rparr>)
        else Some (Some 1, rp)
      else if \<not> is_digit c then Some (Some 0, rp\<lparr>rp_state := LWSRS_SYNTAX\<rparr>)
      else Some (None, rp\<lparr>rp_end := ranges_digit (rp_end rp) c, rp_end_valid := True\<rparr>))"

definition ranges_step :: "lws_range_parsing \<Rightarrow> (int option \<times> lws_range_parsing) option" where
  "ranges_step rp = do {
     c \<leftarrow> rd (rp_buf rp) (rp_pos rp);
     case rp_state rp of
       LWSRS_SYNTAX \<Rightarrow> Some (Some 0, rp)
     | LWSRS_COMPLETED \<Rightarrow> Some (Some 0, rp)
     | LWSRS_NO_ACTIVE_RANGE \<Rightarrow> Some (Some 0, rp\<lparr>rp_state := LWSRS_COMPLETED\<rparr>)
     | LWSRS_BYTES_EQ \<Rightarrow> ranges_bytes_eq c rp
     | LWSRS_FIRST \<Rightarrow> ranges_starting c (ranges_first rp)
     | LWSRS_STARTING \<Rightarrow> ranges_starting c rp
     | LWSRS_ENDING \<Rightarrow> ranges_ending c rp
   }"

partial_function (option) lws_ranges_next :: "lws_range_parsing \<Rightarrow> (int \<times> lws_range_parsing) option" where
  "lws_ranges_next rp = do {
     (r, rp) \<leftarrow> ranges_step rp;
     case r of
       Some v \<Rightarrow> Some (v, rp)
     | None \<Rightarrow> lws_ranges_next (rp\<lparr>rp_pos := rp_pos rp + 1\<rparr>)
   }"

declare lws_ranges_next.simps [code]

definition lws_ranges_reset :: "lws_range_parsing \<Rightarrow> lws_range_parsing" where
  "lws_ranges_reset rp =
     rp\<lparr>rp_pos := 0, rp_ctr := 0, rp_start := 0, rp_end := 0, rp_start_valid := False, rp_end_valid := False,
        rp_state := LWSRS_BYTES_EQ\<rparr>"

partial_function (option) ranges_count_loop :: "lws_range_parsing \<Rightarrow> lws_range_parsing option" where
  "ranges_count_loop rp = do {
     (r, rp) \<leftarrow> lws_ranges_next rp;
     if r \<noteq> 0 then
       ranges_count_loop (rp\<lparr>rp_count_ranges := int_to_char (rp_count_ranges rp + 1),
         rp_agg := rp_agg rp + (rp_end rp - rp_start rp + 1)\<rparr>)
     else Some rp
   }"

declare ranges_count_loop.simps [code]

definition lws_ranges_init ::
    "allocated_headers option \<Rightarrow> lws_range_parsing \<Rightarrow> u64 \<Rightarrow> (int \<times> lws_range_parsing) option" where
  "lws_ranges_init ah rp extent = do {
     let rp = rp\<lparr>rp_agg := 0, rp_send_ctr := 0, rp_inside := False, rp_count_ranges := 0, rp_did_try := False\<rparr>;
         rp = (lws_ranges_reset rp)\<lparr>rp_state := LWSRS_COMPLETED, rp_extent := extent\<rparr> in do {
     (n, buf) \<leftarrow> lws_hdr_copy ah (rp_buf rp) (int (length (rp_buf rp))) WSI_TOKEN_HTTP_RANGE;
     let rp = rp\<lparr>rp_buf := buf\<rparr> in
     if n \<le> 0 then Some (0, rp)
     else do {
       rp \<leftarrow> ranges_count_loop (rp\<lparr>rp_state := LWSRS_BYTES_EQ\<rparr>);
       let rp = lws_ranges_reset rp in
       if rp_did_try rp \<and> rp_count_ranges rp = 0 then Some (- 1, rp)
       else do {
         (_, rp) \<leftarrow> lws_ranges_next rp;
         Some (rp_count_ranges rp, rp)
       }
     }
     }
   }"


subsection \<open>The parser ends and stays in its buffer\<close>

text \<open>The text in the buffer ends with its first NUL at \<open>n\<close>, and not with a comma.\<close>

definition range_text :: "u8 list \<Rightarrow> nat \<Rightarrow> bool" where
  "range_text buf n \<longleftrightarrow> n < length buf \<and> buf ! n = 0 \<and> (\<forall>i < n. buf ! i \<noteq> 0) \<and> (0 < n \<longrightarrow> buf ! (n - 1) \<noteq> ch CHR '','')"

definition range_ok :: "u8 list \<Rightarrow> nat \<Rightarrow> lws_range_parsing \<Rightarrow> bool" where
  "range_ok buf n rp \<longleftrightarrow> rp_buf rp = buf \<and> rp_pos rp \<le> n \<and> (rp_state rp = LWSRS_BYTES_EQ \<longrightarrow> rp_pos rp < 6)"

lemma ranges_fix_sel [simp]:
  "rp_pos (ranges_fix rp) = rp_pos rp" "rp_buf (ranges_fix rp) = rp_buf rp" "rp_state (ranges_fix rp) = rp_state rp"
  "rp_extent (ranges_fix rp) = rp_extent rp" "rp_did_try (ranges_fix rp) = rp_did_try rp"
  "rp_agg (ranges_fix rp) = rp_agg rp" "rp_count_ranges (ranges_fix rp) = rp_count_ranges rp"
  by (simp_all add: ranges_fix_def Let_def)

lemma digit_chars: "is_digit c \<Longrightarrow> c \<noteq> ch CHR ''-'' \<and> c \<noteq> ch CHR '','' \<and> c \<noteq> 0"
  by (auto simp: is_digit_def)

lemma ranges_step_ok:
  assumes "range_text buf n" "range_ok buf n rp"
  shows "\<exists>r rp'. ranges_step rp = Some (r, rp') \<and>
    (case r of
       None \<Rightarrow> range_ok buf n (rp'\<lparr>rp_pos := rp_pos rp' + 1\<rparr>) \<and> rp_pos rp \<le> rp_pos rp'
     | Some v \<Rightarrow> range_ok buf n rp' \<and> rp_pos rp \<le> rp_pos rp' \<and>
         (v = 0 \<or> v = 1 \<and> rp_state rp = LWSRS_ENDING \<and> rp_state rp' = LWSRS_FIRST \<or> v = - 1 \<and> rp_state rp' = LWSRS_SYNTAX))"
proof -
  obtain c where c: "rd (rp_buf rp) (rp_pos rp) = Some c" "c = buf ! rp_pos rp"
    using assms by (simp add: range_text_def range_ok_def rd_Some)
  have lt: "rp_pos rp < n" if "c \<noteq> 0" using that c(2) assms by (auto simp: range_text_def range_ok_def le_less)
  have lt2: "rp_pos rp + 1 < n" if comma: "c = ch CHR '',''"
  proof -
    have "rp_pos rp < n" using comma lt by simp
    moreover have "rp_pos rp \<noteq> n - 1" using comma c(2) assms(1) \<open>rp_pos rp < n\<close> by (auto simp: range_text_def)
    ultimately show ?thesis by simp
  qed
  show ?thesis
  proof (cases "rp_state rp")
    case LWSRS_BYTES_EQ
    then have p: "rp_pos rp < 6" using assms(2) by (simp add: range_ok_def)
    then consider "rp_pos rp = 0" | "rp_pos rp = 1" | "rp_pos rp = 2" | "rp_pos rp = 3" | "rp_pos rp = 4" | "rp_pos rp = 5" by linarith
    then have "rd (ranges_beq @ [0]) (rp_pos rp) = Some (ranges_beq ! rp_pos rp)" "ranges_beq ! rp_pos rp \<noteq> 0"
      by (cases; simp add: ranges_beq_def rd_Some)+
    then show ?thesis using LWSRS_BYTES_EQ p c lt assms(2)
      by (auto simp: ranges_step_def ranges_bytes_eq_def range_ok_def)
  next
    case LWSRS_ENDING
    show ?thesis
    proof (cases "c = ch CHR '','' \<or> c = 0")
      case True
      then show ?thesis using LWSRS_ENDING c lt lt2 assms(2)
        by (auto simp: ranges_step_def ranges_ending_def range_ok_def Let_def)
    next
      case False
      then show ?thesis using LWSRS_ENDING c lt assms(2)
        by (auto simp: ranges_step_def ranges_ending_def range_ok_def)
    qed
  qed (use c lt digit_chars [of c] assms(2) in \<open>auto simp: ranges_step_def ranges_starting_def range_ok_def ranges_first_def\<close>)
qed


lemma lws_ranges_next_ok:
  assumes "range_text buf n"
  shows "range_ok buf n rp \<Longrightarrow> \<exists>v rp'. lws_ranges_next rp = Some (v, rp') \<and> range_ok buf n rp' \<and>
    (v = 0 \<or> v = 1 \<and> rp_state rp' = LWSRS_FIRST \<and> (rp_state rp \<noteq> LWSRS_ENDING \<longrightarrow> rp_pos rp < rp_pos rp') \<and> rp_pos rp \<le> rp_pos rp' \<or>
     v = - 1 \<and> rp_state rp' = LWSRS_SYNTAX)"
proof (induction "n - rp_pos rp" arbitrary: rp rule: less_induct)
  case less
  from ranges_step_ok [OF assms less.prems] obtain r rp1 where s: "ranges_step rp = Some (r, rp1)" and
    r: "case r of
       None \<Rightarrow> range_ok buf n (rp1\<lparr>rp_pos := rp_pos rp1 + 1\<rparr>) \<and> rp_pos rp \<le> rp_pos rp1
     | Some v \<Rightarrow> range_ok buf n rp1 \<and> rp_pos rp \<le> rp_pos rp1 \<and>
         (v = 0 \<or> v = 1 \<and> rp_state rp = LWSRS_ENDING \<and> rp_state rp1 = LWSRS_FIRST \<or> v = - 1 \<and> rp_state rp1 = LWSRS_SYNTAX)"
    by blast
  show ?case
  proof (cases r)
    case None
    let ?rp = "rp1\<lparr>rp_pos := rp_pos rp1 + 1\<rparr>"
    have ok: "range_ok buf n ?rp" "rp_pos rp \<le> rp_pos rp1" using r None by auto
    then have "n - rp_pos ?rp < n - rp_pos rp" unfolding range_ok_def by simp linarith
    from less.hyps [OF this ok(1)] obtain v rp' where n: "lws_ranges_next ?rp = Some (v, rp')" "range_ok buf n rp'"
      "v = 0 \<or> v = 1 \<and> rp_state rp' = LWSRS_FIRST \<and> rp_pos ?rp \<le> rp_pos rp' \<or> v = - 1 \<and> rp_state rp' = LWSRS_SYNTAX" by blast
    have "lws_ranges_next rp = lws_ranges_next ?rp" using s None by (subst lws_ranges_next.simps) simp
    with n ok(2) show ?thesis by auto
  next
    case (Some v)
    then have "lws_ranges_next rp = Some (v, rp1)" using s by (subst lws_ranges_next.simps) simp
    then show ?thesis using r Some by auto
  qed
qed

lemma ranges_next_syntax:
  "rp_pos rp < length (rp_buf rp) \<Longrightarrow> rp_state rp = LWSRS_SYNTAX \<Longrightarrow> lws_ranges_next rp = Some (0, rp)"
  by (subst lws_ranges_next.simps) (simp add: ranges_step_def rd_Some)

lemma ranges_count_loop_ok:
  assumes "range_text buf n"
  shows "range_ok buf n rp \<Longrightarrow> rp_state rp \<noteq> LWSRS_ENDING \<Longrightarrow> \<exists>rp'. ranges_count_loop rp = Some rp' \<and> range_ok buf n rp'"
proof (induction "n - rp_pos rp" arbitrary: rp rule: less_induct)
  case less
  let ?next = "\<lambda>rp. rp\<lparr>rp_count_ranges := int_to_char (rp_count_ranges rp + 1), rp_agg := rp_agg rp + (rp_end rp - rp_start rp + 1)\<rparr>"
  from lws_ranges_next_ok [OF assms less.prems(1)] less.prems(2) obtain v rp1 where
    v: "lws_ranges_next rp = Some (v, rp1)" "range_ok buf n rp1" and
    c: "v = 0 \<or> v = 1 \<and> rp_state rp1 = LWSRS_FIRST \<and> rp_pos rp < rp_pos rp1 \<or> v = - 1 \<and> rp_state rp1 = LWSRS_SYNTAX" by blast
  from c consider "v = 0" | "v = 1" "rp_state rp1 = LWSRS_FIRST" "rp_pos rp < rp_pos rp1" | "v = - 1" "rp_state rp1 = LWSRS_SYNTAX" by blast
  then show ?case
  proof cases
    case 1
    then show ?thesis using v by (subst ranges_count_loop.simps) simp
  next
    case 2
    have "n - rp_pos (?next rp1) < n - rp_pos rp" "range_ok buf n (?next rp1)" "rp_state (?next rp1) \<noteq> LWSRS_ENDING"
      using 2 v(2) by (auto simp: range_ok_def)
    from less.hyps [OF this] 2(1) v(1) show ?thesis by (subst ranges_count_loop.simps) simp
  next
    case 3
    then have "ranges_count_loop (?next rp1) = Some (?next rp1)" using v(2) assms
      by (subst ranges_count_loop.simps) (simp add: ranges_next_syntax range_ok_def range_text_def)
    moreover have "range_ok buf n (?next rp1)" using v(2) by (simp add: range_ok_def)
    ultimately show ?thesis using 3(1) v(1) by (subst ranges_count_loop.simps) simp
  qed
qed

text \<open>C28: the parser of the Range header ends, and reads nothing outside of its buffer, whatever the header
  holds, when the header does not end with a comma.\<close>

theorem lws_ranges_init_safe:
  assumes "lws_hdr_copy ah (rp_buf rp) (int (length (rp_buf rp))) WSI_TOKEN_HTTP_RANGE = Some (n, buf)"
    and "0 < n \<Longrightarrow> range_text buf m"
  shows "\<exists>r rp'. lws_ranges_init ah rp extent = Some (r, rp') \<and> length (rp_buf rp') = length buf"
proof (cases "0 < n")
  case False
  then show ?thesis using assms(1) by (simp add: lws_ranges_init_def lws_ranges_reset_def)
next
  case True
  define rp0 where "rp0 = (lws_ranges_reset (rp\<lparr>rp_agg := 0, rp_send_ctr := 0, rp_inside := False, rp_count_ranges := 0,
    rp_did_try := False\<rparr>))\<lparr>rp_extent := extent, rp_buf := buf, rp_state := LWSRS_BYTES_EQ\<rparr>"
  have "range_ok buf m rp0" by (simp add: range_ok_def rp0_def lws_ranges_reset_def)
  from ranges_count_loop_ok [OF assms(2) [OF True] this] obtain rp1 where
    l: "ranges_count_loop rp0 = Some rp1" "range_ok buf m rp1" by (auto simp: rp0_def)
  have "range_ok buf m (lws_ranges_reset rp1)" using l(2) by (simp add: range_ok_def lws_ranges_reset_def)
  from lws_ranges_next_ok [OF assms(2) [OF True] this] obtain v rp2 where
    n: "lws_ranges_next (lws_ranges_reset rp1) = Some (v, rp2)" "range_ok buf m rp2" by blast
  have i: "lws_ranges_init ah rp extent = (if rp_did_try (lws_ranges_reset rp1) \<and> rp_count_ranges (lws_ranges_reset rp1) = 0
      then Some (- 1, lws_ranges_reset rp1) else Some (rp_count_ranges rp2, rp2))"
    using assms(1) True l(1) n(1) by (simp add: lws_ranges_init_def Let_def rp0_def lws_ranges_reset_def)
  show ?thesis using n(2) l(2) unfolding i by (auto simp: range_ok_def lws_ranges_reset_def)
qed



subsection \<open>Well-formed headers\<close>

text \<open>The byte range specifications of RFC 7233, with the digits of their numbers.\<close>

datatype range_spec = From_To "u8 list" "u8 list" | From "u8 list" | Suffix "u8 list"

fun spec_text :: "range_spec \<Rightarrow> u8 list" where
  "spec_text (From_To a b) = a @ ch CHR ''-'' # b"
| "spec_text (From a) = a @ [ch CHR ''-'']"
| "spec_text (Suffix b) = ch CHR ''-'' # b"

fun specs_text :: "range_spec list \<Rightarrow> u8 list" where
  "specs_text [] = []"
| "specs_text [s] = spec_text s"
| "specs_text (s # ss) = spec_text s @ ch CHR '','' # specs_text ss"

definition dec_from :: "nat \<Rightarrow> u8 list \<Rightarrow> nat" where
  "dec_from n ds = foldl (\<lambda>n c. n * 10 + (unat c - 48)) n ds"

abbreviation dec :: "u8 list \<Rightarrow> nat" where
  "dec \<equiv> dec_from 0"

text \<open>First and last byte of the range in a file of \<open>ext\<close> bytes, where the last byte is not behind the end of the
  file; and what the code takes for them.\<close>

fun spec_range :: "nat \<Rightarrow> range_spec \<Rightarrow> nat \<times> nat" where
  "spec_range ext (From_To a b) = (dec a, min (dec b) (ext - 1))"
| "spec_range ext (From a) = (dec a, ext - 1)"
| "spec_range ext (Suffix b) = (ext - min (dec b) ext, ext - 1)"

fun spec_bounds :: "nat \<Rightarrow> range_spec \<Rightarrow> nat \<times> nat" where
  "spec_bounds ext (From_To a b) = (dec a, dec b)"
| "spec_bounds ext (From a) = (dec a, ext - 1)"
| "spec_bounds ext (Suffix b) = (ext - min (dec b) ext, ext - 1)"

fun spec_digits :: "range_spec \<Rightarrow> bool" where
  "spec_digits (From_To a b) \<longleftrightarrow> a \<noteq> [] \<and> b \<noteq> [] \<and> list_all is_digit a \<and> list_all is_digit b \<and> dec a < 2 ^ 64 \<and> dec b < 2 ^ 64"
| "spec_digits (From a) \<longleftrightarrow> a \<noteq> [] \<and> list_all is_digit a \<and> dec a < 2 ^ 64"
| "spec_digits (Suffix b) \<longleftrightarrow> list_all is_digit b \<and> dec b < 2 ^ 64"

text \<open>A range is satisfiable when it has a byte in the file; it lies inside of the file when also the last byte that it
  names does. The code issues a range when the last byte is not before the first.\<close>

definition spec_sat :: "nat \<Rightarrow> range_spec \<Rightarrow> bool" where
  "spec_sat ext s \<longleftrightarrow> spec_digits s \<and> fst (spec_range ext s) < ext \<and> fst (spec_range ext s) \<le> snd (spec_range ext s)"

fun spec_ends :: "nat \<Rightarrow> range_spec \<Rightarrow> bool" where
  "spec_ends ext (From_To a b) \<longleftrightarrow> dec b < ext"
| "spec_ends ext _ \<longleftrightarrow> True"

definition spec_inside :: "nat \<Rightarrow> range_spec \<Rightarrow> bool" where
  "spec_inside ext s \<longleftrightarrow> spec_sat ext s \<and> spec_ends ext s"

definition spec_issued :: "nat \<Rightarrow> range_spec \<Rightarrow> bool" where
  "spec_issued ext s \<longleftrightarrow> spec_digits s \<and> fst (spec_bounds ext s) \<le> snd (spec_bounds ext s)"

lemma spec_inside_issued: "spec_inside ext s \<Longrightarrow> spec_issued ext s \<and> spec_bounds ext s = spec_range ext s"
  by (cases s) (auto simp: spec_inside_def spec_sat_def spec_issued_def)

lemma is_digit_unat: "is_digit c \<longleftrightarrow> 48 \<le> unat c \<and> unat c \<le> 57"
  by (simp add: is_digit_def word_le_nat_alt)

lemma ranges_digit_dec:
  assumes "is_digit c"
  shows "ranges_digit (of_nat n) c = of_nat (n * 10 + (unat c - 48))"
proof -
  have "uint c - uint (ch CHR ''0'') = int (unat c - 48)" using assms by (simp add: is_digit_unat of_nat_diff)
  then show ?thesis by (simp add: ranges_digit_def)
qed

lemma ranges_digits_dec: "list_all is_digit ds \<Longrightarrow> foldl ranges_digit (of_nat n) ds = of_nat (dec_from n ds)"
proof (induction ds arbitrary: n)
  case (Cons c ds)
  then have "foldl ranges_digit (of_nat n) (c # ds) = foldl ranges_digit (of_nat (n * 10 + (unat c - 48))) ds"
    using ranges_digit_dec [of c n] by simp
  with Cons.IH [of "n * 10 + (unat c - 48)"] Cons.prems show ?case by (simp add: dec_from_def)
qed (simp add: dec_from_def)

text \<open>A round of the loop that does not return.\<close>

definition ranges_goes :: "lws_range_parsing \<Rightarrow> lws_range_parsing \<Rightarrow> bool" where
  "ranges_goes rp rp' \<longleftrightarrow> (\<exists>q. ranges_step rp = Some (None, q) \<and> rp' = q\<lparr>rp_pos := rp_pos q + 1\<rparr>)"

lemma ranges_goes_next: "rtranclp ranges_goes rp rp' \<Longrightarrow> lws_ranges_next rp = lws_ranges_next rp'"
proof (induction rule: converse_rtranclp_induct)
  case (step x y)
  then show ?case by (subst lws_ranges_next.simps) (auto simp: ranges_goes_def)
qed simp

lemma next_starting:
  "list_all is_digit ds \<Longrightarrow> rp_state rp = LWSRS_STARTING \<Longrightarrow> rp_buf rp = pre @ ds @ rest \<Longrightarrow> rp_pos rp = length pre \<Longrightarrow>
   rtranclp ranges_goes rp (rp\<lparr>rp_pos := length pre + length ds, rp_start := foldl ranges_digit (rp_start rp) ds,
     rp_start_valid := rp_start_valid rp \<or> ds \<noteq> []\<rparr>)"
proof (induction ds arbitrary: rp pre)
  case Nil
  then have "rp\<lparr>rp_pos := length pre\<rparr> = rp" by (cases rp) simp
  then show ?case by simp
next
  case (Cons c ds)
  let ?rp = "rp\<lparr>rp_start := ranges_digit (rp_start rp) c, rp_start_valid := True, rp_pos := rp_pos rp + 1\<rparr>"
  have "ranges_goes rp ?rp"
    using Cons.prems digit_chars [of c] by (auto simp: ranges_goes_def ranges_step_def rd_Some ranges_starting_def)
  from converse_rtranclp_into_rtranclp [of ranges_goes, OF this Cons.IH [of ?rp "pre @ [c]"]] show ?case
    using Cons.prems by simp
qed

lemma next_ending:
  "list_all is_digit ds \<Longrightarrow> rp_state rp = LWSRS_ENDING \<Longrightarrow> rp_buf rp = pre @ ds @ rest \<Longrightarrow> rp_pos rp = length pre \<Longrightarrow>
   rtranclp ranges_goes rp (rp\<lparr>rp_pos := length pre + length ds, rp_end := foldl ranges_digit (rp_end rp) ds,
     rp_end_valid := rp_end_valid rp \<or> ds \<noteq> []\<rparr>)"
proof (induction ds arbitrary: rp pre)
  case Nil
  then have "rp\<lparr>rp_pos := length pre\<rparr> = rp" by (cases rp) simp
  then show ?case by simp
next
  case (Cons c ds)
  let ?rp = "rp\<lparr>rp_end := ranges_digit (rp_end rp) c, rp_end_valid := True, rp_pos := rp_pos rp + 1\<rparr>"
  have "ranges_goes rp ?rp"
    using Cons.prems digit_chars [of c] by (auto simp: ranges_goes_def ranges_step_def rd_Some ranges_ending_def)
  from converse_rtranclp_into_rtranclp [of ranges_goes, OF this Cons.IH [of ?rp "pre @ [c]"]] show ?case
    using Cons.prems by simp
qed


lemma next_text:
  assumes "list_all is_digit a" "list_all is_digit b" "rp_state rp = LWSRS_FIRST"
    and "rp_buf rp = pre @ a @ ch CHR ''-'' # b @ t # rest" "rp_pos rp = length pre"
    and rp4: "rp4 = rp\<lparr>rp_start := of_nat (dec a), rp_end := of_nat (dec b), rp_start_valid := a \<noteq> [], rp_end_valid := b \<noteq> [],
      rp_state := LWSRS_ENDING, rp_pos := length pre + length a + 1 + length b\<rparr>"
  shows "rtranclp ranges_goes rp rp4" "ranges_step rp4 = ranges_ending t rp4"
proof -
  define s where "s = (ranges_first rp)\<lparr>rp_pos := length pre + length a, rp_start := of_nat (dec a), rp_start_valid := a \<noteq> []\<rparr>"
  define e where "e = s\<lparr>rp_state := LWSRS_ENDING, rp_pos := length (pre @ a @ [ch CHR ''-''])\<rparr>"
  let ?f = "ranges_first rp"
  have f: "rp_state ?f = LWSRS_STARTING" "rp_buf ?f = pre @ a @ ch CHR ''-'' # b @ t # rest" "rp_pos ?f = length pre"
      "rp_start ?f = of_nat 0" "rp_start_valid ?f = False"
    using assms(4,5) by (simp_all add: ranges_first_def)
  have 1: "rtranclp ranges_goes ?f s"
    using next_starting [OF assms(1) f(1-3)] unfolding f(4,5) ranges_digits_dec [OF assms(1)] simp_thms s_def .
  have "ranges_step s = Some (None, s\<lparr>rp_state := LWSRS_ENDING\<rparr>)"
    using assms(4) by (simp add: s_def ranges_step_def ranges_first_def rd_def nth_append ranges_starting_def)
  then have 2: "ranges_goes s e" by (simp add: ranges_goes_def e_def s_def)
  have e: "rp_state e = LWSRS_ENDING" "rp_buf e = (pre @ a @ [ch CHR ''-'']) @ b @ t # rest" "rp_pos e = length (pre @ a @ [ch CHR ''-''])"
      "rp_end e = of_nat 0" "rp_end_valid e = False"
    using assms(4) by (simp_all add: e_def s_def ranges_first_def)
  have 3: "rtranclp ranges_goes e (e\<lparr>rp_pos := length (pre @ a @ [ch CHR ''-'']) + length b, rp_end := of_nat (dec b), rp_end_valid := b \<noteq> []\<rparr>)"
    using next_ending [OF assms(2) e(1-3)] unfolding e(4,5) ranges_digits_dec [OF assms(2)] simp_thms .
  have "e\<lparr>rp_pos := length (pre @ a @ [ch CHR ''-'']) + length b, rp_end := of_nat (dec b), rp_end_valid := b \<noteq> []\<rparr> = rp4"
    unfolding rp4 e_def s_def ranges_first_def by (cases rp) simp
  with 3 have "rtranclp ranges_goes e rp4" by simp
  from rtranclp_trans [OF rtranclp.rtrancl_into_rtrancl [OF 1 2] this]
  have reach: "rtranclp ranges_goes ?f rp4" .
  have "rp_state rp4 = LWSRS_ENDING" by (simp add: rp4)
  with f(1) have "?f \<noteq> rp4" by auto
  with reach obtain y where y: "ranges_goes ?f y" "rtranclp ranges_goes y rp4" by (auto elim: converse_rtranclpE)
  have "ranges_step (ranges_first rp) = ranges_step rp"
    using assms(3) by (simp add: ranges_step_def ranges_first_def)
  with y(1) have "ranges_goes rp y" by (simp add: ranges_goes_def)
  then show "rtranclp ranges_goes rp rp4" using y(2) by (rule converse_rtranclp_into_rtranclp)
  show "ranges_step rp4 = ranges_ending t rp4" using assms(4) unfolding rp4 by (simp add: ranges_step_def rd_def nth_append)
qed

lemma unat64: "n < 2 ^ 64 \<Longrightarrow> unat (of_nat n :: u64) = n"
  by (simp add: unat_of_nat take_bit_nat_eq_self)

lemma of_nat_pred: "0 < n \<Longrightarrow> (of_nat n :: u64) - 1 = of_nat (n - 1)"
  by (cases n) simp_all

lemma ending_ok:
  assumes "t = ch CHR '','' \<or> t = 0" "ranges_fix rp = rp\<lparr>rp_start := st, rp_end := en\<rparr>" "st \<le> en"
  shows "ranges_ending t rp = Some (Some 1, rp\<lparr>rp_start := st, rp_end := en, rp_did_try := True, rp_state := LWSRS_FIRST,
    rp_pos := rp_pos rp + (if t = 0 then 0 else 1)\<rparr>)"
proof -
  let ?q = "\<lambda>rp. rp\<lparr>rp_state := LWSRS_FIRST, rp_pos := (if t = ch CHR '','' then rp_pos rp + 1 else rp_pos rp)\<rparr>"
  have f: "ranges_fix (?q rp) = (?q rp)\<lparr>rp_start := st, rp_end := en\<rparr>"
    using assms(2) by (cases rp) (auto simp: ranges_fix_def Let_def split: if_splits)
  have "ranges_ending t rp = Some (Some 1, ((?q rp)\<lparr>rp_start := st, rp_end := en\<rparr>)\<lparr>rp_did_try := True\<rparr>)"
    using assms(1,3) unfolding ranges_ending_def Let_def f by auto
  then show ?thesis using assms(1) by (cases rp) auto
qed

text \<open>The text of a range takes the parser to its end, with the bounds that it then looks at.\<close>

lemma next_bounds:
  assumes "spec_digits s" "0 < ext" "ext < 2 ^ 64" "rp_extent rp = of_nat ext" "rp_state rp = LWSRS_FIRST"
    and "rp_buf rp = pre @ spec_text s @ t # rest" "rp_pos rp = length pre"
  obtains v1 v2 st en rp4 where "rtranclp ranges_goes rp rp4" "ranges_step rp4 = ranges_ending t rp4"
    "rp4 = rp\<lparr>rp_start := st, rp_end := en, rp_start_valid := v1, rp_end_valid := v2, rp_state := LWSRS_ENDING,
      rp_pos := length pre + length (spec_text s)\<rparr>"
    "ranges_fix rp4 = rp4\<lparr>rp_start := of_nat (fst (spec_bounds ext s)), rp_end := of_nat (snd (spec_bounds ext s))\<rparr>"
    "fst (spec_bounds ext s) < 2 ^ 64" "snd (spec_bounds ext s) < 2 ^ 64"
proof -
  obtain a b where ab: "spec_text s = a @ ch CHR ''-'' # b" "list_all is_digit a" "list_all is_digit b" and
    k: "s = From_To a b \<and> a \<noteq> [] \<and> b \<noteq> [] \<or> s = From a \<and> a \<noteq> [] \<and> b = [] \<or> s = Suffix b \<and> a = []"
    using assms(1) by (cases s) auto
  have small: "dec a < 2 ^ 64" "dec b < 2 ^ 64" using assms(1) k by (auto simp: dec_from_def)
  define rp4 where "rp4 = rp\<lparr>rp_start := of_nat (dec a), rp_end := of_nat (dec b), rp_start_valid := a \<noteq> [], rp_end_valid := b \<noteq> [],
      rp_state := LWSRS_ENDING, rp_pos := length pre + length a + 1 + length b\<rparr>"
  obtain st en where R: "spec_bounds ext s = (st, en)" by (cases "spec_bounds ext s")
  have lt: "st < 2 ^ 64" "en < 2 ^ 64" using k R small assms(3) by auto
  have cl: "(if (of_nat ext :: u64) < of_nat (dec b) then of_nat ext else of_nat (dec b)) = (of_nat (min (dec b) ext) :: u64)"
    using assms(3) small(2) by (auto simp: word_less_nat_alt unat64 min_def)
  have fx: "ranges_fix rp4 = rp4\<lparr>rp_start := of_nat st, rp_end := of_nat en\<rparr>"
    using k R assms(4) of_nat_pred [OF assms(2)] cl unfolding ranges_fix_def rp4_def
    by (elim disjE) (auto simp: Let_def split: if_splits)
  have "rp_buf rp = pre @ a @ ch CHR ''-'' # b @ t # rest" using assms(6) ab(1) by simp
  note n = next_text [OF ab(2,3) assms(5) this assms(7) rp4_def]
  have "rp4 = rp\<lparr>rp_start := of_nat (dec a), rp_end := of_nat (dec b), rp_start_valid := a \<noteq> [], rp_end_valid := b \<noteq> [],
      rp_state := LWSRS_ENDING, rp_pos := length pre + length (spec_text s)\<rparr>" by (simp add: rp4_def ab(1))
  from that [OF n this] fx lt R show thesis by simp
qed

lemma next_segment:
  assumes "spec_issued ext s" "0 < ext" "ext < 2 ^ 64" "rp_extent rp = of_nat ext" "rp_state rp = LWSRS_FIRST"
    and "rp_buf rp = pre @ spec_text s @ t # rest" "rp_pos rp = length pre" "t = ch CHR '','' \<or> t = 0"
  shows "\<exists>v1 v2. lws_ranges_next rp = Some (1, rp\<lparr>rp_start := of_nat (fst (spec_bounds ext s)), rp_end := of_nat (snd (spec_bounds ext s)),
    rp_start_valid := v1, rp_end_valid := v2, rp_did_try := True, rp_state := LWSRS_FIRST,
    rp_pos := length pre + length (spec_text s) + (if t = 0 then 0 else 1)\<rparr>)"
proof -
  have i: "spec_digits s" "fst (spec_bounds ext s) \<le> snd (spec_bounds ext s)" using assms(1) by (simp_all add: spec_issued_def)
  obtain v1 v2 st en rp4 where n: "rtranclp ranges_goes rp rp4" "ranges_step rp4 = ranges_ending t rp4"
    "rp4 = rp\<lparr>rp_start := st, rp_end := en, rp_start_valid := v1, rp_end_valid := v2, rp_state := LWSRS_ENDING,
      rp_pos := length pre + length (spec_text s)\<rparr>"
    "ranges_fix rp4 = rp4\<lparr>rp_start := of_nat (fst (spec_bounds ext s)), rp_end := of_nat (snd (spec_bounds ext s))\<rparr>"
    "fst (spec_bounds ext s) < 2 ^ 64" "snd (spec_bounds ext s) < 2 ^ 64"
    by (rule next_bounds [OF i(1) assms(2-7)])
  have "(of_nat (fst (spec_bounds ext s)) :: u64) \<le> of_nat (snd (spec_bounds ext s))"
    using i(2) n(5,6) by (simp add: word_le_nat_alt unat64)
  note e = n(2) [unfolded ending_ok [OF assms(8) n(4) this]]
  have "lws_ranges_next rp = lws_ranges_next rp4" by (rule ranges_goes_next [OF n(1)])
  also have "\<dots> = Some (1, rp4\<lparr>rp_start := of_nat (fst (spec_bounds ext s)), rp_end := of_nat (snd (spec_bounds ext s)),
      rp_did_try := True, rp_state := LWSRS_FIRST, rp_pos := rp_pos rp4 + (if t = 0 then 0 else 1)\<rparr>)"
    by (subst lws_ranges_next.simps) (simp add: e)
  finally show ?thesis by (intro exI [of _ v1] exI [of _ v2]) (cases rp, simp add: n(3))
qed

lemma next_at_end:
  assumes "rp_state rp = LWSRS_FIRST" "rp_buf rp = pre @ 0 # rest" "rp_pos rp = length pre"
  shows "\<exists>rp'. lws_ranges_next rp = Some (0, rp') \<and> rp_buf rp' = rp_buf rp \<and> rp_extent rp' = rp_extent rp \<and>
    rp_count_ranges rp' = rp_count_ranges rp \<and> rp_agg rp' = rp_agg rp \<and> rp_did_try rp' = rp_did_try rp"
  using assms by (subst lws_ranges_next.simps)
    (simp add: ranges_step_def rd_def ranges_starting_def is_digit_def ranges_first_def)

lemma specs_text_Cons:
  "specs_text (s # ss) @ 0 # rest = spec_text s @ (if ss = [] then 0 else ch CHR '','') # (if ss = [] then rest else specs_text ss @ 0 # rest)"
  by (cases ss) simp_all

text \<open>The whole list: the ranges come out one after the other.\<close>

lemma next_spec:
  assumes "spec_issued ext s" "0 < ext" "ext < 2 ^ 64" "rp_extent rp = of_nat ext" "rp_state rp = LWSRS_FIRST"
    and "rp_buf rp = pre @ specs_text (s # ss) @ 0 # rest" "rp_pos rp = length pre"
  obtains rp' pre' where "lws_ranges_next rp = Some (1, rp')"
    "rp_start rp' = of_nat (fst (spec_bounds ext s))" "rp_end rp' = of_nat (snd (spec_bounds ext s))"
    "rp_buf rp' = rp_buf rp" "rp_extent rp' = rp_extent rp" "rp_count_ranges rp' = rp_count_ranges rp" "rp_agg rp' = rp_agg rp"
    "rp_did_try rp'" "rp_state rp' = LWSRS_FIRST" "rp_pos rp' = length pre'" "rp_buf rp = pre' @ specs_text ss @ 0 # rest"
proof -
  let ?t = "if ss = [] then 0 else ch CHR '',''"
  have b: "rp_buf rp = pre @ spec_text s @ ?t # (if ss = [] then rest else specs_text ss @ 0 # rest)"
    using assms(6) unfolding specs_text_Cons .
  have t: "?t = ch CHR '','' \<or> ?t = 0" by simp
  from next_segment [OF assms(1-5) b assms(7) t] obtain v1 v2 where
    "lws_ranges_next rp = Some (1, rp\<lparr>rp_start := of_nat (fst (spec_bounds ext s)), rp_end := of_nat (snd (spec_bounds ext s)),
      rp_start_valid := v1, rp_end_valid := v2, rp_did_try := True, rp_state := LWSRS_FIRST,
      rp_pos := length pre + length (spec_text s) + (if ?t = 0 then 0 else 1)\<rparr>)" by blast
  then show thesis
    by (rule that [where pre' = "pre @ spec_text s @ (if ss = [] then [] else [ch CHR '',''])"]) (use b in \<open>auto split: if_splits\<close>)
qed

partial_function (option) ranges_all :: "lws_range_parsing \<Rightarrow> (u64 \<times> u64) list option" where
  \<comment> \<open>all ranges that a loop over \<open>lws_ranges_next\<close> sees\<close>
  "ranges_all rp = do {
     (r, rp) \<leftarrow> lws_ranges_next rp;
     if r \<noteq> 0 then do { rs \<leftarrow> ranges_all rp; Some ((rp_start rp, rp_end rp) # rs) } else Some []
   }"

declare ranges_all.simps [code]

abbreviation range_words :: "nat \<times> nat \<Rightarrow> u64 \<times> u64" where
  "range_words r \<equiv> (of_nat (fst r), of_nat (snd r))"

lemma ranges_all_specs:
  assumes "0 < ext" "ext < 2 ^ 64"
  shows "\<forall>s \<in> set ss. spec_issued ext s \<Longrightarrow> rp_extent rp = of_nat ext \<Longrightarrow> rp_state rp = LWSRS_FIRST \<Longrightarrow>
    rp_buf rp = pre @ specs_text ss @ 0 # rest \<Longrightarrow> rp_pos rp = length pre \<Longrightarrow> ranges_all rp = Some (map range_words (map (spec_bounds ext) ss))"
proof (induction ss arbitrary: rp pre)
  case Nil
  then show ?case using next_at_end [of rp pre rest] by (subst ranges_all.simps) auto
next
  case (Cons s ss)
  from Cons.prems(1) have sat: "spec_issued ext s" "\<forall>s \<in> set ss. spec_issued ext s" by auto
  obtain rp' pre' where n: "lws_ranges_next rp = Some (1, rp')" "rp_start rp' = of_nat (fst (spec_bounds ext s))"
    "rp_end rp' = of_nat (snd (spec_bounds ext s))" "rp_buf rp' = rp_buf rp" "rp_extent rp' = rp_extent rp" "rp_state rp' = LWSRS_FIRST"
    "rp_pos rp' = length pre'" "rp_buf rp = pre' @ specs_text ss @ 0 # rest"
    by (rule next_spec [OF sat(1) assms Cons.prems(2-5)])
  have "ranges_all rp' = Some (map range_words (map (spec_bounds ext) ss))"
    by (rule Cons.IH [OF sat(2)]) (use n Cons.prems(2) in simp_all)
  with n show ?case by (subst ranges_all.simps) simp
qed

lemma int_to_char_small: "0 \<le> i \<Longrightarrow> i < 128 \<Longrightarrow> int_to_char i = i"
  unfolding int_to_char_def by (simp add: sint_sbintrunc' signed_take_bit_int_eq_self)

abbreviation range_size :: "nat \<times> nat \<Rightarrow> nat" where
  "range_size r \<equiv> snd r - fst r + 1"

lemma ranges_count_specs:
  assumes "0 < ext" "ext < 2 ^ 64"
  shows "\<forall>s \<in> set ss. spec_issued ext s \<Longrightarrow> rp_extent rp = of_nat ext \<Longrightarrow> rp_state rp = LWSRS_FIRST \<Longrightarrow>
    rp_buf rp = pre @ specs_text ss @ 0 # rest \<Longrightarrow> rp_pos rp = length pre \<Longrightarrow> rp_count_ranges rp = int k \<Longrightarrow> k + length ss < 128 \<Longrightarrow>
    \<exists>rp'. ranges_count_loop rp = Some rp' \<and> rp_buf rp' = rp_buf rp \<and> rp_extent rp' = rp_extent rp \<and>
      rp_count_ranges rp' = int (k + length ss) \<and> rp_agg rp' = rp_agg rp + of_nat (sum_list (map range_size (map (spec_bounds ext) ss)))"
proof (induction ss arbitrary: rp pre k)
  case Nil
  then show ?case using next_at_end [of rp pre rest] by (subst ranges_count_loop.simps) auto
next
  case (Cons s ss)
  from Cons.prems(1) have sat: "spec_issued ext s" "\<forall>s \<in> set ss. spec_issued ext s" by auto
  obtain rp' pre' where n: "lws_ranges_next rp = Some (1, rp')" "rp_start rp' = of_nat (fst (spec_bounds ext s))"
    "rp_end rp' = of_nat (snd (spec_bounds ext s))" "rp_buf rp' = rp_buf rp" "rp_extent rp' = rp_extent rp"
    "rp_count_ranges rp' = rp_count_ranges rp" "rp_agg rp' = rp_agg rp" "rp_state rp' = LWSRS_FIRST"
    "rp_pos rp' = length pre'" "rp_buf rp = pre' @ specs_text ss @ 0 # rest"
    by (rule next_spec [OF sat(1) assms Cons.prems(2-5)])
  let ?rp = "rp'\<lparr>rp_count_ranges := int_to_char (rp_count_ranges rp' + 1), rp_agg := rp_agg rp' + (rp_end rp' - rp_start rp' + 1)\<rparr>"
  have c: "int_to_char (rp_count_ranges rp' + 1) = int (k + 1)" using n(6) Cons.prems(6,7) by (simp add: int_to_char_small)
  have a: "rp_end rp' - rp_start rp' + 1 = of_nat (range_size (spec_bounds ext s))"
    using n(2,3) sat(1) by (simp add: spec_issued_def of_nat_diff)
  have "\<exists>rp2. ranges_count_loop ?rp = Some rp2 \<and> rp_buf rp2 = rp_buf ?rp \<and> rp_extent rp2 = rp_extent ?rp \<and>
      rp_count_ranges rp2 = int ((k + 1) + length ss) \<and> rp_agg rp2 = rp_agg ?rp + of_nat (sum_list (map range_size (map (spec_bounds ext) ss)))"
    by (rule Cons.IH [OF sat(2), where pre = pre']) (use n Cons.prems c in simp_all)
  then obtain rp2 where r: "ranges_count_loop ?rp = Some rp2" "rp_buf rp2 = rp_buf rp" "rp_extent rp2 = rp_extent rp"
      "rp_count_ranges rp2 = int ((k + 1) + length ss)" "rp_agg rp2 = rp_agg rp + (of_nat (range_size (spec_bounds ext s)) + of_nat (sum_list (map range_size (map (spec_bounds ext) ss))))"
    using n a by auto
  have "ranges_count_loop rp = Some rp2" using n(1) r(1) by (subst ranges_count_loop.simps) simp
  with r show ?case by auto
qed


text \<open>The prefix.\<close>

lemma ranges_beq_length: "length ranges_beq = 6"
  by (simp add: ranges_beq_def)

lemma beq_step:
  assumes "rp_state rp = LWSRS_BYTES_EQ" "rp_buf rp = ranges_beq @ rest" "rp_pos rp = i" "i < 6"
  shows "lws_ranges_next rp = lws_ranges_next (rp\<lparr>rp_pos := i + 1, rp_state := (if i = 5 then LWSRS_FIRST else LWSRS_BYTES_EQ)\<rparr>)"
proof -
  have b: "rd (rp_buf rp) i = Some (ranges_beq ! i)" "rd (ranges_beq @ [0]) i = Some (ranges_beq ! i)"
    using assms(2,4) ranges_beq_length by (simp_all add: rd_def nth_append)
  have "rp\<lparr>rp_state := LWSRS_BYTES_EQ\<rparr> = rp" using assms(1) by (cases rp) simp
  then show ?thesis using b assms(1,3)
    by (subst lws_ranges_next.simps) (cases rp, auto simp: ranges_step_def ranges_bytes_eq_def)
qed

lemma next_prefix:
  assumes "rp_state rp = LWSRS_BYTES_EQ" "rp_buf rp = ranges_beq @ rest" "rp_pos rp = 0"
  shows "lws_ranges_next rp = lws_ranges_next (rp\<lparr>rp_pos := 6, rp_state := LWSRS_FIRST\<rparr>)"
proof -
  have "lws_ranges_next rp = lws_ranges_next (rp\<lparr>rp_pos := i, rp_state := LWSRS_BYTES_EQ\<rparr>)" if "i < 6" for i
    using that
  proof (induction i)
    case 0
    have "rp\<lparr>rp_pos := 0, rp_state := LWSRS_BYTES_EQ\<rparr> = rp" using assms(1,3) by (cases rp) simp
    then show ?case by simp
  next
    case (Suc i)
    then show ?case using beq_step [of "rp\<lparr>rp_pos := i, rp_state := LWSRS_BYTES_EQ\<rparr>" rest i] assms(2) by simp
  qed
  from this [of 5] show ?thesis using beq_step [of "rp\<lparr>rp_pos := 5, rp_state := LWSRS_BYTES_EQ\<rparr>" rest 5] assms(2) by simp
qed

lemma spec_text_length: "spec_issued ext s \<Longrightarrow> 0 < length (spec_text s)"
  by (cases s) simp_all

lemma specs_text_length: "\<forall>s \<in> set ss. spec_issued ext s \<Longrightarrow> length ss \<le> length (specs_text ss)"
proof (induction ss rule: specs_text.induct)
  case (3 s s' ss)
  then show ?case using spec_text_length [of ext s] by simp
qed (auto simp: Suc_le_eq dest: spec_text_length)

text \<open>C27: a well-formed Range header whose ranges all lie inside of the file is parsed into its ranges. When the
  header is \<open>bytes=\<close> followed by such ranges \<open>ss\<close>, and has room in the buffer, \<open>lws_ranges_init\<close> returns how many
  there are, leaves the first one in the structure and the sum of the sizes in \<open>agg\<close>; and a loop over
  \<open>lws_ranges_next\<close> after a reset yields the first and the last byte of each, in order.\<close>

theorem lws_ranges_init_correct:
  assumes "lws_hdr_copy ah (rp_buf rp) (int (length (rp_buf rp))) WSI_TOKEN_HTTP_RANGE = Some (n, buf)" "0 < n"
    and buf: "buf = ranges_beq @ specs_text ss @ 0 # rest" "length buf = 128"
    and ss: "ss \<noteq> []" "\<forall>s \<in> set ss. spec_inside ext s" and ext: "0 < ext" "ext < 2 ^ 64"
  shows "\<exists>rp'. lws_ranges_init ah rp (of_nat ext) = Some (int (length ss), rp') \<and>
    (rp_start rp', rp_end rp') = range_words (spec_range ext (hd ss)) \<and> rp_agg rp' = of_nat (sum_list (map range_size (map (spec_range ext) ss))) \<and>
    ranges_all (lws_ranges_reset rp') = Some (map range_words (map (spec_range ext) ss))"
proof -
  have iss: "\<forall>s \<in> set ss. spec_issued ext s" and same: "map (spec_bounds ext) ss = map (spec_range ext) ss"
    using ss(2) spec_inside_issued by auto
  define rp0 where "rp0 = (lws_ranges_reset (rp\<lparr>rp_agg := 0, rp_send_ctr := 0, rp_inside := False, rp_count_ranges := 0,
    rp_did_try := False\<rparr>))\<lparr>rp_extent := of_nat ext, rp_buf := buf, rp_state := LWSRS_BYTES_EQ\<rparr>"
  let ?f = "\<lambda>rp. rp\<lparr>rp_pos := 6, rp_state := LWSRS_FIRST\<rparr>"
  note pre = ranges_beq_length
  have few: "length ss < 128" using specs_text_length [OF iss] buf by simp
  have "\<exists>rp1. ranges_count_loop (?f rp0) = Some rp1 \<and> rp_buf rp1 = buf \<and> rp_extent rp1 = of_nat ext \<and>
      rp_count_ranges rp1 = int (0 + length ss) \<and> rp_agg rp1 = of_nat (sum_list (map range_size (map (spec_range ext) ss)))"
    using ranges_count_specs [OF ext iss, unfolded same, of "?f rp0" ranges_beq rest 0] few pre buf by (simp add: rp0_def lws_ranges_reset_def)
  then obtain rp1 where l: "ranges_count_loop (?f rp0) = Some rp1" "rp_buf rp1 = buf" "rp_extent rp1 = of_nat ext"
      "rp_count_ranges rp1 = int (length ss)" "rp_agg rp1 = of_nat (sum_list (map range_size (map (spec_range ext) ss)))" by auto
  have "lws_ranges_next rp0 = lws_ranges_next (?f rp0)"
    by (rule next_prefix) (simp_all add: rp0_def lws_ranges_reset_def buf(1))
  then have l0: "ranges_count_loop rp0 = Some rp1" using l(1) by (subst ranges_count_loop.simps, subst (asm) ranges_count_loop.simps) simp
  have np: "lws_ranges_next (lws_ranges_reset r) = lws_ranges_next (?f (lws_ranges_reset r))" if "rp_buf r = buf" for r
    by (rule next_prefix) (use that buf(1) in \<open>simp_all add: lws_ranges_reset_def\<close>)
  obtain s ss' where s: "ss = s # ss'" using ss(1) by (cases ss) auto
  have s1: "spec_issued ext s" "spec_bounds ext s = spec_range ext s" using iss same s by auto
  obtain rp2 where n: "lws_ranges_next (?f (lws_ranges_reset rp1)) = Some (1, rp2)" "rp_start rp2 = of_nat (fst (spec_range ext s))"
    "rp_end rp2 = of_nat (snd (spec_range ext s))" "rp_buf rp2 = buf" "rp_extent rp2 = of_nat ext"
    "rp_count_ranges rp2 = int (length ss)" "rp_agg rp2 = rp_agg rp1"
    by (rule next_spec [OF s1(1) ext, of "?f (lws_ranges_reset rp1)" ranges_beq ss' rest, unfolded s1(2)])
       (use s l pre buf(1) in \<open>auto simp: lws_ranges_reset_def\<close>)
  have "lws_ranges_init ah rp (of_nat ext) = Some (int (length ss), rp2)"
    using assms(1,2) l0 np [OF l(2)] n(1,6) l(4) ss(1) by (simp add: lws_ranges_init_def Let_def rp0_def lws_ranges_reset_def)
  moreover have "ranges_all (lws_ranges_reset rp2) = ranges_all (?f (lws_ranges_reset rp2))"
    using np [OF n(4)] by (subst (1 2) ranges_all.simps) simp
  moreover have "ranges_all (?f (lws_ranges_reset rp2)) = Some (map range_words (map (spec_range ext) ss))"
    by (rule ranges_all_specs [OF ext iss, unfolded same, where pre = ranges_beq]) (use n buf(1) pre in \<open>simp_all add: lws_ranges_reset_def\<close>)
  ultimately show ?thesis using n l(5) s by auto
qed


definition demo_rp :: lws_range_parsing where
  "demo_rp = \<lparr>rp_start = 0, rp_end = 0, rp_extent = 0, rp_agg = 0, rp_budget = 0, rp_buf = replicate 128 0, rp_pos = 0,
     rp_state = LWSRS_COMPLETED, rp_start_valid = False, rp_end_valid = False, rp_ctr = 0, rp_count_ranges = 0,
     rp_did_try = False, rp_inside = False, rp_send_ctr = 0\<rparr>"

text \<open>C29: after a range that the parser takes for unsatisfiable and a comma, it jumps over the next character \<open>d\<close>
  before it looks for the next range: over the terminator when the header ends with the comma, so that it goes
  on behind the text, and out of the buffer when the terminator is its last byte.\<close>

theorem lws_ranges_trailing_comma_overrun:
  assumes "spec_digits s" "snd (spec_bounds ext s) < fst (spec_bounds ext s)" "0 < ext" "ext < 2 ^ 64" "rp_extent rp = of_nat ext"
    and "rp_state rp = LWSRS_FIRST" "rp_buf rp = pre @ spec_text s @ ch CHR '','' # d # rest" "rp_pos rp = length pre"
  shows "\<exists>rp'. rtranclp ranges_goes rp rp' \<and> rp_state rp' = LWSRS_FIRST \<and> rp_buf rp' = rp_buf rp \<and>
    rp_pos rp' = length (pre @ spec_text s @ [ch CHR '','', d]) \<and> (rest = [] \<longrightarrow> ranges_step rp' = None \<and> lws_ranges_next rp = None)"
proof -
  obtain v1 v2 st en rp4 where n: "rtranclp ranges_goes rp rp4" "ranges_step rp4 = ranges_ending (ch CHR '','') rp4"
    "rp4 = rp\<lparr>rp_start := st, rp_end := en, rp_start_valid := v1, rp_end_valid := v2, rp_state := LWSRS_ENDING,
      rp_pos := length pre + length (spec_text s)\<rparr>"
    "ranges_fix rp4 = rp4\<lparr>rp_start := of_nat (fst (spec_bounds ext s)), rp_end := of_nat (snd (spec_bounds ext s))\<rparr>"
    "fst (spec_bounds ext s) < 2 ^ 64" "snd (spec_bounds ext s) < 2 ^ 64"
    by (rule next_bounds [OF assms(1,3,4,5,6,7,8)])
  let ?q = "rp4\<lparr>rp_state := LWSRS_FIRST, rp_pos := rp_pos rp4 + 1\<rparr>"
  have f: "ranges_fix ?q = ?q\<lparr>rp_start := of_nat (fst (spec_bounds ext s)), rp_end := of_nat (snd (spec_bounds ext s))\<rparr>"
    using n(4) by (cases rp4) (auto simp: ranges_fix_def Let_def split: if_splits)
  let ?r = "(ranges_fix ?q)\<lparr>rp_did_try := True\<rparr>"
  have "(of_nat (snd (spec_bounds ext s)) :: u64) < of_nat (fst (spec_bounds ext s))"
    using assms(2) n(5,6) by (simp add: word_less_nat_alt unat64)
  then have "ranges_step rp4 = Some (None, ?r)" unfolding n(2) ranges_ending_def by (simp add: Let_def f [simplified])
  then have "ranges_goes rp4 (?r\<lparr>rp_pos := rp_pos ?r + 1\<rparr>)" by (simp add: ranges_goes_def)
  with n(1) have go: "rtranclp ranges_goes rp (?r\<lparr>rp_pos := rp_pos ?r + 1\<rparr>)" by simp
  have st: "rp_state ?r = LWSRS_FIRST" "rp_buf ?r = rp_buf rp" "rp_pos ?r = length pre + length (spec_text s) + 1"
    unfolding f by (simp_all add: n(3))
  have out: "ranges_step (?r\<lparr>rp_pos := rp_pos ?r + 1\<rparr>) = None" if "rest = []"
    using that st(2,3) assms(7) by (simp add: ranges_step_def rd_def)
  then have "lws_ranges_next rp = None" if "rest = []"
    unfolding ranges_goes_next [OF go] using that by (subst lws_ranges_next.simps) simp
  with go out st show ?thesis by (intro exI [of _ "?r\<lparr>rp_pos := rp_pos ?r + 1\<rparr>"]) simp
qed

theorem lws_ranges_trailing_comma_overrun_witness:
  "lws_ranges_next (demo_rp\<lparr>rp_buf := ranges_beq @ replicate 117 (ch CHR ''0'') @ bytes_of ''5-1,'' @ [0], rp_extent := 100, rp_pos := 6,
     rp_state := LWSRS_FIRST\<rparr>) = None"
proof -
  let ?a = "replicate 117 (ch CHR ''0'') @ [ch CHR ''5'']"
  have z: "foldl (\<lambda>n c. n * 10 + (unat c - 48)) 0 (replicate k (ch CHR ''0'')) = (0::nat)" for k by (induction k) simp_all
  have d: "dec ?a = 5" "dec [ch CHR ''1''] = 1" using z [of 117] by (simp_all add: dec_from_def)
  have "list_all is_digit ?a" "list_all is_digit [ch CHR ''1'']" by (simp_all add: list_all_iff is_digit_def)
  with d lws_ranges_trailing_comma_overrun [of "From_To ?a [ch CHR ''1'']" 100 "demo_rp\<lparr>rp_buf := ranges_beq @ replicate 117 (ch CHR ''0'') @
      bytes_of ''5-1,'' @ [0], rp_extent := 100, rp_pos := 6, rp_state := LWSRS_FIRST\<rparr>" ranges_beq 0 "[]"] show ?thesis
    by (auto simp: ranges_beq_length)
qed

text \<open>A range that starts and ends behind the end of the file is issued as it is.\<close>

lemma range_end_not_clamped:
  assumes "spec_digits (From_To a b)" "dec a \<le> dec b" "0 < ext" "ext < 2 ^ 64" "rp_extent rp = of_nat ext"
    and "rp_state rp = LWSRS_FIRST" "rp_buf rp = pre @ spec_text (From_To a b) @ 0 # rest" "rp_pos rp = length pre"
  shows "\<exists>rp'. lws_ranges_next rp = Some (1, rp') \<and> rp_start rp' = of_nat (dec a) \<and> rp_end rp' = of_nat (dec b)"
  using next_segment [OF _ assms(3-8)] assms(1,2) by (auto simp: spec_issued_def)


definition demo_range_ah :: allocated_headers where
  "demo_range_ah = demo_ah\<lparr>ah_data := bytes_of ''bytes=0-9,-5'' @ [0, 0, 0, 0],
     ah_frags := [frag_zero, frag_zero\<lparr>frag_len := 12\<rparr>] @ replicate 93 frag_zero, ah_nfrag := 1, ah_pos := 13\<rparr>"

lemma demo_range_copy:
  "lws_hdr_copy (Some demo_range_ah) (replicate 128 0) 128 WSI_TOKEN_HTTP_RANGE =
     Some (12, ranges_beq @ bytes_of ''0-9,-5'' @ 0 # replicate 115 0)"
proof -
  have "frag_wf demo_env demo_range_ah i" if "i \<le> 1" for i
  proof -
    from that have "i = 0 \<or> i = 1" by auto
    then show ?thesis by (auto simp: frag_wf_def demo_range_ah_def demo_env_def frag_zero_def)
  qed
  then have wf: "ah_wf demo_env demo_range_ah"
    by (auto simp: ah_wf_def demo_range_ah_def demo_ah_def demo_env_def frag_zero_def)
  have i: "ah_frag_index demo_range_ah ! WSI_TOKEN_HTTP_RANGE = 1" by (simp add: demo_range_ah_def demo_ah_def nth_append)
  have c: "hdr_chain (ah_frags demo_range_ah) 1 [1]" by (rule hdr_chain.last) (auto simp: demo_range_ah_def frag_zero_def)
  have v: "hdr_bytes demo_range_ah 1 = bytes_of ''bytes=0-9,-5''" by (simp add: hdr_bytes_def demo_range_ah_def frag_zero_def)
  have "lws_hdr_copy (Some demo_range_ah) (replicate 128 0) 128 WSI_TOKEN_HTTP_RANGE =
      Some (12, patch 0 (bytes_of ''bytes=0-9,-5'' @ [0]) (replicate 128 0))"
    using lws_hdr_copy_spec [OF wf, of WSI_TOKEN_HTTP_RANGE "[1]" 128 "replicate 128 0"] c v i by (simp add: demo_range_ah_def)
  also have "patch 0 (bytes_of ''bytes=0-9,-5'' @ [0]) (replicate 128 0) = ranges_beq @ bytes_of ''0-9,-5'' @ 0 # replicate 115 0"
    by (simp add: patch_def ranges_beq_def)
  finally show ?thesis .
qed

theorem lws_ranges_init_safe_witness:
  "\<exists>r rp'. lws_ranges_init (Some demo_range_ah) demo_rp 0 = Some (r, rp') \<and>
     length (rp_buf rp') = length (ranges_beq @ bytes_of ''0-9,-5'' @ 0 # replicate 115 0)"
proof (rule lws_ranges_init_safe [where m = 12])
  show "lws_hdr_copy (Some demo_range_ah) (rp_buf demo_rp) (int (length (rp_buf demo_rp))) WSI_TOKEN_HTTP_RANGE =
      Some (12, ranges_beq @ bytes_of ''0-9,-5'' @ 0 # replicate 115 0)"
    using demo_range_copy by (simp add: demo_rp_def)
  show "range_text (ranges_beq @ bytes_of ''0-9,-5'' @ 0 # replicate 115 0) 12"
  proof -
    let ?b = "ranges_beq @ bytes_of ''0-9,-5'' @ 0 # replicate 115 0"
    have z: "0 \<notin> set (take 12 ?b)" by (simp add: ranges_beq_def)
    have "?b ! i \<noteq> 0" if "i < 12" for i
    proof -
      have "take 12 ?b ! i \<in> set (take 12 ?b)" using that by (intro nth_mem) (simp add: ranges_beq_def)
      then show ?thesis using z that by (metis nth_take)
    qed
    then show ?thesis by (simp add: range_text_def ranges_beq_def)
  qed
qed

theorem lws_ranges_init_correct_witness:
  "\<exists>rp'. lws_ranges_init (Some demo_range_ah) demo_rp (of_nat 100) = Some (2, rp') \<and>
     (rp_start rp', rp_end rp') = (0, 9) \<and> rp_agg rp' = 15 \<and> ranges_all (lws_ranges_reset rp') = Some [(0, 9), (95, 99)]"
proof -
  let ?ss = "[From_To [ch CHR ''0''] [ch CHR ''9''], Suffix [ch CHR ''5'']]"
  have "\<exists>rp'. lws_ranges_init (Some demo_range_ah) demo_rp (of_nat 100) = Some (int (length ?ss), rp') \<and>
    (rp_start rp', rp_end rp') = range_words (spec_range 100 (hd ?ss)) \<and> rp_agg rp' = of_nat (sum_list (map range_size (map (spec_range 100) ?ss))) \<and>
    ranges_all (lws_ranges_reset rp') = Some (map range_words (map (spec_range 100) ?ss))"
    by (rule lws_ranges_init_correct [OF _ _ refl, where n = 12 and rest = "replicate 115 0"])
       (use demo_range_copy in \<open>simp_all add: demo_rp_def ranges_beq_def spec_inside_def spec_sat_def is_digit_def dec_from_def\<close>)
  then show ?thesis by (simp add: dec_from_def)
qed

end
