(* ===== verification/Ws_Utf8.thy ===== *)
theory Ws_Utf8
  imports Lws_Prelude
begin

text \<open>
  The UTF-8 checker of \<open>lib/core/libwebsockets.c\<close>: an automaton whose state is one byte that packs the lower
  bound of the next byte, the size of its range and the state that follows. It is run over the payload of
  text messages as it arrives, so the state is kept between the calls.

  Shown is that it accepts exactly the encodings of sequences of Unicode scalar values (RFC 3629): no
  overlong forms, no surrogates, nothing above 10FFFF; and that it does not matter how the text is cut.
\<close>

definition e0f4 :: "u8 list" where
  "e0f4 = [0xa5, 0x8d, 0x8d, 0x8d, 0x8d, 0x8d, 0x8d, 0x8d, 0x8d, 0x8d, 0x8d, 0x8d, 0x8d, 0x85, 0x8d, 0x8d,
     0x9a, 0x8e, 0x8e, 0x8e, 0x82, 0, 0x8c, 0x8d]"

definition utf8_upper :: "u8 \<Rightarrow> nat" where
  "utf8_upper s = unat (s AND 0xf0) + 0x10 + (push_bit 2 (unat s) AND 0x30)"

definition lws_check_byte_utf8 :: "u8 \<Rightarrow> u8 \<Rightarrow> int option" where
  "lws_check_byte_utf8 s c =
     (if s = 0 then
        if c \<ge> 0x80 then
          if c < 0xc2 \<or> c > 0xf4 then Some (- 1)
          else if c < 0xe0 then Some 0x8c
          else map_option uint (rd e0f4 (unat c - 0xe0))
        else Some (uint s)
      else if c < s AND 0xf0 \<or> unat c \<ge> utf8_upper s then Some (- 1)
      else map_option uint (rd e0f4 (21 + unat (s AND 3))))"

text \<open>The loop of \<open>lws_check_utf8\<close>; \<open>st\<close> is what \<open>*state\<close> still holds, \<open>s\<close> the local copy.\<close>

fun check_utf8_loop :: "u8 \<Rightarrow> u8 \<Rightarrow> u8 list \<Rightarrow> (int \<times> u8) option" where
  "check_utf8_loop st s [] = Some (0, s)"
| "check_utf8_loop st s (c # buf) =
     (if s = 0 then
        if c \<ge> 0x80 then
          if c < 0xc2 \<or> c > 0xf4 then Some (1, st)
          else if c < 0xe0 then check_utf8_loop st 0x8c buf
          else do { s \<leftarrow> rd e0f4 (unat c - 0xe0); check_utf8_loop st s buf }
        else check_utf8_loop st s buf
      else if c < s AND 0xf0 \<or> unat c \<ge> utf8_upper s then Some (1, st)
      else do { s \<leftarrow> rd e0f4 (21 + unat (s AND 3)); check_utf8_loop st s buf })"

definition lws_check_utf8 :: "u8 \<Rightarrow> u8 list \<Rightarrow> (int \<times> u8) option" where
  "lws_check_utf8 st buf = check_utf8_loop st st buf"


subsection \<open>The automaton\<close>

text \<open>The eight states: a leading byte is expected, or a continuation byte in a range; \<open>utf8_next\<close> gives the
  state that follows.\<close>

definition utf8_states :: "u8 set" where
  "utf8_states = {0, 0x8c, 0x8d, 0x8e, 0xa5, 0x85, 0x9a, 0x82}"

definition utf8_lead :: "nat \<Rightarrow> u8 option" where
  "utf8_lead c =
     (if c < 0x80 then Some 0 else if c < 0xc2 \<or> c > 0xf4 then None else if c < 0xe0 then Some 0x8c
      else if c = 0xe0 then Some 0xa5 else if c = 0xed then Some 0x85 else if c < 0xf0 then Some 0x8d
      else if c = 0xf0 then Some 0x9a else if c = 0xf4 then Some 0x82 else Some 0x8e)"

fun utf8_range :: "u8 \<Rightarrow> nat \<times> nat \<times> u8" where
  "utf8_range s =
     (if s = 0x8c then (0x80, 0xc0, 0) else if s = 0x8d then (0x80, 0xc0, 0x8c) else if s = 0x8e then (0x80, 0xc0, 0x8d)
      else if s = 0xa5 then (0xa0, 0xc0, 0x8c) else if s = 0x85 then (0x80, 0xa0, 0x8c) else if s = 0x9a then (0x90, 0xc0, 0x8d)
      else (0x80, 0x90, 0x8d))"

definition utf8_next :: "u8 \<Rightarrow> u8 \<Rightarrow> u8 option" where
  "utf8_next s c =
     (if s = 0 then utf8_lead (unat c)
      else case utf8_range s of (lo, hi, s') \<Rightarrow> if lo \<le> unat c \<and> unat c < hi then Some s' else None)"

lemma e0f4_lead:
  assumes "0xe0 \<le> c" "c \<le> 0xf4"
  shows "rd e0f4 (c - 0xe0) = utf8_lead c"
proof -
  have "c - 0xe0 \<in> set [0..<21]" using assms by auto
  then have "c = 0xe0 + (c - 0xe0)" "c - 0xe0 \<in> set [0..<21]" using assms by auto
  then show ?thesis by (auto simp: upt_rec utf8_lead_def e0f4_def rd_def)
qed

lemma check_utf8_loop_step:
  assumes "s \<in> utf8_states"
  shows "check_utf8_loop st s (c # buf) =
    (case utf8_next s c of None \<Rightarrow> Some (1, st) | Some s' \<Rightarrow> check_utf8_loop st s' buf)"
proof (cases "s = 0")
  case True
  have [simp]: "c \<ge> 0x80 \<longleftrightarrow> 0x80 \<le> unat c" "c < 0xc2 \<longleftrightarrow> unat c < 0xc2" "c > 0xf4 \<longleftrightarrow> unat c > 0xf4" "c < 0xe0 \<longleftrightarrow> unat c < 0xe0"
    by (simp_all add: word_le_nat_alt word_less_nat_alt)
  show ?thesis
  proof (cases "0xe0 \<le> unat c \<and> unat c \<le> 0xf4")
    case True
    then show ?thesis using \<open>s = 0\<close> e0f4_lead [of "unat c"] by (cases "utf8_lead (unat c)") (auto simp: utf8_next_def utf8_lead_def split: if_splits)
  next
    case False
    then show ?thesis using \<open>s = 0\<close> by (auto simp: utf8_next_def utf8_lead_def)
  qed
next
  case False
  then show ?thesis using assms
    by (auto simp: utf8_states_def utf8_next_def utf8_upper_def word_less_nat_alt e0f4_def rd_def)
qed


fun utf8_run :: "u8 \<Rightarrow> u8 list \<Rightarrow> u8 option" where
  "utf8_run s [] = Some s"
| "utf8_run s (c # cs) = (case utf8_next s c of None \<Rightarrow> None | Some s' \<Rightarrow> utf8_run s' cs)"

lemma utf8_next_states: "s \<in> utf8_states \<Longrightarrow> utf8_next s c = Some s' \<Longrightarrow> s' \<in> utf8_states"
  by (auto simp: utf8_states_def utf8_next_def utf8_lead_def split: if_splits)

lemma check_utf8_loop_run:
  "s \<in> utf8_states \<Longrightarrow> check_utf8_loop st s buf = Some (case utf8_run s buf of None \<Rightarrow> (1, st) | Some s' \<Rightarrow> (0, s'))"
proof (induction buf arbitrary: s)
  case (Cons c buf)
  show ?case unfolding check_utf8_loop_step [OF Cons.prems]
    using Cons.IH utf8_next_states [OF Cons.prems] by (auto split: option.split)
qed simp

lemma utf8_run_append: "utf8_run s (a @ b) = (case utf8_run s a of None \<Rightarrow> None | Some s' \<Rightarrow> utf8_run s' b)"
  by (induction a arbitrary: s) (auto split: option.split)

lemma utf8_run_states: "s \<in> utf8_states \<Longrightarrow> utf8_run s buf = Some s' \<Longrightarrow> s' \<in> utf8_states"
proof (induction buf arbitrary: s)
  case (Cons c buf)
  then show ?case using utf8_next_states [OF Cons.prems(1)] by (auto split: option.splits)
qed simp


subsection \<open>Unicode scalar values\<close>

definition scalar :: "nat \<Rightarrow> bool" where
  "scalar cp \<longleftrightarrow> cp \<le> 0x10ffff \<and> \<not> (0xd800 \<le> cp \<and> cp \<le> 0xdfff)"

definition utf8_enc_nat :: "nat \<Rightarrow> nat list" where
  "utf8_enc_nat cp =
     (if cp < 0x80 then [cp]
      else if cp < 0x800 then [0xc0 + cp div 64, 0x80 + cp mod 64]
      else if cp < 0x10000 then [0xe0 + cp div 4096, 0x80 + cp div 64 mod 64, 0x80 + cp mod 64]
      else [0xf0 + cp div 262144, 0x80 + cp div 4096 mod 64, 0x80 + cp div 64 mod 64, 0x80 + cp mod 64])"

definition utf8_enc :: "nat \<Rightarrow> u8 list" where
  "utf8_enc cp = map of_nat (utf8_enc_nat cp)"

lemma unat8: "n < 256 \<Longrightarrow> unat (of_nat n :: u8) = n"
  by (simp add: unat_of_nat take_bit_nat_eq_self)

lemma utf8_next_nat:
  "n < 256 \<Longrightarrow> utf8_next 0 (of_nat n) = utf8_lead n"
  "n < 256 \<Longrightarrow> s \<noteq> 0 \<Longrightarrow> utf8_next s (of_nat n) = (case utf8_range s of (lo, hi, s') \<Rightarrow> if lo \<le> n \<and> n < hi then Some s' else None)"
  by (simp_all add: utf8_next_def unat8)

lemma div_bounds:
  assumes "(cp::nat) \<le> 0x10ffff"
  shows "cp div 64 mod 64 < 64" "cp mod 64 < 64" "cp div 4096 mod 64 < 64" "cp div 262144 \<le> 4"
  using assms by simp_all

lemma utf8_enc_run:
  assumes "scalar cp"
  shows "utf8_run 0 (utf8_enc cp @ bs) = utf8_run 0 bs"
proof -
  note b = div_bounds [of cp]
  consider "cp < 0x80" | "0x80 \<le> cp" "cp < 0x800" | "0x800 \<le> cp" "cp < 0x10000" | "0x10000 \<le> cp" "cp \<le> 0x10ffff"
    using assms by (force simp: scalar_def)
  then show ?thesis
  proof cases
    case 1
    then show ?thesis by (simp add: utf8_enc_def utf8_enc_nat_def utf8_next_nat utf8_lead_def)
  next
    case 2
    then have "2 \<le> cp div 64" "cp div 64 < 32" by linarith+
    then have "utf8_lead (0xc0 + cp div 64) = Some 0x8c" by (simp add: utf8_lead_def)
    with 2 show ?thesis using utf8_next_nat(1) [of "0xc0 + cp div 64"] utf8_next_nat(2) [of "0x80 + cp mod 64" "0x8c"] \<open>cp div 64 < 32\<close>
      by (simp add: utf8_enc_def utf8_enc_nat_def del: of_nat_add)
  next
    case 3
    let ?l = "0xe0 + cp div 4096" and ?m = "0x80 + cp div 64 mod 64"
    have n: "utf8_next 0 (of_nat ?l) = utf8_lead ?l" "utf8_next 0x8c (of_nat (0x80 + cp mod 64)) = Some 0"
      using 3 utf8_next_nat(1) [of ?l] utf8_next_nat(2) [of "0x80 + cp mod 64" "0x8c"] by (simp_all del: of_nat_add)
    have "\<exists>s. utf8_lead ?l = Some s \<and> utf8_next s (of_nat ?m) = Some 0x8c"
    proof -
      consider "cp div 4096 = 0" | "cp div 4096 = 13" | "cp div 4096 \<noteq> 0" "cp div 4096 \<noteq> 13" by blast
      then show ?thesis
      proof cases
        case 1
        then have "32 \<le> cp div 64 mod 64" using 3 by simp
        with 1 show ?thesis by (simp add: utf8_lead_def utf8_next_def unat8 del: of_nat_add)
      next
        case 2
        then have "cp < 55296" using assms by (auto simp: scalar_def)
        then have "832 \<le> cp div 64" "cp div 64 < 864" using 2 by linarith+
        then obtain k where "cp div 64 = k + 13 * 64" "k < 32" using le_Suc_ex [of 832 "cp div 64"] by auto
        then have "cp div 64 mod 64 < 32" by (simp only: mod_mult_self1)
        with 2 show ?thesis by (simp add: utf8_lead_def utf8_next_def unat8 del: of_nat_add)
      next
        case c: 3
        then have "utf8_lead ?l = Some 0x8d" using 3 by (auto simp: utf8_lead_def)
        then show ?thesis by (simp add: utf8_next_def unat8 del: of_nat_add)
      qed
    qed
    with 3 n show ?thesis by (auto simp: utf8_enc_def utf8_enc_nat_def simp del: of_nat_add)
  next
    case 4
    let ?l = "0xf0 + cp div 262144" and ?m = "0x80 + cp div 4096 mod 64"
    have n: "utf8_next 0 (of_nat ?l) = utf8_lead ?l" "utf8_next 0x8d (of_nat (0x80 + cp div 64 mod 64)) = Some 0x8c"
        "utf8_next 0x8c (of_nat (0x80 + cp mod 64)) = Some 0"
      using b(4) 4 utf8_next_nat(1) [of ?l] utf8_next_nat(2) [of "0x80 + cp div 64 mod 64" "0x8d"] utf8_next_nat(2) [of "0x80 + cp mod 64" "0x8c"]
      by (simp_all del: of_nat_add)
    have "\<exists>s. utf8_lead ?l = Some s \<and> utf8_next s (of_nat ?m) = Some 0x8d"
    proof -
      consider "cp div 262144 = 0" | "cp div 262144 = 4" | "cp div 262144 \<noteq> 0" "cp div 262144 \<noteq> 4" by blast
      then show ?thesis
      proof cases
        case 1
        then have "16 \<le> cp div 4096 mod 64" using 4 by simp
        with 1 show ?thesis by (simp add: utf8_lead_def utf8_next_def unat8 del: of_nat_add)
      next
        case 2
        then have "256 \<le> cp div 4096" "cp div 4096 < 272" using 4 by linarith+
        then obtain k where "cp div 4096 = k + 4 * 64" "k < 16" using le_Suc_ex [of 256 "cp div 4096"] by auto
        then have "cp div 4096 mod 64 < 16" by (simp only: mod_mult_self1)
        with 2 show ?thesis by (simp add: utf8_lead_def utf8_next_def unat8 del: of_nat_add)
      next
        case c: 3
        then have "utf8_lead ?l = Some 0x8e" using b(4) 4 by (auto simp: utf8_lead_def)
        then show ?thesis by (simp add: utf8_next_def unat8 del: of_nat_add)
      qed
    qed
    with 4 n show ?thesis by (auto simp: utf8_enc_def utf8_enc_nat_def simp del: of_nat_add)
  qed
qed


lemma of_nat_unat_eq: "n = unat (a::u8) \<Longrightarrow> of_nat n = a"
  by simp

lemma utf8_next_Some:
  "utf8_next 0 a = Some s \<longleftrightarrow> utf8_lead (unat a) = Some s"
  "utf8_next 0x8c a = Some s \<longleftrightarrow> 0x80 \<le> unat a \<and> unat a < 0xc0 \<and> s = 0"
  "utf8_next 0x8d a = Some s \<longleftrightarrow> 0x80 \<le> unat a \<and> unat a < 0xc0 \<and> s = 0x8c"
  "utf8_next 0x8e a = Some s \<longleftrightarrow> 0x80 \<le> unat a \<and> unat a < 0xc0 \<and> s = 0x8d"
  "utf8_next 0xa5 a = Some s \<longleftrightarrow> 0xa0 \<le> unat a \<and> unat a < 0xc0 \<and> s = 0x8c"
  "utf8_next 0x85 a = Some s \<longleftrightarrow> 0x80 \<le> unat a \<and> unat a < 0xa0 \<and> s = 0x8c"
  "utf8_next 0x9a a = Some s \<longleftrightarrow> 0x90 \<le> unat a \<and> unat a < 0xc0 \<and> s = 0x8d"
  "utf8_next 0x82 a = Some s \<longleftrightarrow> 0x80 \<le> unat a \<and> unat a < 0x90 \<and> s = 0x8d"
  by (auto simp: utf8_next_def)

lemma utf8_run_Some_Cons: "utf8_run s (c # cs) = Some t \<longleftrightarrow> (\<exists>s'. utf8_next s c = Some s' \<and> utf8_run s' cs = Some t)"
  by (auto split: option.splits)

lemma utf8_run_tail:
  assumes "utf8_run 0x8c bs = Some 0"
  obtains b cs where "bs = b # cs" "0x80 \<le> unat b" "unat b < 0xc0" "utf8_run 0 cs = Some 0"
  using assms by (cases bs) (auto simp: utf8_run_Some_Cons utf8_next_Some simp del: utf8_run.simps(2))

lemma utf8_run_tail2:
  assumes "utf8_run s bs = Some 0" "s \<in> {0x8d, 0xa5, 0x85}"
  obtains a b cs where "bs = a # b # cs" "utf8_next s a = Some 0x8c" "0x80 \<le> unat b" "unat b < 0xc0" "utf8_run 0 cs = Some 0"
proof (cases bs)
  case Nil
  then show thesis using assms by auto
next
  case (Cons a as)
  then have a: "utf8_next s a = Some 0x8c" "utf8_run 0x8c as = Some 0"
    using assms by (auto simp: utf8_run_Some_Cons utf8_next_Some simp del: utf8_run.simps(2))
  from a(2) obtain b cs where "as = b # cs" "0x80 \<le> unat b" "unat b < 0xc0" "utf8_run 0 cs = Some 0" by (rule utf8_run_tail)
  then show thesis using that Cons a(1) by simp
qed

lemma utf8_run_tail3:
  assumes "utf8_run s bs = Some 0" "s \<in> {0x8e, 0x9a, 0x82}"
  obtains a b c cs where "bs = a # b # c # cs" "utf8_next s a = Some 0x8d" "0x80 \<le> unat b" "unat b < 0xc0"
    "0x80 \<le> unat c" "unat c < 0xc0" "utf8_run 0 cs = Some 0"
proof (cases bs)
  case Nil
  then show thesis using assms by auto
next
  case (Cons a as)
  then have a: "utf8_next s a = Some 0x8d" "utf8_run 0x8d as = Some 0"
    using assms by (auto simp: utf8_run_Some_Cons utf8_next_Some simp del: utf8_run.simps(2))
  from utf8_run_tail2 [OF a(2)] obtain b c cs where "as = b # c # cs" "utf8_next 0x8d b = Some 0x8c" "0x80 \<le> unat c" "unat c < 0xc0"
    "utf8_run 0 cs = Some 0" by auto
  then show thesis using that Cons a(1) by (simp add: utf8_next_Some)
qed

lemma digits64:
  fixes x y z u :: nat
  assumes "y < 64" "z < 64"
  shows "(x * 4096 + y * 64 + z) div 4096 = x" "(x * 4096 + y * 64 + z) div 64 mod 64 = y" "(x * 4096 + y * 64 + z) mod 64 = z"
    "u < 64 \<Longrightarrow> (x * 262144 + u * 4096 + y * 64 + z) div 262144 = x" "u < 64 \<Longrightarrow> (x * 262144 + u * 4096 + y * 64 + z) div 4096 mod 64 = u"
    "(x * 262144 + u * 4096 + y * 64 + z) div 64 mod 64 = y" "(x * 262144 + u * 4096 + y * 64 + z) mod 64 = z"
proof -
  have d: "(q * 64 + r) div 64 = q" "(q * 64 + r) mod 64 = r" if "r < 64" for q r :: nat using that by simp_all
  have e: "n div 4096 = n div 64 div 64" "n div 262144 = n div 64 div 64 div 64" for n :: nat by (simp_all add: div_mult2_eq [symmetric])
  have a: "x * 4096 + y * 64 + z = (x * 64 + y) * 64 + z" "x * 262144 + u * 4096 + y * 64 + z = ((x * 64 + u) * 64 + y) * 64 + z" by simp_all
  show "(x * 4096 + y * 64 + z) div 4096 = x" "(x * 4096 + y * 64 + z) div 64 mod 64 = y" "(x * 4096 + y * 64 + z) mod 64 = z"
    "u < 64 \<Longrightarrow> (x * 262144 + u * 4096 + y * 64 + z) div 262144 = x" "u < 64 \<Longrightarrow> (x * 262144 + u * 4096 + y * 64 + z) div 4096 mod 64 = u"
    "(x * 262144 + u * 4096 + y * 64 + z) div 64 mod 64 = y" "(x * 262144 + u * 4096 + y * 64 + z) mod 64 = z"
    unfolding a e using assms by (simp_all only: d)
qed

lemma utf8_run_char:
  assumes "utf8_run 0 bs = Some 0" "bs \<noteq> []"
  shows "\<exists>cp cs. scalar cp \<and> bs = utf8_enc cp @ cs \<and> utf8_run 0 cs = Some 0"
proof -
  obtain a as where as: "bs = a # as" using assms(2) by (cases bs) auto
  then obtain s where s: "utf8_lead (unat a) = Some s" "utf8_run s as = Some 0"
    using assms(1) by (auto simp: utf8_run_Some_Cons utf8_next_Some simp del: utf8_run.simps(2))
  have "s \<in> {0, 0x8c} \<or> s \<in> {0x8d, 0xa5, 0x85} \<or> s \<in> {0x8e, 0x9a, 0x82}" using s(1) by (auto simp: utf8_lead_def split: if_splits)
  then consider "s = 0" | "s = 0x8c" | "s \<in> {0x8d, 0xa5, 0x85}" | "s \<in> {0x8e, 0x9a, 0x82}" by blast
  then show ?thesis
  proof cases
    case 1
    then have "unat a < 0x80" using s(1) by (auto simp: utf8_lead_def split: if_splits)
    then show ?thesis using as s(2) 1 by (intro exI [of _ "unat a"] exI [of _ as]) (simp add: scalar_def utf8_enc_def utf8_enc_nat_def)
  next
    case 2
    then have a: "0xc2 \<le> unat a" "unat a < 0xe0" using s(1) by (auto simp: utf8_lead_def split: if_splits)
    from s(2) obtain b cs where b: "as = b # cs" "0x80 \<le> unat b" "unat b < 0xc0" "utf8_run 0 cs = Some 0"
      unfolding 2 by (rule utf8_run_tail)
    obtain x z where w: "unat a = 0xc0 + x" "unat b = 0x80 + z" and lt: "2 \<le> x" "x < 32" "z < 64"
      using le_Suc_ex [of "0xc0" "unat a"] le_Suc_ex [OF b(2)] a b(3) by auto
    let ?cp = "x * 64 + z"
    have m: "?cp div 64 = x" "?cp mod 64 = z" using lt by simp_all
    have r: "0x80 \<le> ?cp" "?cp < 0x800" "scalar ?cp" using lt unfolding scalar_def by linarith+
    have "utf8_enc ?cp = [of_nat (unat a), of_nat (unat b)]"
      unfolding w utf8_enc_def utf8_enc_nat_def m using r by (simp del: of_nat_add)
    then show ?thesis using as b r(3) by (intro exI [of _ ?cp] exI [of _ cs]) simp
  next
    case 3
    then have a: "0xe0 \<le> unat a" "unat a < 0xf0" "s = 0xa5 \<longleftrightarrow> unat a = 0xe0" "s = 0x85 \<longleftrightarrow> unat a = 0xed"
      using s(1) by (auto simp: utf8_lead_def split: if_splits)
    from utf8_run_tail2 [OF s(2) 3] obtain b c cs where b: "as = b # c # cs" "utf8_next s b = Some 0x8c" "0x80 \<le> unat c" "unat c < 0xc0"
      "utf8_run 0 cs = Some 0" by blast
    have bb: "0x80 \<le> unat b" "unat b < 0xc0" "unat a = 0xe0 \<longrightarrow> 0xa0 \<le> unat b" "unat a = 0xed \<longrightarrow> unat b < 0xa0"
      using b(2) 3 a(3,4) by (auto simp: utf8_next_Some)
    obtain x y z where w: "unat a = 0xe0 + x" "unat b = 0x80 + y" "unat c = 0x80 + z"
      using le_Suc_ex [OF a(1)] le_Suc_ex [OF bb(1)] le_Suc_ex [OF b(3)] by blast
    have lt: "x < 16" "y < 64" "z < 64" "x = 0 \<longrightarrow> 32 \<le> y" "x = 13 \<longrightarrow> y < 32" using a bb b(4) w by auto
    let ?cp = "x * 4096 + y * 64 + z"
    note m = digits64(1-3) [OF lt(2,3), of x]
    have r: "0x800 \<le> ?cp" "?cp < 0x10000" using lt by (cases "x = 0"; linarith)+
    have sc: "scalar ?cp" using lt unfolding scalar_def by (cases "x < 13"; cases "x = 13"; linarith)
    have "utf8_enc ?cp = [of_nat (unat a), of_nat (unat b), of_nat (unat c)]"
      unfolding w utf8_enc_def utf8_enc_nat_def m using r by (simp del: of_nat_add)
    then show ?thesis using as b sc by (intro exI [of _ ?cp] exI [of _ cs]) simp
  next
    case 4
    then have a: "0xf0 \<le> unat a" "unat a \<le> 0xf4" "s = 0x9a \<longleftrightarrow> unat a = 0xf0" "s = 0x82 \<longleftrightarrow> unat a = 0xf4"
      using s(1) by (auto simp: utf8_lead_def split: if_splits)
    from utf8_run_tail3 [OF s(2) 4] obtain b c d cs where b: "as = b # c # d # cs" "utf8_next s b = Some 0x8d" "0x80 \<le> unat c" "unat c < 0xc0"
      "0x80 \<le> unat d" "unat d < 0xc0" "utf8_run 0 cs = Some 0" by blast
    have bb: "0x80 \<le> unat b" "unat b < 0xc0" "unat a = 0xf0 \<longrightarrow> 0x90 \<le> unat b" "unat a = 0xf4 \<longrightarrow> unat b < 0x90"
      using b(2) 4 a(3,4) by (auto simp: utf8_next_Some)
    obtain x u y z where w: "unat a = 0xf0 + x" "unat b = 0x80 + u" "unat c = 0x80 + y" "unat d = 0x80 + z"
      using le_Suc_ex [OF a(1)] le_Suc_ex [OF bb(1)] le_Suc_ex [OF b(3)] le_Suc_ex [OF b(5)] by blast
    have lt: "x \<le> 4" "u < 64" "y < 64" "z < 64" "x = 0 \<longrightarrow> 16 \<le> u" "x = 4 \<longrightarrow> u < 16" using a bb b(4,6) w by auto
    let ?cp = "x * 262144 + u * 4096 + y * 64 + z"
    note m = digits64(4-7) [OF lt(3,4), where x = x and u = u]
    have r: "0x10000 \<le> ?cp" using lt by (cases "x = 0"; linarith)
    then have sc: "scalar ?cp" using lt unfolding scalar_def by (cases "x = 4"; linarith)
    have "utf8_enc ?cp = [of_nat (unat a), of_nat (unat b), of_nat (unat c), of_nat (unat d)]"
      unfolding w utf8_enc_def utf8_enc_nat_def m(3,4) m(1,2) [OF lt(2)] using r by (simp del: of_nat_add)
    then show ?thesis using as b sc by (intro exI [of _ ?cp] exI [of _ cs]) simp
  qed
qed


definition utf8_text :: "u8 list \<Rightarrow> bool" where
  "utf8_text bs \<longleftrightarrow> (\<exists>cps. list_all scalar cps \<and> bs = concat (map utf8_enc cps))"

lemma utf8_text_run: "utf8_text bs \<longleftrightarrow> utf8_run 0 bs = Some 0"
proof
  show "utf8_run 0 bs = Some 0 \<Longrightarrow> utf8_text bs" unfolding utf8_text_def
  proof (induction "length bs" arbitrary: bs rule: less_induct)
    case less
    show ?case
    proof (cases "bs = []")
      case False
      from utf8_run_char [OF less.prems False] obtain cp cs where
        c: "scalar cp" "bs = utf8_enc cp @ cs" "utf8_run 0 cs = Some 0" by blast
      have "length cs < length bs" unfolding c(2) by (simp add: utf8_enc_def utf8_enc_nat_def)
      from less.hyps [OF this c(3)] obtain cps where "list_all scalar cps" "cs = concat (map utf8_enc cps)" by blast
      then show ?thesis using c by (intro exI [of _ "cp # cps"]) simp
    qed (auto intro: exI [of _ "[]"])
  qed
  have "list_all scalar cps \<Longrightarrow> utf8_run 0 (concat (map utf8_enc cps)) = Some 0" for cps
    by (induction cps) (simp_all add: utf8_enc_run)
  then show "utf8_text bs \<Longrightarrow> utf8_run 0 bs = Some 0" unfolding utf8_text_def by blast
qed

text \<open>C11: the checker accepts exactly UTF-8. Started in state 0, it ends in state 0 without an error on the
  byte strings that are encodings of sequences of Unicode scalar values, and on no other.\<close>

theorem lws_check_utf8_exact:
  "lws_check_utf8 0 bs = Some (0, 0) \<longleftrightarrow> (\<exists>cps. list_all scalar cps \<and> bs = concat (map utf8_enc cps))"
proof -
  have z: "0 \<in> utf8_states" by (simp add: utf8_states_def)
  have "lws_check_utf8 0 bs = Some (0, 0) \<longleftrightarrow> utf8_run 0 bs = Some 0"
    unfolding lws_check_utf8_def check_utf8_loop_run [OF z] by (auto split: option.split)
  then show ?thesis unfolding utf8_text_run [symmetric] utf8_text_def .
qed

text \<open>Feeding the text in pieces.\<close>

lemma lws_check_utf8_run:
  "s \<in> utf8_states \<Longrightarrow> lws_check_utf8 s bs = Some (case utf8_run s bs of None \<Rightarrow> (1, s) | Some s' \<Rightarrow> (0, s'))"
  by (simp add: lws_check_utf8_def check_utf8_loop_run)

lemma lws_check_byte_utf8_next:
  assumes "s \<in> utf8_states"
  shows "lws_check_byte_utf8 s c = Some (case utf8_next s c of None \<Rightarrow> - 1 | Some s' \<Rightarrow> uint s')"
proof (cases "s = 0")
  case True
  have [simp]: "c \<ge> 0x80 \<longleftrightarrow> 0x80 \<le> unat c" "c < 0xc2 \<longleftrightarrow> unat c < 0xc2" "c > 0xf4 \<longleftrightarrow> unat c > 0xf4" "c < 0xe0 \<longleftrightarrow> unat c < 0xe0"
    by (simp_all add: word_le_nat_alt word_less_nat_alt)
  show ?thesis
  proof (cases "0xe0 \<le> unat c \<and> unat c \<le> 0xf4")
    case True
    then have r: "rd e0f4 (unat c - 0xe0) = utf8_lead (unat c)" by (simp add: e0f4_lead)
    show ?thesis using True \<open>s = 0\<close> unfolding lws_check_byte_utf8_def utf8_next_def r by (auto simp: utf8_lead_def)
  next
    case False
    then show ?thesis using \<open>s = 0\<close> by (auto simp: lws_check_byte_utf8_def utf8_next_def utf8_lead_def)
  qed
next
  case False
  then show ?thesis using assms
    by (auto simp: utf8_states_def utf8_next_def utf8_upper_def word_less_nat_alt e0f4_def rd_def lws_check_byte_utf8_def)
qed

end
