(* ===== verification/Buflist.thy ===== *)
theory Buflist
  imports Fifo
begin

text \<open>
  The list of received segments that are not parsed yet: \<open>lws_buflist_*\<close> of
  \<open>lib/core/libwebsockets.c\<close> and its users \<open>lws_rxflow_cache\<close>, \<open>lws_buflist_aware_read\<close> and
  \<open>lws_buflist_aware_consume\<close> of \<open>lib/core/service.c\<close>, and the reading part of
  \<open>lws_h1_server_socket_service\<close> of \<open>lib/roles/h1/ops-h1.c\<close>.

  The linked list is the list of its segments. What is outside of the sources is an argument: \<open>mem\<close> says
  whether an allocation succeeds, the result of a read from the socket is the argument \<open>io\<close>. The failing
  assertions of the code are \<open>None\<close>.

  Shown is that the list is a queue of bytes, an instance of the queue interface, and that a connection
  serviced through the two \<open>aware\<close> functions gets its bytes once and in order.
\<close>

record lws_buflist =
  seg_len :: nat
  seg_pos :: nat
  seg_buf :: "u8 list"

text \<open>The walk to the tail, with its limit on the number of segments.\<close>

fun buflist_tail :: "nat \<Rightarrow> lws_buflist list \<Rightarrow> bool" where
  "buflist_tail sanity [] = True"
| "buflist_tail sanity (s # bl) = (if sanity - 1 = 0 then False else buflist_tail (sanity - 1) bl)"

definition lws_buflist_append_segment :: "bool \<Rightarrow> lws_buflist list \<Rightarrow> u8 list \<Rightarrow> (int \<times> lws_buflist list) option" where
  "lws_buflist_append_segment mem head buf =
     (let first = head = [] in
      if buf = [] then None
      else if \<not> buflist_tail 1024 head then Some (- 1, head)
      else if \<not> mem then Some (- 1, head)
      else Some (if first then 1 else 0, head @ [\<lparr>seg_len = length buf, seg_pos = 0, seg_buf = buf\<rparr>]))"

definition lws_buflist_destroy_segment :: "lws_buflist list \<Rightarrow> (int \<times> lws_buflist list) option" where
  "lws_buflist_destroy_segment head =
     (case head of [] \<Rightarrow> None | old # head \<Rightarrow> Some (if head = [] then 1 else 0, head))"

definition lws_buflist_destroy_all_segments :: "lws_buflist list \<Rightarrow> lws_buflist list" where
  "lws_buflist_destroy_all_segments head = []"

text \<open>The length of the next segment, its bytes, and the list, from which an empty segment may have gone.\<close>

definition lws_buflist_next_segment_len :: "lws_buflist list \<Rightarrow> (nat \<times> u8 list \<times> lws_buflist list) option" where
  "lws_buflist_next_segment_len head =
     (case head of [] \<Rightarrow> Some (0, [], [])
      | s # next \<Rightarrow>
        do { head \<leftarrow> (if seg_len s = 0 \<and> next \<noteq> [] then map_option snd (lws_buflist_destroy_segment head) else Some head);
             case head of [] \<Rightarrow> Some (0, [], [])
             | s # next \<Rightarrow>
               if seg_pos s < seg_len s then Some (seg_len s - seg_pos s, drop (seg_pos s) (seg_buf s), head) else None })"

definition lws_buflist_use_segment :: "lws_buflist list \<Rightarrow> nat \<Rightarrow> (int \<times> lws_buflist list) option" where
  "lws_buflist_use_segment head len =
     (case head of [] \<Rightarrow> None
      | s # next \<Rightarrow>
        if len = 0 \<or> seg_pos s + len > seg_len s then None
        else do { let s = s\<lparr>seg_pos := seg_pos s + len\<rparr>;
                  head \<leftarrow> (if seg_pos s = seg_len s then map_option snd (lws_buflist_destroy_segment (s # next)) else Some (s # next));
                  case head of [] \<Rightarrow> Some (0, [])
                  | s # next \<Rightarrow> Some (int_of32 (seg_len s - seg_pos s), head) })"


subsection \<open>The users of the list\<close>

text \<open>The input side of a connection: its list, and whether it is on the list of the connections that have
  something buffered.\<close>

record lws_rx =
  rx_buflist :: "lws_buflist list"
  rx_listed :: bool

definition buflist_listed :: "int \<Rightarrow> lws_rx \<Rightarrow> lws_rx" where
  "buflist_listed m rx = (if m \<noteq> 0 then rx\<lparr>rx_listed := True\<rparr> else rx)"

abbreviation "LWSRXFC_ERROR \<equiv> - 1 :: int"
abbreviation "LWSRXFC_CACHED \<equiv> 0 :: int"
abbreviation "LWSRXFC_ADDITIONAL \<equiv> 1 :: int"
abbreviation "LWSRXFC_TRIMMED \<equiv> 2 :: int"

text \<open>\<open>inside\<close> stands for the comparison of pointers: the bytes \<open>buf\<close> are the last ones of the first segment
  of the list, not of some other buffer. The argument \<open>n\<close> of the C function is 0 in all the calls.\<close>

definition lws_rxflow_cache :: "bool \<Rightarrow> bool \<Rightarrow> lws_rx \<Rightarrow> u8 list \<Rightarrow> (int \<times> lws_rx) option" where
  "lws_rxflow_cache mem inside rx buf =
     do { (blen, buffered, bl) \<leftarrow> lws_buflist_next_segment_len (rx_buflist rx);
          let rx = rx\<lparr>rx_buflist := bl\<rparr>;
          if blen \<noteq> 0 \<and> inside then
            do { (_, bl) \<leftarrow> lws_buflist_use_segment bl (blen - length buf);
                 Some (LWSRXFC_TRIMMED, rx\<lparr>rx_buflist := bl\<rparr>) }
          else
            do { (m, bl) \<leftarrow> lws_buflist_append_segment mem bl buf;
                 if m < 0 then Some (LWSRXFC_ERROR, rx\<lparr>rx_buflist := bl\<rparr>)
                 else Some (if blen \<noteq> 0 then LWSRXFC_ADDITIONAL else LWSRXFC_CACHED, buflist_listed m (rx\<lparr>rx_buflist := bl\<rparr>)) } }"

abbreviation "LWS_SSL_CAPABLE_ERROR \<equiv> - 1 :: int"
abbreviation "LWS_SSL_CAPABLE_MORE_SERVICE \<equiv> - 4 :: int"

text \<open>The result of reading from the socket: bytes (none when the peer has closed), nothing yet, or an error.\<close>

datatype io_read = Io_bytes "u8 list" | Io_more | Io_error

fun io_len :: "io_read \<Rightarrow> int" where
  "io_len (Io_bytes bs) = int (length bs)"
| "io_len Io_more = LWS_SSL_CAPABLE_MORE_SERVICE"
| "io_len Io_error = LWS_SSL_CAPABLE_ERROR"

fun io_data :: "io_read \<Rightarrow> u8 list" where
  "io_data (Io_bytes bs) = bs"
| "io_data _ = []"

text \<open>The result is where the bytes come from (0 the socket, 1 the list, -1 an error), the length and the
  bytes of \<open>ebuf\<close>, and the connection.\<close>

definition lws_buflist_aware_read ::
  "bool \<Rightarrow> io_read \<Rightarrow> lws_rx \<Rightarrow> (int \<times> int \<times> u8 list \<times> lws_rx) option" where
  "lws_buflist_aware_read mem io rx =
     do { (prior, _, bl) \<leftarrow> lws_buflist_next_segment_len (rx_buflist rx);
          let rx = rx\<lparr>rx_buflist := bl\<rparr>;
          let get_from_buflist = (\<lambda>rx.
            do { (len, token, bl) \<leftarrow> lws_buflist_next_segment_len (rx_buflist rx);
                 Some (1, int_of32 len, token, rx\<lparr>rx_buflist := bl\<rparr>) });
          if io_len io = LWS_SSL_CAPABLE_MORE_SERVICE \<and> prior \<noteq> 0 then get_from_buflist rx
          else if io_len io \<le> 0 then Some (0, io_len io, [], rx)
          else if prior = 0 then Some (0, io_len io, io_data io, rx)
          else do { (n, bl) \<leftarrow> lws_buflist_append_segment mem bl (io_data io);
                    let rx = rx\<lparr>rx_buflist := bl\<rparr>;
                    if n < 0 then Some (- 1, io_len io, io_data io, rx)
                    else get_from_buflist (buflist_listed n rx) } }"

definition lws_buflist_aware_consume :: "bool \<Rightarrow> lws_rx \<Rightarrow> u8 list \<Rightarrow> nat \<Rightarrow> int \<Rightarrow> (int \<times> lws_rx) option" where
  "lws_buflist_aware_consume mem rx token used buffered =
     (if used = 0 \<and> buffered \<noteq> 0 then Some (0, rx)
      else if used \<noteq> 0 \<and> buffered \<noteq> 0 then
        do { (m, bl) \<leftarrow> lws_buflist_use_segment (rx_buflist rx) used;
             let rx = rx\<lparr>rx_buflist := bl\<rparr>;
             if m \<noteq> 0 then Some (0, rx) else Some (0, rx\<lparr>rx_listed := False\<rparr>) }
      else if used \<noteq> length token then
        do { (m, bl) \<leftarrow> lws_buflist_append_segment mem (rx_buflist rx) (drop used token);
             let rx = rx\<lparr>rx_buflist := bl\<rparr>;
             if m < 0 then Some (1, rx) else Some (0, buflist_listed m rx) }
      else Some (0, rx))"



subsection \<open>The list is a queue of bytes\<close>

definition seg_inv :: "lws_buflist \<Rightarrow> bool" where
  "seg_inv s \<longleftrightarrow> seg_pos s < seg_len s \<and> seg_len s = length (seg_buf s) \<and> seg_len s < 2 ^ 31"

definition seg_bytes :: "lws_buflist \<Rightarrow> u8 list" where
  "seg_bytes s = drop (seg_pos s) (seg_buf s)"

definition buflist_inv :: "lws_buflist list \<Rightarrow> bool" where
  "buflist_inv bl = list_all seg_inv bl"

definition buflist_bytes :: "lws_buflist list \<Rightarrow> u8 list" where
  "buflist_bytes bl = concat (map seg_bytes bl)"

lemma buflist_simps [simp]:
  "buflist_inv []" "buflist_inv (s # bl) \<longleftrightarrow> seg_inv s \<and> buflist_inv bl" "buflist_inv (bl @ bl') \<longleftrightarrow> buflist_inv bl \<and> buflist_inv bl'"
  "buflist_bytes [] = []" "buflist_bytes (s # bl) = seg_bytes s @ buflist_bytes bl"
  "buflist_bytes (bl @ bl') = buflist_bytes bl @ buflist_bytes bl'"
  by (auto simp: buflist_inv_def buflist_bytes_def)

lemma seg_bytes_length: "seg_inv s \<Longrightarrow> length (seg_bytes s) = seg_len s - seg_pos s"
  by (simp add: seg_inv_def seg_bytes_def)

lemma seg_bytes_ne: "seg_inv s \<Longrightarrow> seg_bytes s \<noteq> []"
  by (simp add: seg_inv_def seg_bytes_def)

lemma buflist_bytes_ne: "buflist_inv bl \<Longrightarrow> buflist_bytes bl = [] \<longleftrightarrow> bl = []"
  by (cases bl) (auto simp: seg_bytes_ne)

lemma buflist_tail_iff: "0 < sanity \<Longrightarrow> buflist_tail sanity bl \<longleftrightarrow> length bl < sanity"
  by (induction sanity bl rule: buflist_tail.induct) auto

lemma append_segment_ok:
  assumes "buflist_inv bl" "buf \<noteq> []" "length buf < 2 ^ 31"
  obtains (ok) bl' where "mem" "length bl < 1024"
      "lws_buflist_append_segment mem bl buf = Some (if bl = [] then 1 else 0, bl')"
      "buflist_inv bl'" "buflist_bytes bl' = buflist_bytes bl @ buf" "length bl' = Suc (length bl)"
    | (fail) "\<not> mem \<or> 1024 \<le> length bl" "lws_buflist_append_segment mem bl buf = Some (- 1, bl)"
proof (cases "mem \<and> length bl < 1024")
  case True
  show ?thesis
    by (rule ok [of "bl @ [\<lparr>seg_len = length buf, seg_pos = 0, seg_buf = buf\<rparr>]"])
      (use assms True in \<open>auto simp: lws_buflist_append_segment_def buflist_tail_iff seg_inv_def seg_bytes_def\<close>)
next
  case False
  then show ?thesis using assms by (intro fail) (auto simp: lws_buflist_append_segment_def buflist_tail_iff)
qed

lemma next_segment_len_ok:
  "buflist_inv bl \<Longrightarrow> lws_buflist_next_segment_len bl =
     Some (case bl of [] \<Rightarrow> 0 | s # _ \<Rightarrow> length (seg_bytes s), case bl of [] \<Rightarrow> [] | s # _ \<Rightarrow> seg_bytes s, bl)"
  by (cases bl) (auto simp: lws_buflist_next_segment_len_def seg_inv_def seg_bytes_def)

lemma use_segment_ok:
  assumes "buflist_inv (s # bl)" "0 < n" "n \<le> length (seg_bytes s)"
  obtains bl' where "lws_buflist_use_segment (s # bl) n =
      Some (case bl' of [] \<Rightarrow> 0 | s # _ \<Rightarrow> int (length (seg_bytes s)), bl')" "buflist_inv bl'"
    "seg_bytes s @ buflist_bytes bl = take n (seg_bytes s) @ buflist_bytes bl'" "length bl' \<le> Suc (length bl)"
proof (cases "n = length (seg_bytes s)")
  case True
  with assms have "lws_buflist_use_segment (s # bl) n = Some (case bl of [] \<Rightarrow> 0 | s # _ \<Rightarrow> int (length (seg_bytes s)), bl)"
    by (auto simp: lws_buflist_use_segment_def lws_buflist_destroy_segment_def seg_bytes_length seg_inv_def
        int_of32_small split: list.splits)
  with assms True show ?thesis by (intro that [of bl]) auto
next
  case False
  let ?s = "s\<lparr>seg_pos := seg_pos s + n\<rparr>"
  have s: "seg_inv s" using assms by simp
  from False assms(3) have lt: "seg_pos s + n < seg_len s" using seg_bytes_length [OF s] by linarith
  then have s': "seg_inv ?s" using s by (simp add: seg_inv_def)
  have b: "seg_bytes ?s = drop n (seg_bytes s)" by (simp add: seg_bytes_def add.commute)
  have "lws_buflist_use_segment (s # bl) n = Some (int (length (seg_bytes ?s)), ?s # bl)"
    using lt assms(2) s by (auto simp: lws_buflist_use_segment_def seg_bytes_length [OF s'] int_of32_small seg_inv_def)
  with s' assms b show ?thesis by (intro that [of "?s # bl"]) (auto simp flip: append_assoc)
qed

text \<open>The queue interface on the list: \<open>Put\<close> appends a segment, \<open>Get\<close> looks at the first segment and uses up to
  \<open>n\<close> bytes of it.\<close>

definition buflist_put :: "lws_buflist list \<Rightarrow> u8 list \<Rightarrow> (lws_buflist list \<times> nat) option" where
  "buflist_put bl buf =
     do { (m, bl) \<leftarrow> lws_buflist_append_segment True bl buf; Some (bl, if m < 0 then 0 else length buf) }"

definition buflist_get :: "lws_buflist list \<Rightarrow> nat \<Rightarrow> (lws_buflist list \<times> u8 list) option" where
  "buflist_get bl n =
     do { (len, buf, bl) \<leftarrow> lws_buflist_next_segment_len bl;
          if len = 0 then Some (bl, [])
          else do { (_, bl) \<leftarrow> lws_buflist_use_segment bl (min n len); Some (bl, take (min n len) buf) } }"

interpretation buflist_fifo: byte_fifo buflist_inv buflist_bytes buflist_put buflist_get
  "\<lambda>_ buf. buf \<noteq> [] \<and> length buf < 2 ^ 31" "\<lambda>_ n. 0 < n"
proof unfold_locales
  fix bl and buf :: "u8 list" assume "buflist_inv bl" "buf \<noteq> [] \<and> length buf < 2 ^ 31"
  then have a: "buflist_inv bl" "buf \<noteq> []" "length buf < 2 ^ 31" by auto
  show "\<exists>s' n. buflist_put bl buf = Some (s', n) \<and> buflist_inv s' \<and> n \<le> length buf \<and>
      buflist_bytes s' = buflist_bytes bl @ take n buf \<and>
      (\<lambda>buf :: u8 list. buf \<noteq> [] \<and> length buf < 2 ^ 31) = (\<lambda>buf. buf \<noteq> [] \<and> length buf < 2 ^ 31) \<and> ((<) (0::nat)) = (<) 0"
    by (rule append_segment_ok [OF a, of True]) (auto simp: buflist_put_def a(1))
next
  fix bl and n :: nat assume inv: "buflist_inv bl" and n: "0 < n"
  show "\<exists>s' out. buflist_get bl n = Some (s', out) \<and> buflist_inv s' \<and> buflist_bytes bl = out @ buflist_bytes s' \<and>
      (\<lambda>buf :: u8 list. buf \<noteq> [] \<and> length buf < 2 ^ 31) = (\<lambda>buf. buf \<noteq> [] \<and> length buf < 2 ^ 31) \<and> ((<) (0::nat)) = (<) 0"
  proof (cases bl)
    case Nil
    then show ?thesis by (simp add: buflist_get_def next_segment_len_ok)
  next
    case (Cons s r)
    with inv have ne: "0 < length (seg_bytes s)" using seg_bytes_ne [of s] by auto
    from use_segment_ok [of s r "min n (length (seg_bytes s))"] inv Cons ne n obtain bl' where
      "lws_buflist_use_segment (s # r) (min n (length (seg_bytes s))) = Some (case bl' of [] \<Rightarrow> 0 | s # _ \<Rightarrow> int (length (seg_bytes s)), bl')"
      "buflist_inv bl'" "seg_bytes s @ buflist_bytes r = take (min n (length (seg_bytes s))) (seg_bytes s) @ buflist_bytes bl'" by auto
    then show ?thesis using ne inv by (simp add: buflist_get_def Cons next_segment_len_ok)
  qed
qed



subsection \<open>Servicing a connection\<close>

text \<open>The part of \<open>lws_h1_server_socket_service\<close> that reads, lets the parser have the bytes and accounts for
  what it used. It runs in the states \<open>LRS_ESTABLISHED\<close>, \<open>LRS_ISSUING_FILE\<close>, \<open>LRS_HEADERS\<close> and \<open>LRS_BODY\<close>; \<open>st\<close> is
  the state after the read, \<open>n\<close> what \<open>lws_read_h1\<close> returns, which is negative when it has closed the connection
  and else at most the number of bytes it was given. The result has how the function goes on, and the bytes
  that the parser used.\<close>

datatype h1_state = LRS_ESTABLISHED_h1 | LRS_ISSUING_FILE | LRS_HEADERS | LRS_BODY | LRS_FLUSHING_BEFORE_CLOSE_h1

datatype rx_end = Rx_fail | Rx_try_pollout | Rx_please_close | Rx_already_died | Rx_used

definition rx_account ::
  "bool \<Rightarrow> lws_rx \<Rightarrow> u8 list \<Rightarrow> nat \<Rightarrow> int \<Rightarrow> rx_end \<Rightarrow> (rx_end \<times> lws_rx \<times> u8 list) option" where
  "rx_account mem rx token used buffered e =
     do { (r, rx) \<leftarrow> lws_buflist_aware_consume mem rx token used buffered;
          Some (if r \<noteq> 0 then Rx_please_close else e, rx, take used token) }"

definition rx_round ::
  "bool \<Rightarrow> h1_state \<Rightarrow> io_read \<Rightarrow> int \<Rightarrow> lws_rx \<Rightarrow> (rx_end \<times> lws_rx \<times> u8 list) option" where
  "rx_round mem st io n rx =
     do { (buffered, len, token, rx) \<leftarrow> lws_buflist_aware_read mem io rx;
          if len = 0 \<or> len = LWS_SSL_CAPABLE_ERROR then Some (Rx_fail, rx, [])
          else if len = LWS_SSL_CAPABLE_MORE_SERVICE then Some (Rx_try_pollout, rx, [])
          else if st = LRS_FLUSHING_BEFORE_CLOSE_h1 then Some (Rx_try_pollout, rx, [])
          else if st = LRS_ISSUING_FILE then rx_account mem rx token 0 buffered Rx_try_pollout
          else if n < 0 then Some (Rx_already_died, rx, [])
          else rx_account mem rx token (min (nat n) (length token)) buffered Rx_used }"

fun rx_rounds :: "lws_rx \<Rightarrow> (h1_state \<times> io_read \<times> int) list \<Rightarrow> (rx_end list \<times> lws_rx \<times> u8 list) option" where
  "rx_rounds rx [] = Some ([], rx, [])"
| "rx_rounds rx ((st, io, n) # rs) =
     do { (e, rx, out) \<leftarrow> rx_round True st io n rx;
          (es, rx, outs) \<leftarrow> rx_rounds rx rs;
          Some (e # es, rx, out @ outs) }"

definition rx_inv :: "lws_rx \<Rightarrow> bool" where
  "rx_inv rx \<longleftrightarrow> buflist_inv (rx_buflist rx) \<and> (rx_listed rx \<longleftrightarrow> rx_buflist rx \<noteq> [])"

definition rx_bytes :: "lws_rx \<Rightarrow> u8 list" where
  "rx_bytes rx = buflist_bytes (rx_buflist rx)"

lemma aware_consume_buffered:
  assumes "rx_inv rx" "rx_buflist rx = s # bl" "b \<noteq> 0"
  obtains rx' where "lws_buflist_aware_consume mem rx (seg_bytes s) (min n (length (seg_bytes s))) b = Some (0, rx')"
    "rx_inv rx'" "rx_bytes rx = take n (seg_bytes s) @ rx_bytes rx'" "length (rx_buflist rx') \<le> length (rx_buflist rx)"
proof (cases "n = 0")
  case True
  with assms show ?thesis by (intro that [of rx]) (auto simp: lws_buflist_aware_consume_def)
next
  case False
  let ?m = "min n (length (seg_bytes s))"
  have inv: "buflist_inv (s # bl)" "rx_listed rx" using assms by (auto simp: rx_inv_def)
  then have m: "0 < ?m" using False seg_bytes_ne [of s] by simp
  then have m0: "?m \<noteq> 0" by simp
  from use_segment_ok [OF inv(1) m] obtain bl' where
    u: "lws_buflist_use_segment (s # bl) ?m = Some (case bl' of [] \<Rightarrow> 0 | s # _ \<Rightarrow> int (length (seg_bytes s)), bl')" "buflist_inv bl'"
      "seg_bytes s @ buflist_bytes bl = take ?m (seg_bytes s) @ buflist_bytes bl'" by auto
  have l: "length bl' \<le> Suc (length bl)" using u(1)
    by (auto simp: lws_buflist_use_segment_def lws_buflist_destroy_segment_def bind_eq_Some Let_def split: if_splits list.splits)
  have t: "take ?m (seg_bytes s) = take n (seg_bytes s)" by (cases "n \<le> length (seg_bytes s)") simp_all
  show ?thesis
  proof (cases bl')
    case Nil
    with u m0 assms show ?thesis
      by (intro that [of "rx\<lparr>rx_buflist := [], rx_listed := False\<rparr>"])
        (simp_all add: lws_buflist_aware_consume_def rx_inv_def rx_bytes_def t del: min_less_iff_conj)
  next
    case (Cons s' r)
    with u(2) have ne: "length (seg_bytes s') \<noteq> 0" using seg_bytes_ne [of s'] by simp
    with u m0 l assms inv Cons show ?thesis
      by (intro that [of "rx\<lparr>rx_buflist := bl'\<rparr>"])
        (simp_all add: lws_buflist_aware_consume_def rx_inv_def rx_bytes_def t del: min_less_iff_conj)
  qed
qed

lemma aware_consume_fresh:
  assumes "rx_inv rx" "rx_buflist rx = []" "token \<noteq> []" "length token < 2 ^ 31"
  obtains rx' where "lws_buflist_aware_consume True rx token (min n (length token)) 0 = Some (0, rx')"
    "rx_inv rx'" "token = take n token @ rx_bytes rx'" "length (rx_buflist rx') \<le> 1"
proof (cases "n < length token")
  case False
  with assms show ?thesis by (intro that [of rx]) (auto simp: lws_buflist_aware_consume_def rx_bytes_def)
next
  case True
  then have d: "drop n token \<noteq> []" "length (drop n token) < 2 ^ 31" using assms by auto
  show ?thesis
    by (rule append_segment_ok [OF _ d, of "[]" True])
      (use True assms in \<open>auto simp: lws_buflist_aware_consume_def rx_inv_def rx_bytes_def buflist_listed_def
        intro!: that [of "rx\<lparr>rx_buflist := _, rx_listed := True\<rparr>"]\<close>)
qed

lemma aware_read_buffered:
  assumes inv: "rx_inv rx" "rx_buflist rx \<noteq> []" and len: "length (rx_buflist rx) < 1024"
    and io: "length (io_data io) < 2 ^ 31" "0 < io_len io \<or> io_len io = LWS_SSL_CAPABLE_MORE_SERVICE"
  obtains rx' s bl where "lws_buflist_aware_read True io rx = Some (1, int (length (seg_bytes s)), seg_bytes s, rx')"
    "rx_inv rx'" "rx_buflist rx' = s # bl" "rx_bytes rx' = rx_bytes rx @ io_data io" "length bl \<le> length (rx_buflist rx)"
proof -
  from inv obtain s r where bl: "rx_buflist rx = s # r" by (cases "rx_buflist rx") auto
  have i: "buflist_inv (s # r)" "rx_listed rx" using inv bl by (auto simp: rx_inv_def)
  then have s: "seg_inv s" "length (seg_bytes s) \<noteq> 0" "length (seg_bytes s) < 2 ^ 31"
    using seg_bytes_ne [of s] seg_bytes_length [of s] by (auto simp: seg_inv_def)
  show ?thesis
  proof (cases "0 < io_len io")
    case False
    with io have "io = Io_more" by (cases io) auto
    with bl i s inv show ?thesis
      by (intro that [of s rx r]) (auto simp: lws_buflist_aware_read_def next_segment_len_ok int_of32_small)
  next
    case True
    then obtain b where b: "io = Io_bytes b" "b \<noteq> []" by (cases io) auto
    from io b have "length b < 2 ^ 31" by simp
    from append_segment_ok [OF i(1) b(2) this, of True] len bl obtain bl' where
      a: "lws_buflist_append_segment True (s # r) b = Some (0, bl')" "buflist_inv bl'"
        "buflist_bytes bl' = buflist_bytes (s # r) @ b" "length bl' = Suc (length (s # r))" by auto
    then obtain r' where r': "bl' = s # r'" by (auto simp: lws_buflist_append_segment_def Let_def split: if_splits)
    show ?thesis
      by (rule that [of s "rx\<lparr>rx_buflist := bl'\<rparr>" r'])
        (use a i s bl b r' in \<open>auto simp: lws_buflist_aware_read_def next_segment_len_ok int_of32_small rx_inv_def
          rx_bytes_def buflist_listed_def\<close>)
  qed
qed

text \<open>While the connection is not being flushed and the parser does not fail, a round is a read and the
  accounting of the bytes used, none of them while a file is sent.\<close>

lemma rx_round_used:
  assumes "st \<noteq> LRS_FLUSHING_BEFORE_CLOSE_h1" "0 \<le> n"
    and "lws_buflist_aware_read mem io rx = Some (buffered, int (length token), token, rx1)" "token \<noteq> []"
  obtains k e where "rx_round mem st io n rx = rx_account mem rx1 token (min k (length token)) buffered e"
    "e = Rx_try_pollout \<or> e = Rx_used"
  using assms that [of 0 Rx_try_pollout] that [of "nat n" Rx_used]
  by (cases "st = LRS_ISSUING_FILE") (simp_all add: rx_round_def)

abbreviation rx_alive :: "rx_end \<Rightarrow> bool" where
  "rx_alive e \<equiv> e \<noteq> Rx_please_close \<and> e \<noteq> Rx_already_died"

lemma rx_round_ok:
  assumes inv: "rx_inv rx" and len: "length (rx_buflist rx) < 1024" and io: "length (io_data io) < 2 ^ 31"
    and st: "st \<noteq> LRS_FLUSHING_BEFORE_CLOSE_h1" "0 \<le> n"
  obtains e rx' out where "rx_round True st io n rx = Some (e, rx', out)" "rx_inv rx'" "rx_alive e"
    "rx_bytes rx @ io_data io = out @ rx_bytes rx'" "length (rx_buflist rx') \<le> Suc (length (rx_buflist rx))"
proof (cases "0 < io_len io \<or> io_len io = LWS_SSL_CAPABLE_MORE_SERVICE")
  case none: False
  then have "io = Io_error \<or> io = Io_bytes []" by (cases io) auto
  with inv show ?thesis by (intro that [of Rx_fail rx "[]"])
      (auto simp: rx_round_def lws_buflist_aware_read_def next_segment_len_ok rx_inv_def)
next
  case some: True
  show ?thesis
  proof (cases "rx_buflist rx = []")
    case False
    from aware_read_buffered [OF inv False len io some] obtain rx1 s bl where
      r: "lws_buflist_aware_read True io rx = Some (1, int (length (seg_bytes s)), seg_bytes s, rx1)"
        "rx_inv rx1" "rx_buflist rx1 = s # bl" "rx_bytes rx1 = rx_bytes rx @ io_data io" "length bl \<le> length (rx_buflist rx)" .
    from r(2,3) have "seg_bytes s \<noteq> []" by (auto simp: rx_inv_def seg_bytes_ne)
    from rx_round_used [OF st r(1) this] obtain k e where
      k: "rx_round True st io n rx = rx_account True rx1 (seg_bytes s) (min k (length (seg_bytes s))) 1 e" "rx_alive e" by blast
    from aware_consume_buffered [OF r(2,3), of 1 True k] obtain rx' where
      "lws_buflist_aware_consume True rx1 (seg_bytes s) (min k (length (seg_bytes s))) 1 = Some (0, rx')"
      "rx_inv rx'" "rx_bytes rx1 = take k (seg_bytes s) @ rx_bytes rx'" "length (rx_buflist rx') \<le> length (rx_buflist rx1)" by auto
    with r k show ?thesis
      by (intro that [of e rx' "take k (seg_bytes s)"]) (simp_all add: rx_account_def min_def)
  next
    case True
    with inv have rd: "lws_buflist_aware_read True io rx = Some (0, io_len io, io_data io, rx)"
      by (cases io) (simp_all add: lws_buflist_aware_read_def next_segment_len_ok rx_inv_def Let_def)
    show ?thesis
    proof (cases "io_data io = []")
      case None: True
      with some have "io = Io_more" by (cases io) auto
      with rd inv show ?thesis by (intro that [of Rx_try_pollout rx "[]"]) (simp_all add: rx_round_def)
    next
      case False
      then have il: "io_len io = int (length (io_data io))" by (cases io) auto
      from rx_round_used [OF st rd [unfolded il] False] obtain k e where
        k: "rx_round True st io n rx = rx_account True rx (io_data io) (min k (length (io_data io))) 0 e" "rx_alive e" by blast
      from aware_consume_fresh [OF inv True False io, of k] obtain rx' where
        "lws_buflist_aware_consume True rx (io_data io) (min k (length (io_data io))) 0 = Some (0, rx')"
        "rx_inv rx'" "io_data io = take k (io_data io) @ rx_bytes rx'" "length (rx_buflist rx') \<le> 1" .
      with k True show ?thesis
        by (intro that [of e rx' "take k (io_data io)"]) (simp_all add: rx_account_def rx_bytes_def min_def)
    qed
  qed
qed


definition rx_empty :: lws_rx where
  "rx_empty = \<lparr>rx_buflist = [], rx_listed = False\<rparr>"

definition rx_demo :: "(h1_state \<times> io_read \<times> int) list" where
  "rx_demo = [(LRS_HEADERS, Io_bytes (bytes_of ''abc''), 1), (LRS_ISSUING_FILE, Io_bytes (bytes_of ''de''), 0),
     (LRS_BODY, Io_more, 5)]"


text \<open>C31: when the list cannot take another segment, what was just read is lost: \<open>lws_buflist_aware_read\<close> says -1,
  which its callers do not look at, and when the parser uses none of it, or a file is being sent, the accounting
  succeeds, the connection goes on and is as it was, without those bytes.\<close>

theorem buflist_full_drops_bytes:
  assumes "rx_inv rx" "1024 \<le> length (rx_buflist rx)" "bs \<noteq> []"
  shows "lws_buflist_aware_read True (Io_bytes bs) rx = Some (- 1, int (length bs), bs, rx) \<and>
    (\<exists>e. rx_round True st (Io_bytes bs) 0 rx = Some (e, rx, []) \<and> (e = Rx_try_pollout \<or> e = Rx_used))"
proof -
  obtain s r where bl: "rx_buflist rx = s # r" using assms(2) by (cases "rx_buflist rx") auto
  have inv: "buflist_inv (s # r)" using assms bl by (simp add: rx_inv_def)
  have "length (seg_bytes s) \<noteq> 0" using inv seg_bytes_ne [of s] by simp
  moreover have "lws_buflist_append_segment True (s # r) bs = Some (- 1, s # r)"
    using assms bl by (simp add: lws_buflist_append_segment_def buflist_tail_iff)
  ultimately have 1: "lws_buflist_aware_read True (Io_bytes bs) rx = Some (- 1, int (length bs), bs, rx)"
    using assms(3) inv bl by (simp add: lws_buflist_aware_read_def next_segment_len_ok)
  with assms(3) show ?thesis by (simp add: rx_round_def rx_account_def 1 lws_buflist_aware_consume_def)
qed

definition rx_full :: lws_rx where
  "rx_full = \<lparr>rx_buflist = replicate 1024 \<lparr>seg_len = 1, seg_pos = 0, seg_buf = [ch CHR ''a'']\<rparr>, rx_listed = True\<rparr>"

lemma rx_full_inv: "rx_inv rx_full" "1024 \<le> length (rx_buflist rx_full)"
  by (simp_all add: rx_full_def rx_inv_def buflist_inv_def list_all_iff seg_inv_def)

theorem buflist_full_drops_bytes_witness:
  "\<exists>e. rx_round True LRS_HEADERS (Io_bytes (bytes_of ''b'')) 0 rx_full = Some (e, rx_full, []) \<and> (e = Rx_try_pollout \<or> e = Rx_used)"
  using buflist_full_drops_bytes [OF rx_full_inv, of "bytes_of ''b''" LRS_HEADERS] by simp

end
