(* ===== verification/Output.thy ===== *)
theory Output
  imports Buflist
begin

text \<open>
  Sending: \<open>lws_issue_raw\<close> of \<open>lib/core/output.c\<close>, through which everything goes to the socket. What the socket
  does not take is kept in the list \<open>buflist_out\<close> and sent first the next time.

  The socket is an argument: \<open>io\<close> says how much of what it is offered it takes, or that it takes nothing now, or
  that it has failed. \<open>out_wire\<close> collects what it has taken. The end of an HTTP transaction, which is
  deferred until the list is empty, is the argument \<open>transaction_completed\<close>.

  Shown is that nothing is lost, repeated or reordered, and that the connection asks to be called again
  as long as something is kept.
\<close>

datatype io_write = Io_takes nat | Io_later | Io_fails

record lws_out =
  buflist_out :: "lws_buflist list"
  out_wire :: "u8 list"
  out_unusable :: bool
  out_on_writable :: bool
  could_have_pending :: bool
  deferred_transaction_completed :: bool

record out_env =
  tx_packet_size :: nat
  out_rx_buffer_size :: nat
  out_serv_buf_size :: nat
  out_mem_ok :: bool
  transaction_completed :: "lws_out \<Rightarrow> bool \<times> lws_out"

definition lws_has_buffered_out :: "lws_out \<Rightarrow> bool" where
  "lws_has_buffered_out out = (buflist_out out \<noteq> [])"

text \<open>\<open>lws_ssl_capable_write\<close>: the result, and what is on the wire.\<close>

fun lws_ssl_capable_write :: "io_write \<Rightarrow> u8 list \<Rightarrow> lws_out \<Rightarrow> int \<times> lws_out" where
  "lws_ssl_capable_write (Io_takes k) buf out = (int (min k (length buf)), out\<lparr>out_wire := out_wire out @ take k buf\<rparr>)"
| "lws_ssl_capable_write Io_later buf out = (LWS_SSL_CAPABLE_MORE_SERVICE, out)"
| "lws_ssl_capable_write Io_fails buf out = (LWS_SSL_CAPABLE_ERROR, out)"

text \<open>What is done after \<open>m\<close> bytes of \<open>buf\<close> are sent, first for bytes of the list, then for the caller's. \<open>flushing\<close> stands
  for the state \<open>LRS_FLUSHING_BEFORE_CLOSE\<close>.\<close>

definition issue_raw_list :: "out_env \<Rightarrow> bool \<Rightarrow> u8 list \<Rightarrow> nat \<Rightarrow> lws_out \<Rightarrow> (int \<times> lws_out) option" where
  "issue_raw_list oe flushing buf m out = do {
     bl \<leftarrow> (if m \<noteq> 0 then map_option snd (lws_buflist_use_segment (buflist_out out) m) else Some (buflist_out out));
     let out = out\<lparr>buflist_out := bl\<rparr>;
     if lws_has_buffered_out out then Some (int m, out\<lparr>out_on_writable := True\<rparr>)
     else if flushing then Some (- 1, out)
     else if deferred_transaction_completed out then
       (let (closed, out) = transaction_completed oe (out\<lparr>deferred_transaction_completed := False\<rparr>)
        in Some (if closed then - 1 else int (length buf), out))
     else Some (int (length buf), out\<lparr>out_on_writable := True\<rparr>) }"

definition issue_raw_fresh :: "out_env \<Rightarrow> u8 list \<Rightarrow> nat \<Rightarrow> lws_out \<Rightarrow> (int \<times> lws_out) option" where
  "issue_raw_fresh oe buf m out =
     (if m = length buf then Some (int m, out)
      else do {
        (_, bl) \<leftarrow> lws_buflist_append_segment (out_mem_ok oe) (buflist_out out) (drop m buf);
        Some (int (length buf), out\<lparr>buflist_out := bl, out_on_writable := True\<rparr>) })"

text \<open>The limit of one write.\<close>

definition issue_raw_limit :: "out_env \<Rightarrow> nat" where
  "issue_raw_limit oe =
     add32 (if tx_packet_size oe \<noteq> 0 then tx_packet_size oe
            else if out_rx_buffer_size oe \<noteq> 0 then out_rx_buffer_size oe else out_serv_buf_size oe) (16 + 4)"

definition issue_raw_write :: "out_env \<Rightarrow> bool \<Rightarrow> io_write \<Rightarrow> u8 list \<Rightarrow> lws_out \<Rightarrow> (int \<times> lws_out) option" where
  "issue_raw_write oe flushing io buf out =
     (let n = issue_raw_limit oe;
          n = (if n > length buf then length buf else n);
          (m, out) = lws_ssl_capable_write io (take n buf) out;
          out = out\<lparr>could_have_pending := True\<rparr>
      in if m = LWS_SSL_CAPABLE_ERROR then Some (- 1, out\<lparr>out_unusable := True\<rparr>)
         else let m = (if m = LWS_SSL_CAPABLE_MORE_SERVICE then 0 else nat m)
              in if lws_has_buffered_out out then issue_raw_list oe flushing buf m out else issue_raw_fresh oe buf m out)"

text \<open>\<open>buf\<close> is \<open>None\<close> for the null pointer with which a flush is asked for.\<close>

definition lws_issue_raw :: "out_env \<Rightarrow> bool \<Rightarrow> io_write \<Rightarrow> u8 list option \<Rightarrow> lws_out \<Rightarrow> (int \<times> lws_out) option" where
  "lws_issue_raw oe flushing io buf out =
     (if flushing \<and> \<not> lws_has_buffered_out out then Some (case buf of None \<Rightarrow> 0 | Some b \<Rightarrow> int (length b), out)
      else do {
        (buf, out) \<leftarrow> (case buf of
            Some b \<Rightarrow>
              if lws_has_buffered_out out then do {
                (_, bl) \<leftarrow> lws_buflist_append_segment (out_mem_ok oe) (buflist_out out) b;
                Some (None, out\<lparr>buflist_out := bl\<rparr>) }
              else Some (Some b, out)
          | None \<Rightarrow> Some (None, out));
        (buf, out) \<leftarrow> (if buflist_out out \<noteq> [] then do {
              (_, b, bl) \<leftarrow> lws_buflist_next_segment_len (buflist_out out);
              Some (Some b, out\<lparr>buflist_out := bl\<rparr>) }
          else Some (buf, out));
        case buf of None \<Rightarrow> Some (0, out)
        | Some b \<Rightarrow> if b = [] then Some (0, out) else issue_raw_write oe flushing io b out })"


subsection \<open>Nothing is lost\<close>

definition out_inv :: "lws_out \<Rightarrow> bool" where
  "out_inv out \<longleftrightarrow> buflist_inv (buflist_out out) \<and> (buflist_out out \<noteq> [] \<longrightarrow> out_on_writable out) \<and>
     \<not> deferred_transaction_completed out"

text \<open>All that is sent or kept.\<close>

definition out_bytes :: "lws_out \<Rightarrow> u8 list" where
  "out_bytes out = out_wire out @ buflist_bytes (buflist_out out)"

lemma capable_write_cases:
  obtains (later) "io = Io_later" "lws_ssl_capable_write io buf out = (LWS_SSL_CAPABLE_MORE_SERVICE, out)"
  | (fails) "io = Io_fails" "lws_ssl_capable_write io buf out = (LWS_SSL_CAPABLE_ERROR, out)"
  | (takes) k where "io = Io_takes k"
      "lws_ssl_capable_write io buf out = (int (min k (length buf)), out\<lparr>out_wire := out_wire out @ take (min k (length buf)) buf\<rparr>)"
proof (cases io)
  case (Io_takes k)
  have "take k buf = take (min k (length buf)) buf" by (simp add: min_def)
  with Io_takes show ?thesis using takes [of k] by simp
qed (use later fails in auto)

text \<open>How many bytes of \<open>b\<close> are sent.\<close>

definition io_taken :: "out_env \<Rightarrow> io_write \<Rightarrow> u8 list \<Rightarrow> nat" where
  "io_taken oe io b = (case io of Io_takes k \<Rightarrow> min k (min (issue_raw_limit oe) (length b)) | _ \<Rightarrow> 0)"

lemma io_taken_le [simp]: "io_taken oe io b \<le> length b"
  by (cases io) (auto simp: io_taken_def)

lemma issue_raw_write_eq:
  "issue_raw_write oe flushing io b out =
     (if io = Io_fails then Some (- 1, out\<lparr>could_have_pending := True, out_unusable := True\<rparr>)
      else let m = io_taken oe io b; out = out\<lparr>out_wire := out_wire out @ take m b, could_have_pending := True\<rparr>
           in if buflist_out out \<noteq> [] then issue_raw_list oe flushing b m out else issue_raw_fresh oe b m out)"
proof -
  let ?n = "if issue_raw_limit oe > length b then length b else issue_raw_limit oe"
  have n: "?n = min (issue_raw_limit oe) (length b)" by (simp add: min_def)
  show ?thesis
    by (rule capable_write_cases [of io "take ?n b" out])
      (simp_all add: issue_raw_write_def io_taken_def n lws_has_buffered_out_def Let_def min.commute min.left_commute)
qed

lemma issue_raw_list_ok:
  assumes inv: "out_inv out" "buflist_out out = s # bl" and m: "m \<le> length (seg_bytes s)"
  obtains r out' where "issue_raw_list oe False (seg_bytes s) m out = Some (int r, out')" "out_inv out'" "out_on_writable out'"
    "out_wire out' = out_wire out" "buflist_bytes (s # bl) = take m (seg_bytes s) @ buflist_bytes (buflist_out out')"
    "length (buflist_out out') \<le> Suc (length bl)" "out_unusable out' = out_unusable out"
proof (cases "m = 0")
  case True
  with inv show ?thesis
    by (intro that [of 0 "out\<lparr>out_on_writable := True\<rparr>"]) (auto simp: issue_raw_list_def lws_has_buffered_out_def out_inv_def)
next
  case False
  have "buflist_inv (s # bl)" using inv by (simp add: out_inv_def)
  from use_segment_ok [OF this _ m] False obtain bl' where
    u: "lws_buflist_use_segment (s # bl) m = Some (case bl' of [] \<Rightarrow> 0 | s # _ \<Rightarrow> int (length (seg_bytes s)), bl')" "buflist_inv bl'"
      "seg_bytes s @ buflist_bytes bl = take m (seg_bytes s) @ buflist_bytes bl'" "length bl' \<le> Suc (length bl)" by auto
  with False inv show ?thesis
    by (intro that [of "if bl' \<noteq> [] then m else length (seg_bytes s)" "out\<lparr>buflist_out := bl', out_on_writable := True\<rparr>"])
      (auto simp: issue_raw_list_def lws_has_buffered_out_def out_inv_def)
qed

lemma issue_raw_fresh_ok:
  assumes "out_inv out" "buflist_out out = []" "m \<le> length b" "length b < 2 ^ 31" "out_mem_ok oe"
  obtains out' where "issue_raw_fresh oe b m out = Some (int (length b), out')" "out_inv out'"
    "out_wire out' = out_wire out" "buflist_bytes (buflist_out out') = drop m b" "length (buflist_out out') \<le> 1"
    "out_unusable out' = out_unusable out"
proof (cases "m = length b")
  case True
  with assms show ?thesis by (intro that [of out]) (simp_all add: issue_raw_fresh_def)
next
  case False
  then have d: "drop m b \<noteq> []" "length (drop m b) < 2 ^ 31" using assms by auto
  show ?thesis
  proof (rule append_segment_ok [OF _ d, of "[]" True])
    fix bl' assume "lws_buflist_append_segment True [] (drop m b) = Some (if [] = [] then 1 else 0, bl')"
      "buflist_inv bl'" "buflist_bytes bl' = buflist_bytes [] @ drop m b" "length bl' = Suc (length [])"
    with False assms show ?thesis
      by (intro that [of "out\<lparr>buflist_out := bl', out_on_writable := True\<rparr>"]) (simp_all add: issue_raw_fresh_def out_inv_def)
  qed simp_all
qed

text \<open>One call, while the connection is not about to be closed: all that was given is on the wire or kept, after
  what was given before.\<close>

definition given :: "u8 list option \<Rightarrow> u8 list" where
  "given buf = (case buf of None \<Rightarrow> [] | Some b \<Rightarrow> b)"

definition issue_good :: "lws_out \<Rightarrow> u8 list option \<Rightarrow> int \<times> lws_out \<Rightarrow> bool" where
  "issue_good out buf x \<longleftrightarrow> (case x of (r, out') \<Rightarrow>
     r \<ge> 0 \<and> out_inv out' \<and> out_bytes out' = out_bytes out @ given buf \<and> out_unusable out' = out_unusable out \<and>
     length (buflist_bytes (buflist_out out')) \<le> length (buflist_bytes (buflist_out out)) + length (given buf) \<and>
     length (buflist_out out') \<le> length (buflist_out out) + (case buf of None \<Rightarrow> 0 | Some _ \<Rightarrow> 1))"

text \<open>A call when the list is not empty.\<close>

lemma issue_raw_drain:
  assumes inv: "out_inv out" "buflist_out out = s # bl" and io: "io \<noteq> Io_fails"
  obtains r out' where "issue_raw_write oe False io (seg_bytes s) out = Some (int r, out')" "out_inv out'" "out_on_writable out'"
    "out_wire out' = out_wire out @ take (io_taken oe io (seg_bytes s)) (seg_bytes s)" "out_bytes out' = out_bytes out"
    "length (buflist_out out') \<le> length (buflist_out out)" "out_unusable out' = out_unusable out"
    "length (buflist_bytes (buflist_out out')) \<le> length (buflist_bytes (buflist_out out))"
proof -
  let ?m = "io_taken oe io (seg_bytes s)"
  let ?o = "out\<lparr>out_wire := out_wire out @ take ?m (seg_bytes s), could_have_pending := True\<rparr>"
  have "out_inv ?o" "buflist_out ?o = s # bl" using inv by (simp_all add: out_inv_def)
  from issue_raw_list_ok [OF this, of ?m oe] obtain r out' where
    r: "issue_raw_list oe False (seg_bytes s) ?m ?o = Some (int r, out')" "out_inv out'" "out_on_writable out'"
      "out_wire out' = out_wire ?o" "buflist_bytes (s # bl) = take ?m (seg_bytes s) @ buflist_bytes (buflist_out out')"
      "length (buflist_out out') \<le> Suc (length bl)" "out_unusable out' = out_unusable ?o" by auto
  with io inv show ?thesis by (intro that [of r out']) (simp_all add: issue_raw_write_eq Let_def out_bytes_def)
qed

lemma issue_raw_null:
  assumes inv: "out_inv out" and ne: "buflist_out out = s # bl" and bl: "buflist_inv (s # bl)"
  shows "lws_issue_raw oe flushing io None out = issue_raw_write oe flushing io (seg_bytes s) out"
proof -
  have e: "out\<lparr>buflist_out := s # bl\<rparr> = out" using ne by simp
  show ?thesis using bl ne seg_bytes_ne [of s]
    by (simp add: lws_issue_raw_def lws_has_buffered_out_def next_segment_len_ok e)
qed

lemma issue_raw_queue:
  assumes inv: "out_inv out" "buflist_out out = s # bl" and m: "out_mem_ok oe" "length (buflist_out out) < 1024"
    and b: "b \<noteq> []" "length b < 2 ^ 31"
  obtains r where "\<And>io. lws_issue_raw oe False io (Some b) out = issue_raw_write oe False io (seg_bytes s) (out\<lparr>buflist_out := s # r\<rparr>)"
    "out_inv (out\<lparr>buflist_out := s # r\<rparr>)" "buflist_bytes (s # r) = buflist_bytes (s # bl) @ b" "length r = Suc (length bl)"
proof -
  have bl: "buflist_inv (s # bl)" using inv by (simp add: out_inv_def)
  from append_segment_ok [OF bl b, of True] m(2) inv(2) obtain bl' where
    a: "lws_buflist_append_segment True (s # bl) b = Some (0, bl')" "buflist_inv bl'"
      "buflist_bytes bl' = buflist_bytes (s # bl) @ b" "length bl' = Suc (length (s # bl))" by auto
  then obtain r where r: "bl' = s # r" by (auto simp: lws_buflist_append_segment_def Let_def split: if_splits)
  let ?o = "out\<lparr>buflist_out := bl'\<rparr>"
  have o: "out_inv ?o" "buflist_out ?o = s # r" "buflist_inv (s # r)" using inv a r by (simp_all add: out_inv_def)
  have "lws_issue_raw oe False io (Some b) out = issue_raw_write oe False io (seg_bytes s) ?o" for io
  proof -
    have "lws_issue_raw oe False io (Some b) out = lws_issue_raw oe False io None ?o"
      using a inv(2) m(1) by (simp add: lws_issue_raw_def lws_has_buffered_out_def r)
    also have "\<dots> = issue_raw_write oe False io (seg_bytes s) ?o" by (rule issue_raw_null [OF o])
    finally show ?thesis .
  qed
  then show ?thesis using o a r by (intro that) auto
qed

lemma issue_raw_ok:
  assumes inv: "out_inv out" and io: "io \<noteq> Io_fails" and m: "out_mem_ok oe" "length (buflist_out out) < 1024"
    and b: "\<And>b. buf = Some b \<Longrightarrow> b \<noteq> [] \<and> length b < 2 ^ 31"
  obtains x where "lws_issue_raw oe False io buf out = Some x" "issue_good out buf x"
proof (cases "buflist_out out")
  case Nil
  show ?thesis
  proof (cases buf)
    case None
    with Nil inv show ?thesis
      by (intro that [of "(0, out)"]) (simp_all add: lws_issue_raw_def lws_has_buffered_out_def issue_good_def given_def)
  next
    case (Some b)
    let ?m = "io_taken oe io b"
    let ?o = "out\<lparr>out_wire := out_wire out @ take ?m b, could_have_pending := True\<rparr>"
    have "out_inv ?o" "buflist_out ?o = []" using inv Nil by (simp_all add: out_inv_def)
    from issue_raw_fresh_ok [OF this, of ?m b oe] m(1) Some assms(5) obtain out' where
      "issue_raw_fresh oe b ?m ?o = Some (int (length b), out')" "out_inv out'"
      "out_wire out' = out_wire ?o" "buflist_bytes (buflist_out out') = drop ?m b" "length (buflist_out out') \<le> 1"
      "out_unusable out' = out_unusable ?o" by auto
    with Some Nil io b show ?thesis
      by (intro that [of "(int (length b), out')"])
        (simp_all add: lws_issue_raw_def lws_has_buffered_out_def issue_raw_write_eq Let_def issue_good_def given_def out_bytes_def)
  qed
next
  case (Cons s bl)
  have bl: "buflist_inv (s # bl)" using inv Cons by (simp add: out_inv_def)
  show ?thesis
  proof (cases buf)
    case None
    show ?thesis
      by (rule issue_raw_drain [OF inv Cons io, of oe])
        (use None in \<open>auto simp: issue_raw_null [OF inv Cons bl] issue_good_def given_def intro!: that\<close>)
  next
    case (Some b)
    have "b \<noteq> []" "length b < 2 ^ 31" using b Some by auto
    from issue_raw_queue [OF inv Cons m this] obtain r where
      w: "lws_issue_raw oe False io (Some b) out = issue_raw_write oe False io (seg_bytes s) (out\<lparr>buflist_out := s # r\<rparr>)"
      and o: "out_inv (out\<lparr>buflist_out := s # r\<rparr>)" "buflist_bytes (s # r) = buflist_bytes (s # bl) @ b" "length r = Suc (length bl)"
      by blast
    have o2: "buflist_out (out\<lparr>buflist_out := s # r\<rparr>) = s # r" by simp
    show ?thesis
      by (rule issue_raw_drain [OF o(1) o2 io, of oe])
        (use Some o Cons w in \<open>auto simp: issue_good_def given_def out_bytes_def intro!: that\<close>)
  qed
qed

text \<open>When nothing is kept, all of the bytes are accepted.\<close>

lemma issue_raw_first:
  assumes "out_inv out" "buflist_out out = []" "io \<noteq> Io_fails" "out_mem_ok oe" "b \<noteq> []" "length b < 2 ^ 31"
  obtains out' where "lws_issue_raw oe False io (Some b) out = Some (int (length b), out')" "issue_good out (Some b) (int (length b), out')"
proof -
  have r: "lws_issue_raw oe False io (Some b) out = Some (r, out') \<Longrightarrow> r = int (length b)" for r out'
    using assms(2,3,5) by (auto simp: lws_issue_raw_def lws_has_buffered_out_def issue_raw_write_eq issue_raw_fresh_def Let_def bind_eq_Some_conv
        split: if_splits)
  have "length (buflist_out out) < 1024" using assms(2) by simp
  from issue_raw_ok [OF assms(1,3,4) this, of "Some b"] assms(5,6) obtain x where
    "lws_issue_raw oe False io (Some b) out = Some x" "issue_good out (Some b) x" by auto
  with r show ?thesis by (cases x) (auto intro: that)
qed

text \<open>When something is kept and the socket takes nothing, the bytes are queued, and the result is zero.\<close>

lemma issue_raw_later:
  assumes "out_inv out" "buflist_out out \<noteq> []" "out_mem_ok oe" "length (buflist_out out) < 1024" "b \<noteq> []" "length b < 2 ^ 31"
  obtains out' where "lws_issue_raw oe False Io_later (Some b) out = Some (0, out')" "issue_good out (Some b) (0, out')"
    "buflist_out out' \<noteq> []"
proof -
  obtain s bl where s: "buflist_out out = s # bl" using assms(2) by (cases "buflist_out out") auto
  from issue_raw_queue [OF assms(1) s assms(3-6)] obtain q where
    q: "\<And>io. lws_issue_raw oe False io (Some b) out = issue_raw_write oe False io (seg_bytes s) (out\<lparr>buflist_out := s # q\<rparr>)" by blast
  have r: "lws_issue_raw oe False Io_later (Some b) out = Some (r, out') \<Longrightarrow> r = 0 \<and> buflist_out out' \<noteq> []" for r out'
    by (auto simp: q issue_raw_write_eq issue_raw_list_def lws_has_buffered_out_def io_taken_def)
  from issue_raw_ok [OF assms(1) _ assms(3,4), of Io_later "Some b"] assms(5,6) obtain x where
    "lws_issue_raw oe False Io_later (Some b) out = Some x" "issue_good out (Some b) x" by auto
  with r show ?thesis by (cases x) (auto intro: that)
qed

text \<open>A sequence of calls, each with what the socket does.\<close>

fun issue_run :: "out_env \<Rightarrow> lws_out \<Rightarrow> (io_write \<times> u8 list option) list \<Rightarrow> lws_out option" where
  "issue_run oe out [] = Some out"
| "issue_run oe out ((io, buf) # cs) = do { (r, out) \<leftarrow> lws_issue_raw oe False io buf out; issue_run oe out cs }"

text \<open>C8: nothing that is sent is lost, repeated or reordered, however little the socket takes at a time. After any
  calls of \<open>lws_issue_raw\<close> the bytes on the wire and then those of the list are the bytes given, in their
  order, and while the list is not empty the connection has asked to be called when it is writable. No call
  is given an empty buffer, the socket does not fail, there is memory, and the segments that wait plus the
  number of calls are at most the 1024 segments that the list takes.\<close>

theorem lws_issue_raw_in_order:
  assumes "out_inv out" "out_mem_ok oe" "length (buflist_out out) + length cs \<le> 1024"
    and "\<forall>(io, buf) \<in> set cs. io \<noteq> Io_fails \<and> buf \<noteq> Some [] \<and> length (given buf) < 2 ^ 31"
  shows "\<exists>out'. issue_run oe out cs = Some out' \<and> out_inv out' \<and> out_bytes out' = out_bytes out @ concat (map (given \<circ> snd) cs)"
  using assms
proof (induction cs arbitrary: out)
  case (Cons c cs)
  obtain io buf where c: "c = (io, buf)" by (cases c)
  with Cons.prems have a: "io \<noteq> Io_fails" "length (buflist_out out) < 1024"
    "\<And>b. buf = Some b \<Longrightarrow> b \<noteq> [] \<and> length b < 2 ^ 31" by (auto simp: given_def)
  from issue_raw_ok [OF Cons.prems(1) a(1) Cons.prems(2) a(2,3)] obtain x where
    x: "lws_issue_raw oe False io buf out = Some x" "issue_good out buf x" .
  obtain r out1 where r: "x = (r, out1)" by (cases x)
  with x have o: "out_inv out1" "out_bytes out1 = out_bytes out @ given buf" "length (buflist_out out1) \<le> length (buflist_out out) + 1"
    by (auto simp: issue_good_def split: option.splits)
  have "\<exists>out'. issue_run oe out1 cs = Some out' \<and> out_inv out' \<and> out_bytes out' = out_bytes out1 @ concat (map (given \<circ> snd) cs)"
    by (rule Cons.IH) (use o Cons.prems in auto)
  with x r c o show ?case by (auto simp: comp_def)
qed simp

definition out_empty :: lws_out where
  "out_empty = \<lparr>buflist_out = [], out_wire = [], out_unusable = False, out_on_writable = False, could_have_pending = False,
     deferred_transaction_completed = False\<rparr>"

definition out_demo_env :: out_env where
  "out_demo_env = \<lparr>tx_packet_size = 0, out_rx_buffer_size = 128, out_serv_buf_size = 4096, out_mem_ok = True,
     transaction_completed = Pair False\<rparr>"

theorem lws_issue_raw_in_order_witness:
  "\<exists>out'. issue_run out_demo_env out_empty [(Io_takes 1, Some [1, 2, 3]), (Io_later, Some [4]), (Io_takes 9, None)] = Some out' \<and>
     out_inv out' \<and> out_bytes out' = [1, 2, 3, 4]"
  using lws_issue_raw_in_order [of out_empty out_demo_env "[(Io_takes 1, Some [1, 2, 3]), (Io_later, Some [4]), (Io_takes 9, None)]"]
  by (simp add: out_empty_def out_inv_def out_demo_env_def given_def out_bytes_def)


subsection \<open>Everything is sent\<close>

lemma issue_raw_progress:
  assumes inv: "out_inv out" and ne: "buflist_out out \<noteq> []" and k: "io = Io_takes k" "0 < k" "0 < issue_raw_limit oe"
  obtains r out' where "lws_issue_raw oe False io None out = Some (r, out')" "0 \<le> r" "out_inv out'" "out_on_writable out'"
    "out_bytes out' = out_bytes out" "length (buflist_bytes (buflist_out out')) < length (buflist_bytes (buflist_out out))"
    "out_unusable out' = out_unusable out"
proof -
  obtain s bl where s: "buflist_out out = s # bl" using ne by (cases "buflist_out out") auto
  then have bl: "buflist_inv (s # bl)" using inv by (simp add: out_inv_def)
  have "io \<noteq> Io_fails" using k by simp
  note drain = issue_raw_drain [OF inv s this, of oe]
  obtain r out' where
    r: "issue_raw_write oe False io (seg_bytes s) out = Some (int r, out')" "out_inv out'" "out_on_writable out'"
      "out_wire out' = out_wire out @ take (io_taken oe io (seg_bytes s)) (seg_bytes s)" "out_bytes out' = out_bytes out"
      "length (buflist_out out') \<le> length (buflist_out out)" "out_unusable out' = out_unusable out" by (rule drain)
  have "0 < length (seg_bytes s)" using seg_bytes_ne bl by simp
  then have "0 < io_taken oe io (seg_bytes s)" using k by (simp add: io_taken_def)
  moreover have "buflist_bytes (buflist_out out) = take (io_taken oe io (seg_bytes s)) (seg_bytes s) @ buflist_bytes (buflist_out out')"
    using r(4,5) by (simp add: out_bytes_def)
  then have "length (buflist_bytes (buflist_out out)) = io_taken oe io (seg_bytes s) + length (buflist_bytes (buflist_out out'))"
    by simp
  ultimately show ?thesis using r by (intro that [of "int r" out']) (simp_all add: issue_raw_null [OF inv s bl])
qed

end
