(* ===== verification/Ws_Conn.thy ===== *)
theory Ws_Conn
  imports Ws_Utf8 Output
begin

text \<open>
  The state of a websocket connection: \<open>struct _lws_websocket_related\<close> of \<open>lib/roles/ws/private.h\<close> with the
  members of \<open>struct lws\<close> that the websocket role uses, and the functions of \<open>lib/roles/ws/ops-ws.c\<close> that
  set it up and prepare a close frame. The build is the default one, without extensions.

  The user's callback is not part of the sources. What the code learns from it is in \<open>ws_env\<close>: its result and
  whether it has stopped the input, as functions of what it was told so far. What it was told is the list
  \<open>ws_events\<close> of the connection, each event with what \<open>lws_is_first_fragment\<close>, \<open>lws_is_final_fragment\<close> and
  \<open>lws_frame_is_binary\<close> answer at that moment.
\<close>

datatype lws_rx_parse_state = LWS_RXPS_NEW
  | LWS_RXPS_04_mask_1 | LWS_RXPS_04_mask_2 | LWS_RXPS_04_mask_3
  | LWS_RXPS_04_FRAME_HDR_1 | LWS_RXPS_04_FRAME_HDR_LEN
  | LWS_RXPS_04_FRAME_HDR_LEN16_2 | LWS_RXPS_04_FRAME_HDR_LEN16_1
  | LWS_RXPS_04_FRAME_HDR_LEN64_8 | LWS_RXPS_04_FRAME_HDR_LEN64_7 | LWS_RXPS_04_FRAME_HDR_LEN64_6
  | LWS_RXPS_04_FRAME_HDR_LEN64_5 | LWS_RXPS_04_FRAME_HDR_LEN64_4 | LWS_RXPS_04_FRAME_HDR_LEN64_3
  | LWS_RXPS_04_FRAME_HDR_LEN64_2 | LWS_RXPS_04_FRAME_HDR_LEN64_1
  | LWS_RXPS_07_COLLECT_FRAME_KEY_1 | LWS_RXPS_07_COLLECT_FRAME_KEY_2
  | LWS_RXPS_07_COLLECT_FRAME_KEY_3 | LWS_RXPS_07_COLLECT_FRAME_KEY_4
  | LWS_RXPS_WS_FRAME_PAYLOAD

abbreviation "LWSWSOPC_CONTINUATION \<equiv> 0 :: u8"
abbreviation "LWSWSOPC_TEXT_FRAME \<equiv> 1 :: u8"
abbreviation "LWSWSOPC_BINARY_FRAME \<equiv> 2 :: u8"
abbreviation "LWSWSOPC_CLOSE \<equiv> 8 :: u8"
abbreviation "LWSWSOPC_PING \<equiv> 9 :: u8"
abbreviation "LWSWSOPC_PONG \<equiv> 0xa :: u8"

abbreviation "LWS_CLOSE_STATUS_PROTOCOL_ERR \<equiv> 1002 :: nat"
abbreviation "LWS_CLOSE_STATUS_INVALID_PAYLOAD \<equiv> 1007 :: nat"

text \<open>The states of \<open>enum lwsi_state\<close> that a websocket connection of a server goes through.\<close>

datatype lwsi_state = LRS_PRE_WS_SERVING_ACCEPT | LRS_ESTABLISHED | LRS_WAITING_TO_SEND_CLOSE | LRS_RETURNED_CLOSE
  | LRS_AWAITING_CLOSE_ACK | LRS_FLUSHING_BEFORE_CLOSE | LRS_SHUTDOWN

datatype pending_timeout = NO_PENDING_TIMEOUT | PENDING_TIMEOUT_WS_PONG_CHECK_SEND_PING
  | PENDING_TIMEOUT_WS_PONG_CHECK_GET_PONG | PENDING_TIMEOUT_CLOSE_ACK | PENDING_TIMEOUT_CLOSE_SEND

definition LWS_PRE :: nat where
  "LWS_PRE = 16"

text \<open>What the callback is told: payload with the flags (first, final, binary) or the contents of a control frame.\<close>

datatype ws_event = LWS_CALLBACK_ESTABLISHED | LWS_CALLBACK_RECEIVE "u8 list" bool bool bool | LWS_CALLBACK_RECEIVE_PONG "u8 list"
  | LWS_CALLBACK_WS_PEER_INITIATED_CLOSE "u8 list" | LWS_CALLBACK_SERVER_WRITEABLE | LWS_CALLBACK_CLIENT_WRITEABLE

record ws_conn =
  lwsi_role_client :: bool
  hdr_parsing_completed :: bool
  lws_rx_parse_state :: lws_rx_parse_state
  lwsi_state :: lwsi_state
  wsistate_pre_close :: bool
  socket_is_permanently_unusable :: bool
  pending_timeout :: pending_timeout
  on_writable :: bool
  waiting_to_send_close_frame :: bool
  close_needs_ack :: bool
  ws_in :: lws_rx
  ws_out :: lws_out
  rx_ubuf :: "u8 list"
  ping_payload_buf :: "u8 list"
  ws_mask :: "u8 list"
  time_next_ping_check :: nat
  rx_packet_length :: u64
  rx_ubuf_head :: nat
  rx_ubuf_alloc :: nat
  ping_payload_len :: nat
  mask_idx :: nat
  ws_opcode :: u8
  ws_rsv :: u8
  rsv_first_msg :: u8
  close_in_ping_buffer_len :: nat
  ws_utf8 :: u8
  ietf_spec_revision :: nat
  ws_final :: bool
  frame_is_binary :: bool
  all_zero_nonce :: bool
  this_frame_masked :: bool
  inside_frame :: bool
  payload_is_close :: bool
  ping_pending_flag :: bool
  continuation_possible :: bool
  owed_a_fin :: bool
  check_utf8 :: bool
  defeat_check_utf8 :: bool
  send_check_ping :: bool
  first_fragment :: bool
  peer_has_sent_close :: bool
  ws_events :: "ws_event list"

text \<open>The protocol and the context of the connection. \<open>cb_result\<close> is the result of \<open>user_callback_handle_rxflow\<close>,
  \<open>cb_rxflow\<close> whether \<open>rxflow_bitmap\<close> is set, \<open>partial_buffered\<close> the result of \<open>lws_partial_buffered\<close>,
  \<open>mem_ok\<close> and \<open>setsockopt_ok\<close> whether allocations and setting the socket's buffer succeed, \<open>lws_now_secs\<close> the time.\<close>

record ws_env =
  rx_buffer_size :: nat
  pt_serv_buf_size :: nat
  opt_validate_utf8 :: bool
  has_callback :: bool
  cb_result :: "ws_event list \<Rightarrow> int"
  cb_rxflow :: "ws_event list \<Rightarrow> bool"
  partial_buffered :: "ws_event list \<Rightarrow> bool"
  mem_ok :: bool
  setsockopt_ok :: bool
  ws_ping_pong_interval :: nat
  lws_now_secs :: nat
  ws_tx_packet_size :: nat

definition lws_is_final_fragment :: "ws_conn \<Rightarrow> bool" where
  "lws_is_final_fragment w \<longleftrightarrow> ws_final w \<and> rx_packet_length w = 0"

definition lws_is_first_fragment :: "ws_conn \<Rightarrow> bool" where
  "lws_is_first_fragment w = first_fragment w"

definition lws_frame_is_binary :: "ws_conn \<Rightarrow> bool" where
  "lws_frame_is_binary w = frame_is_binary w"

definition ws_receive :: "ws_conn \<Rightarrow> u8 list \<Rightarrow> ws_event" where
  "ws_receive w bs = LWS_CALLBACK_RECEIVE bs (lws_is_first_fragment w) (lws_is_final_fragment w) (lws_frame_is_binary w)"

definition user_callback_handle_rxflow :: "ws_env \<Rightarrow> ws_event \<Rightarrow> ws_conn \<Rightarrow> int \<times> ws_conn" where
  "user_callback_handle_rxflow env ev w =
     (let es = ws_events w @ [ev] in (cb_result env es, w\<lparr>ws_events := es\<rparr>))"

definition lws_restart_ws_ping_pong_timer :: "ws_env \<Rightarrow> ws_conn \<Rightarrow> ws_conn" where
  "lws_restart_ws_ping_pong_timer env w =
     (if ws_ping_pong_interval env = 0 then w else w\<lparr>time_next_ping_check := lws_now_secs env\<rparr>)"

text \<open>The frame buffer of a connection is as large as the protocol says, with room in front for a header and at
  the end for a terminator. \<open>fresh\<close> is what the allocated memory holds.\<close>

definition lws_server_init_wsi_for_ws :: "ws_env \<Rightarrow> (nat \<Rightarrow> u8) \<Rightarrow> ws_conn \<Rightarrow> int \<times> ws_conn" where
  "lws_server_init_wsi_for_ws env fresh w =
     (let w = lws_restart_ws_ping_pong_timer env (w\<lparr>lwsi_state := LRS_ESTABLISHED\<rparr>);
          n = (if rx_buffer_size env = 0 then pt_serv_buf_size env else rx_buffer_size env) + LWS_PRE
      in if \<not> mem_ok env then (1, w)
         else let w = w\<lparr>rx_ubuf := map fresh [0..<n + 4], rx_ubuf_alloc := n\<rparr>
              in if \<not> setsockopt_ok env then (1, w)
                 else if has_callback env then
                   let es = ws_events w @ [LWS_CALLBACK_ESTABLISHED]
                   in (if cb_result env es \<noteq> 0 then 1 else 0, w\<lparr>ws_events := es\<rparr>)
                 else (0, w))"

text \<open>The loop that copies the reason, and the function that puts a close code and a reason into the buffer that
  pings and close frames share.\<close>

fun close_reason_loop :: "u8 list \<Rightarrow> nat \<Rightarrow> u8 list \<Rightarrow> (u8 list \<times> nat) option" where
  "close_reason_loop pb p [] = Some (pb, p)"
| "close_reason_loop pb p (c # buf) =
     (if p < LWS_PRE + (length pb - LWS_PRE) then do { pb \<leftarrow> wr pb p c; close_reason_loop pb (p + 1) buf } else Some (pb, p))"

definition lws_close_reason :: "nat \<Rightarrow> u8 list \<Rightarrow> ws_conn \<Rightarrow> ws_conn option" where
  "lws_close_reason status buf w =
     do { pb \<leftarrow> wr (ping_payload_buf w) LWS_PRE (of_nat (status div 256));
          pb \<leftarrow> wr pb (LWS_PRE + 1) (of_nat status);
          (pb, p) \<leftarrow> close_reason_loop pb (LWS_PRE + 2) buf;
          Some (w\<lparr>ping_payload_buf := pb, close_in_ping_buffer_len := (p - LWS_PRE) mod 256\<rparr>) }"

definition rops_close_via_role_protocol_ws :: "nat \<Rightarrow> ws_conn \<Rightarrow> (int \<times> ws_conn) option" where
  "rops_close_via_role_protocol_ws reason w =
     (if close_in_ping_buffer_len w = 0 \<and> (reason = 0 \<or> reason = 9999) then Some (0, w)
      else do {
        w \<leftarrow> (if close_in_ping_buffer_len w = 0 then
                do { pb \<leftarrow> wr (ping_payload_buf w) LWS_PRE (of_nat (reason div 256));
                     pb \<leftarrow> wr pb (LWS_PRE + 1) (of_nat reason);
                     Some (w\<lparr>ping_payload_buf := pb, close_in_ping_buffer_len := 2\<rparr>) }
              else Some w);
        Some (1, w\<lparr>lwsi_state := LRS_WAITING_TO_SEND_CLOSE, pending_timeout := PENDING_TIMEOUT_CLOSE_SEND, on_writable := True,
          waiting_to_send_close_frame := True, close_needs_ack := True\<rparr>) })"


subsection \<open>The close reason\<close>

lemma close_reason_loop_ok:
  "LWS_PRE \<le> length pb \<Longrightarrow> p \<le> length pb \<Longrightarrow>
   close_reason_loop pb p buf =
     (let n = min (length buf) (length pb - p) in Some (take p pb @ take n buf @ drop (p + n) pb, p + n))"
proof (induction pb p buf rule: close_reason_loop.induct)
  case (1 pb p)
  then show ?case by simp
next
  case (2 pb p c buf)
  show ?case
  proof (cases "p < length pb")
    case True
    then have "LWS_PRE + (length pb - LWS_PRE) = length pb" using 2 by simp
    with True 2 have "close_reason_loop pb p (c # buf) = close_reason_loop (pb[p := c]) (p + 1) buf"
      by (simp add: wr_Some)
    also have "\<dots> = (let n = min (length buf) (length pb - (p + 1)) in
        Some (take (p + 1) (pb[p := c]) @ take n buf @ drop (p + 1 + n) (pb[p := c]), p + 1 + n))"
      using 2 True by (simp add: wr_Some)
    also have "take (p + 1) (pb[p := c]) = take p pb @ [c]" using True by (simp add: take_Suc_conv_app_nth)
    also have "min (length (c # buf)) (length pb - p) = Suc (min (length buf) (length pb - (p + 1)))" using True by simp
    ultimately show ?thesis by (simp add: Let_def)
  next
    case False
    with 2 have "LWS_PRE + (length pb - LWS_PRE) = length pb" by simp
    with False 2 show ?thesis by simp
  qed
qed

end
