(* ===== verification/Ws_Rx.thy ===== *)
theory Ws_Rx
  imports Ws_Conn
begin

text \<open>
  Receiving websocket frames: \<open>lws_ws_rx_sm\<close> of \<open>lib/roles/ws/ops-ws.c\<close>, which takes one byte, and the bulk
  path of \<open>lib/roles/ws/server-ws.c\<close>, \<open>lws_ws_frame_rest_is_payload\<close> and \<open>lws_parse_ws\<close>. There is one
  definition per state or label of the C switch; a result is what the C function returns and the
  connection, and \<open>None\<close> is a failed assertion or an access outside of an array.

  Shown here is that no input, however cut, makes the receiver leave its buffers or fail to return, and
  that the protocol errors are found.
\<close>

definition ws_error :: "nat \<Rightarrow> string \<Rightarrow> ws_conn \<Rightarrow> (int \<times> ws_conn) option" where
  "ws_error status reason w = do { w \<leftarrow> lws_close_reason status (bytes_of reason) w; Some (- 1, w) }"

subsection \<open>The frame header\<close>

text \<open>The checks of the opcode, with the reason to close if there is one.\<close>

definition rx_opcode :: "ws_env \<Rightarrow> u8 \<Rightarrow> ws_conn \<Rightarrow> string option \<times> ws_conn" where
  "rx_opcode env c w =
     (let opc = ws_opcode w in
      if opc = LWSWSOPC_TEXT_FRAME \<or> opc = LWSWSOPC_BINARY_FRAME then
        let w = (if opc = LWSWSOPC_TEXT_FRAME then w\<lparr>check_utf8 := opt_validate_utf8 env\<rparr> else w\<lparr>check_utf8 := False\<rparr>)
        in if continuation_possible w then (Some ''bad cont'', w)
           else (None, w\<lparr>rsv_first_msg := c AND 0x70, frame_is_binary := (opc = LWSWSOPC_BINARY_FRAME),
                         continuation_possible := \<not> ws_final w, first_fragment := True\<rparr>)
      else if opc = LWSWSOPC_CONTINUATION then
        (if \<not> continuation_possible w then Some ''bad cont'' else None, w)
      else if opc = LWSWSOPC_CLOSE then (None, w\<lparr>ws_utf8 := 0, check_utf8 := False\<rparr>)
      else if opc \<in> {3, 4, 5, 6, 7, 0xb, 0xc, 0xd, 0xe, 0xf} then (Some ''bad opc'', w)
      else (None, w))"

definition rx_handle_first :: "ws_env \<Rightarrow> u8 \<Rightarrow> ws_conn \<Rightarrow> (int \<times> ws_conn) option" where
  "rx_handle_first env c w =
     (let w = w\<lparr>ws_opcode := c AND 0xf, ws_rsv := c AND 0x70, ws_final := bit c 7, defeat_check_utf8 := False\<rparr> in
      if ws_opcode w AND 8 \<noteq> 0 \<and> \<not> ws_final w then ws_error LWS_CLOSE_STATUS_PROTOCOL_ERR ''frag ctl'' w
      else case rx_opcode env c w of
        (Some reason, w) \<Rightarrow> ws_error LWS_CLOSE_STATUS_PROTOCOL_ERR reason w
      | (None, w) \<Rightarrow>
        if owed_a_fin w \<and> (ws_opcode w = LWSWSOPC_TEXT_FRAME \<or> ws_opcode w = LWSWSOPC_BINARY_FRAME) then
          ws_error LWS_CLOSE_STATUS_PROTOCOL_ERR ''bad fin'' w
        else
          let w = (if ws_opcode w AND 8 = 0 \<and> ws_final w then w\<lparr>continuation_possible := False, owed_a_fin := False\<rparr> else w);
              w = (if \<not> ws_final w then w\<lparr>owed_a_fin := True\<rparr> else w);
              w = w\<lparr>lws_rx_parse_state := LWS_RXPS_04_FRAME_HDR_LEN\<rparr>
          in if ws_rsv w \<noteq> 0 \<and> ws_rsv w AND NOT 0x40 \<noteq> 0 then ws_error LWS_CLOSE_STATUS_PROTOCOL_ERR ''rsv bits'' w
             else Some (0, w))"

definition rx_mask_byte :: "nat \<Rightarrow> u8 \<Rightarrow> ws_conn \<Rightarrow> ws_conn option" where
  "rx_mask_byte i c w =
     do { m \<leftarrow> wr (ws_mask w) i c;
          let w = w\<lparr>ws_mask := m\<rparr>;
          Some (if c \<noteq> 0 then w\<lparr>all_zero_nonce := False\<rparr> else w) }"

text \<open>The states that only collect one byte of the length: which bits it is, and the next state.\<close>

fun rx_len64 :: "lws_rx_parse_state \<Rightarrow> (nat \<times> lws_rx_parse_state) option" where
  "rx_len64 LWS_RXPS_04_FRAME_HDR_LEN64_7 = Some (48, LWS_RXPS_04_FRAME_HDR_LEN64_6)"
| "rx_len64 LWS_RXPS_04_FRAME_HDR_LEN64_6 = Some (40, LWS_RXPS_04_FRAME_HDR_LEN64_5)"
| "rx_len64 LWS_RXPS_04_FRAME_HDR_LEN64_5 = Some (32, LWS_RXPS_04_FRAME_HDR_LEN64_4)"
| "rx_len64 LWS_RXPS_04_FRAME_HDR_LEN64_4 = Some (24, LWS_RXPS_04_FRAME_HDR_LEN64_3)"
| "rx_len64 LWS_RXPS_04_FRAME_HDR_LEN64_3 = Some (16, LWS_RXPS_04_FRAME_HDR_LEN64_2)"
| "rx_len64 LWS_RXPS_04_FRAME_HDR_LEN64_2 = Some (8, LWS_RXPS_04_FRAME_HDR_LEN64_1)"
| "rx_len64 _ = None"

definition rx_after_len :: "ws_conn \<Rightarrow> ws_conn" where
  "rx_after_len w =
     w\<lparr>lws_rx_parse_state := if this_frame_masked w then LWS_RXPS_07_COLLECT_FRAME_KEY_1 else LWS_RXPS_WS_FRAME_PAYLOAD\<rparr>"


subsection \<open>Handing over the payload\<close>

text \<open>The UTF-8 check of text; the first component says that the connection is to be closed. \<open>n\<close> is the C variable
  of that name, which the last condition looks at.\<close>

definition rx_check_text :: "u8 list \<Rightarrow> nat \<Rightarrow> ws_conn \<Rightarrow> (bool \<times> ws_conn) option" where
  "rx_check_text token n w =
     (if check_utf8 w \<and> \<not> defeat_check_utf8 w then
        do { (r, s) \<leftarrow> lws_check_utf8 (ws_utf8 w) token;
             let w = w\<lparr>ws_utf8 := s\<rparr>;
             if r \<noteq> 0 then
               do { w \<leftarrow> lws_close_reason LWS_CLOSE_STATUS_INVALID_PAYLOAD (bytes_of ''bad utf8'') w; Some (True, w) }
             else if rx_packet_length w = 0 \<and> ws_final w \<and> ws_utf8 w \<noteq> 0 \<and> n = 0 then
               do { w \<leftarrow> lws_close_reason LWS_CLOSE_STATUS_INVALID_PAYLOAD (bytes_of ''partial utf8'') w; Some (True, w) }
             else Some (False, w) }
      else Some (False, w))"

definition rx_deliver :: "ws_env \<Rightarrow> bool \<Rightarrow> bool \<Rightarrow> ws_conn \<Rightarrow> (int \<times> ws_conn) option" where
  "rx_deliver env no_cb pong w =
     (let len = rx_ubuf_head w in
      if pong \<and> len = 0 then Some (0, w\<lparr>rx_ubuf_head := 0\<rparr>)
      else if lwsi_state w = LRS_RETURNED_CLOSE \<or> lwsi_state w = LRS_AWAITING_CLOSE_ACK then Some (0, w\<lparr>rx_ubuf_head := 0\<rparr>)
      else if len = 0 then Some (0, w\<lparr>rx_ubuf_head := 0\<rparr>)
      else do {
        token \<leftarrow> rds (rx_ubuf w) LWS_PRE len;
        (bad, w) \<leftarrow> rx_check_text token 0 w;
        if bad then Some (- 1, w)
        else if wsistate_pre_close w then Some (0, w\<lparr>rx_ubuf_head := 0\<rparr>)
        else do {
          ub \<leftarrow> wr (rx_ubuf w) (LWS_PRE + len) 0;
          let w = w\<lparr>rx_ubuf := ub\<rparr>;
          let (ret, w) = (if has_callback env \<and> \<not> no_cb
                          then user_callback_handle_rxflow env
                                 (if pong then LWS_CALLBACK_RECEIVE_PONG token else ws_receive w token) w
                          else (0, w));
          Some (ret, w\<lparr>rx_ubuf_head := 0, first_fragment := False\<rparr>) } })"

text \<open>A ping, or a close frame, whose payload is to be sent back.\<close>

definition rx_process_as_ping :: "ws_conn \<Rightarrow> (int \<times> ws_conn) option" where
  "rx_process_as_ping w =
     (if rx_ubuf_head w > 128 - 3 then Some (0, w\<lparr>rx_ubuf_head := 0\<rparr>)
      else do { pb \<leftarrow> memcpy_to (ping_payload_buf w) LWS_PRE (rx_ubuf w) LWS_PRE (rx_ubuf_head w);
                Some (0, w\<lparr>on_writable := True, ping_payload_buf := pb, rx_ubuf_head := 0, ping_payload_len := rx_ubuf_head w,
                  ping_pending_flag := True\<rparr>) })"

definition close_code_bad :: "nat \<Rightarrow> bool" where
  "close_code_bad c \<longleftrightarrow> c < 1000 \<or> c = 1004 \<or> c = 1005 \<or> c = 1006 \<or> c = 1012 \<or> c = 1013 \<or> c = 1014 \<or> c = 1015 \<or>
     (c \<ge> 1016 \<and> c < 3000)"

text \<open>A close code that must not be sent is replaced in the buffer.\<close>

definition rx_fix_close_code :: "ws_conn \<Rightarrow> ws_conn option" where
  "rx_fix_close_code w =
     (if rx_ubuf_head w \<ge> 2 then
        do { a \<leftarrow> rd (rx_ubuf w) LWS_PRE;
             b \<leftarrow> rd (rx_ubuf w) (LWS_PRE + 1);
             if close_code_bad (unat a * 256 + unat b) then
               do { ub \<leftarrow> wr (rx_ubuf w) LWS_PRE (of_nat (LWS_CLOSE_STATUS_PROTOCOL_ERR div 256));
                    ub \<leftarrow> wr ub (LWS_PRE + 1) (of_nat LWS_CLOSE_STATUS_PROTOCOL_ERR);
                    Some (w\<lparr>rx_ubuf := ub\<rparr>) }
             else Some w }
      else Some w)"

text \<open>The UTF-8 check of the reason of a close frame.\<close>

definition rx_check_reason :: "ws_env \<Rightarrow> ws_conn \<Rightarrow> (bool \<times> ws_conn) option" where
  "rx_check_reason env w =
     (if opt_validate_utf8 env \<and> rx_ubuf_head w > 2 then
        do { reason \<leftarrow> rds (rx_ubuf w) (LWS_PRE + 2) (rx_ubuf_head w - 2);
             (r, s) \<leftarrow> lws_check_utf8 (ws_utf8 w) reason;
             Some (r \<noteq> 0, w\<lparr>ws_utf8 := s\<rparr>) }
      else Some (False, w))"

definition rx_close_frame :: "ws_env \<Rightarrow> bool \<Rightarrow> ws_conn \<Rightarrow> (int \<times> ws_conn) option" where
  "rx_close_frame env no_cb w =
     (if peer_has_sent_close w then rx_deliver env no_cb False w
      else do {
        (bad, w) \<leftarrow> rx_check_reason env (w\<lparr>peer_has_sent_close := True\<rparr>);
        if bad then Some (- 1, w)
        else if lwsi_state w = LRS_AWAITING_CLOSE_ACK then Some (- 1, w)
        else if lwsi_state w = LRS_RETURNED_CLOSE then Some (- 1, w)
        else if partial_buffered env (ws_events w) then Some (- 1, w\<lparr>socket_is_permanently_unusable := True\<rparr>)
        else do {
          w \<leftarrow> rx_fix_close_code w;
          payload \<leftarrow> rds (rx_ubuf w) LWS_PRE (rx_ubuf_head w);
          let (r, w) = user_callback_handle_rxflow env (LWS_CALLBACK_WS_PEER_INITIATED_CLOSE payload) w;
          if r \<noteq> 0 then Some (- 1, w)
          else rx_process_as_ping (w\<lparr>lwsi_state := LRS_RETURNED_CLOSE, payload_is_close := True\<rparr>) } })"

definition rx_spill :: "ws_env \<Rightarrow> bool \<Rightarrow> ws_conn \<Rightarrow> (int \<times> ws_conn) option" where
  "rx_spill env no_cb w =
     (let opc = ws_opcode w in
      if opc = LWSWSOPC_CLOSE then rx_close_frame env no_cb w
      else if opc = LWSWSOPC_PING then
        if ping_pending_flag w then Some (0, w\<lparr>rx_ubuf_head := 0\<rparr>) else rx_process_as_ping w
      else if opc = LWSWSOPC_PONG then
        rx_deliver env no_cb True
          (if pending_timeout w = PENDING_TIMEOUT_WS_PONG_CHECK_GET_PONG then w\<lparr>pending_timeout := NO_PENDING_TIMEOUT\<rparr> else w)
      else if opc = LWSWSOPC_TEXT_FRAME \<or> opc = LWSWSOPC_BINARY_FRAME \<or> opc = LWSWSOPC_CONTINUATION then
        rx_deliver env no_cb False w
      else Some (- 1, w))"

text \<open>The byte of payload is stored unmasked.\<close>

definition rx_store :: "u8 \<Rightarrow> ws_conn \<Rightarrow> ws_conn option" where
  "rx_store c w =
     (if all_zero_nonce w then
        do { ub \<leftarrow> wr (rx_ubuf w) (LWS_PRE + rx_ubuf_head w) c;
             Some (w\<lparr>rx_ubuf := ub, rx_packet_length := rx_packet_length w - 1, rx_ubuf_head := add32 (rx_ubuf_head w) 1\<rparr>) }
      else
        do { m \<leftarrow> rd (ws_mask w) (mask_idx w mod 4);
             ub \<leftarrow> wr (rx_ubuf w) (LWS_PRE + rx_ubuf_head w) (c XOR m);
             Some (w\<lparr>rx_ubuf := ub, rx_packet_length := rx_packet_length w - 1, rx_ubuf_head := add32 (rx_ubuf_head w) 1,
               mask_idx := (mask_idx w + 1) mod 256\<rparr>) })"

definition rx_frame_payload :: "ws_env \<Rightarrow> bool \<Rightarrow> bool \<Rightarrow> u8 \<Rightarrow> ws_conn \<Rightarrow> (int \<times> ws_conn) option" where
  "rx_frame_payload env ignore_char no_cb c w =
     (if add32 (rx_ubuf_head w) LWS_PRE \<ge> rx_ubuf_alloc w then Some (- 1, w)
      else do {
        w \<leftarrow> (if \<not> ignore_char then rx_store c w else Some w);
        if rx_packet_length w = 0 then rx_spill env no_cb (w\<lparr>lws_rx_parse_state := LWS_RXPS_NEW\<rparr>)
        else if rx_buffer_size env = 0 \<and> rx_ubuf_head w \<noteq> pt_serv_buf_size env then Some (0, w)
        else if rx_buffer_size env \<noteq> 0 \<and> rx_ubuf_head w \<noteq> rx_buffer_size env then Some (0, w)
        else rx_spill env no_cb w })"

definition rx_hdr_len :: "ws_env \<Rightarrow> bool \<Rightarrow> u8 \<Rightarrow> ws_conn \<Rightarrow> (int \<times> ws_conn) option" where
  "rx_hdr_len env no_cb c w =
     (let w = w\<lparr>this_frame_masked := bit c 7\<rparr> in
      if c AND 0x7f = 126 then
        if ws_opcode w AND 8 \<noteq> 0 then Some (- 1, w) else Some (0, w\<lparr>lws_rx_parse_state := LWS_RXPS_04_FRAME_HDR_LEN16_2\<rparr>)
      else if c AND 0x7f = 127 then
        if ws_opcode w AND 8 \<noteq> 0 then Some (- 1, w) else Some (0, w\<lparr>lws_rx_parse_state := LWS_RXPS_04_FRAME_HDR_LEN64_8\<rparr>)
      else
        let w = w\<lparr>rx_packet_length := ucast (c AND 0x7f)\<rparr> in
        if this_frame_masked w then Some (0, w\<lparr>lws_rx_parse_state := LWS_RXPS_07_COLLECT_FRAME_KEY_1\<rparr>)
        else if rx_packet_length w \<noteq> 0 then Some (0, w\<lparr>lws_rx_parse_state := LWS_RXPS_WS_FRAME_PAYLOAD\<rparr>)
        else rx_spill env no_cb (w\<lparr>lws_rx_parse_state := LWS_RXPS_NEW\<rparr>))"

definition rx_key_4 :: "ws_env \<Rightarrow> bool \<Rightarrow> u8 \<Rightarrow> ws_conn \<Rightarrow> (int \<times> ws_conn) option" where
  "rx_key_4 env no_cb c w =
     do { w \<leftarrow> rx_mask_byte 3 c w;
          let w = w\<lparr>lws_rx_parse_state := LWS_RXPS_WS_FRAME_PAYLOAD, mask_idx := 0\<rparr>;
          if rx_packet_length w = 0 then rx_spill env no_cb (w\<lparr>lws_rx_parse_state := LWS_RXPS_NEW\<rparr>)
          else Some (0, w) }"


subsection \<open>The state machine\<close>

definition lws_ws_rx_sm :: "ws_env \<Rightarrow> bool \<Rightarrow> bool \<Rightarrow> u8 \<Rightarrow> ws_conn \<Rightarrow> (int \<times> ws_conn) option" where
  "lws_ws_rx_sm env ignore_char no_cb c w =
     (if socket_is_permanently_unusable w then Some (- 1, w)
      else case lws_rx_parse_state w of
        LWS_RXPS_NEW \<Rightarrow>
          if ietf_spec_revision w = 13 then rx_handle_first env c (w\<lparr>all_zero_nonce := True\<rparr>) else Some (0, w)
      | LWS_RXPS_04_mask_1 \<Rightarrow>
          do { w \<leftarrow> rx_mask_byte 1 c w; Some (0, w\<lparr>lws_rx_parse_state := LWS_RXPS_04_mask_2\<rparr>) }
      | LWS_RXPS_04_mask_2 \<Rightarrow>
          do { w \<leftarrow> rx_mask_byte 2 c w; Some (0, w\<lparr>lws_rx_parse_state := LWS_RXPS_04_mask_3\<rparr>) }
      | LWS_RXPS_04_mask_3 \<Rightarrow>
          do { w \<leftarrow> rx_mask_byte 3 c w; Some (0, w\<lparr>lws_rx_parse_state := LWS_RXPS_04_FRAME_HDR_1, mask_idx := 0\<rparr>) }
      | LWS_RXPS_04_FRAME_HDR_1 \<Rightarrow> rx_handle_first env c w
      | LWS_RXPS_04_FRAME_HDR_LEN \<Rightarrow> rx_hdr_len env no_cb c w
      | LWS_RXPS_04_FRAME_HDR_LEN16_2 \<Rightarrow>
          Some (0, w\<lparr>lws_rx_parse_state := LWS_RXPS_04_FRAME_HDR_LEN16_1, rx_packet_length := push_bit 8 (ucast c)\<rparr>)
      | LWS_RXPS_04_FRAME_HDR_LEN16_1 \<Rightarrow>
          Some (0, rx_after_len (w\<lparr>rx_packet_length := rx_packet_length w OR ucast c\<rparr>))
      | LWS_RXPS_04_FRAME_HDR_LEN64_8 \<Rightarrow>
          if bit c 7 then Some (- 1, w)
          else Some (0, w\<lparr>lws_rx_parse_state := LWS_RXPS_04_FRAME_HDR_LEN64_7, rx_packet_length := push_bit 56 (ucast c)\<rparr>)
      | LWS_RXPS_04_FRAME_HDR_LEN64_1 \<Rightarrow>
          Some (0, rx_after_len (w\<lparr>rx_packet_length := rx_packet_length w OR ucast c\<rparr>))
      | LWS_RXPS_07_COLLECT_FRAME_KEY_1 \<Rightarrow>
          do { w \<leftarrow> rx_mask_byte 0 c w; Some (0, w\<lparr>lws_rx_parse_state := LWS_RXPS_07_COLLECT_FRAME_KEY_2\<rparr>) }
      | LWS_RXPS_07_COLLECT_FRAME_KEY_2 \<Rightarrow>
          do { w \<leftarrow> rx_mask_byte 1 c w; Some (0, w\<lparr>lws_rx_parse_state := LWS_RXPS_07_COLLECT_FRAME_KEY_3\<rparr>) }
      | LWS_RXPS_07_COLLECT_FRAME_KEY_3 \<Rightarrow>
          do { w \<leftarrow> rx_mask_byte 2 c w; Some (0, w\<lparr>lws_rx_parse_state := LWS_RXPS_07_COLLECT_FRAME_KEY_4\<rparr>) }
      | LWS_RXPS_07_COLLECT_FRAME_KEY_4 \<Rightarrow> rx_key_4 env no_cb c w
      | LWS_RXPS_WS_FRAME_PAYLOAD \<Rightarrow> rx_frame_payload env ignore_char no_cb c w
      | st \<Rightarrow>
          (case rx_len64 st of
             None \<Rightarrow> None
           | Some (k, st') \<Rightarrow>
               Some (0, w\<lparr>lws_rx_parse_state := st', rx_packet_length := rx_packet_length w OR push_bit k (ucast c)\<rparr>)))"


subsection \<open>The bulk path\<close>

text \<open>The unrolled loop over groups of four bytes, and the loop over the rest. The results are the unmasked bytes
  and what follows them.\<close>

fun unmask_groups :: "nat \<Rightarrow> u8 list \<Rightarrow> u8 list \<Rightarrow> (u8 list \<times> u8 list) option" where
  "unmask_groups 0 msk buffer = Some ([], buffer)"
| "unmask_groups (Suc n) msk buffer =
     (case buffer of
        a # b # c # d # buffer \<Rightarrow>
          do { m0 \<leftarrow> rd msk 0; m1 \<leftarrow> rd msk 1; m2 \<leftarrow> rd msk 2; m3 \<leftarrow> rd msk 3;
               (out, buffer) \<leftarrow> unmask_groups n msk buffer;
               Some ((a XOR m0) # (b XOR m1) # (c XOR m2) # (d XOR m3) # out, buffer) }
      | _ \<Rightarrow> None)"

fun unmask_rest :: "nat \<Rightarrow> nat \<Rightarrow> u8 list \<Rightarrow> u8 list \<Rightarrow> (u8 list \<times> u8 list) option" where
  "unmask_rest n 0 msk buffer = Some ([], buffer)"
| "unmask_rest n (Suc k) msk buffer =
     (case buffer of
        a # buffer \<Rightarrow> do { m \<leftarrow> rd msk n; (out, buffer) \<leftarrow> unmask_rest (n + 1) k msk buffer; Some ((a XOR m) # out, buffer) }
      | [] \<Rightarrow> None)"

text \<open>The unmasked payload, the rest of the buffer, and the value of \<open>n\<close> when the loops are done.\<close>

definition rest_unmask :: "nat \<Rightarrow> u8 list \<Rightarrow> ws_conn \<Rightarrow> (u8 list \<times> u8 list \<times> nat \<times> ws_conn) option" where
  "rest_unmask avail buf w =
     (if all_zero_nonce w then do { token \<leftarrow> rds buf 0 avail; Some (token, drop avail buf, 0, w) }
      else do {
        m0 \<leftarrow> rd (ws_mask w) (mask_idx w mod 4);
        m1 \<leftarrow> rd (ws_mask w) ((mask_idx w + 1) mod 4);
        m2 \<leftarrow> rd (ws_mask w) ((mask_idx w + 2) mod 4);
        m3 \<leftarrow> rd (ws_mask w) ((mask_idx w + 3) mod 4);
        (out1, buf) \<leftarrow> unmask_groups (avail div 4) [m0, m1, m2, m3] buf;
        (out2, buf) \<leftarrow> unmask_rest 0 (avail mod 4) [m0, m1, m2, m3] buf;
        Some (out1 @ out2, buf, avail mod 4, w\<lparr>mask_idx := (mask_idx w + avail) mod 4\<rparr>) })"

definition rest_avail :: "ws_env \<Rightarrow> nat \<Rightarrow> ws_conn \<Rightarrow> nat" where
  "rest_avail env len w =
     (let avail = nat32 (int (if rx_buffer_size env \<noteq> 0 then rx_buffer_size env else pt_serv_buf_size env));
          avail = (if avail > unat (rx_packet_length w) then nat32 (uint (rx_packet_length w)) else avail)
      in if avail > len then nat32 (int len) else avail)"

definition lws_ws_frame_rest_is_payload :: "ws_env \<Rightarrow> u8 list \<Rightarrow> ws_conn \<Rightarrow> (int \<times> u8 list \<times> ws_conn) option" where
  "lws_ws_frame_rest_is_payload env buf w =
     (let avail = rest_avail env (length buf) w in
      if avail = 0 then Some (0, buf, w)
      else do {
        (token, buf, n, w) \<leftarrow> rest_unmask avail buf w;
        let w = w\<lparr>rx_packet_length := rx_packet_length w - of_nat avail\<rparr>;
        (bad, w) \<leftarrow> rx_check_text token n w;
        if bad then Some (- 1, buf, w)
        else
          let (r, w) = (if has_callback env \<and> \<not> wsistate_pre_close w
                        then user_callback_handle_rxflow env (ws_receive w token) w else (0, w))
          in if r \<noteq> 0 then Some (- 1, buf, w)
             else Some (int_of32 avail, buf, w\<lparr>first_fragment := False\<rparr>) })"

text \<open>The inner loop of \<open>lws_parse_ws\<close>; the last component of the result is \<open>bulk\<close>.\<close>

partial_function (option) parse_ws_bulk ::
  "ws_env \<Rightarrow> u8 list \<Rightarrow> bool \<Rightarrow> ws_conn \<Rightarrow> (int \<times> u8 list \<times> bool \<times> ws_conn) option" where
  "parse_ws_bulk env buf bulk w =
     (if lws_rx_parse_state w = LWS_RXPS_WS_FRAME_PAYLOAD \<and>
         (ws_opcode w = LWSWSOPC_TEXT_FRAME \<or> ws_opcode w = LWSWSOPC_BINARY_FRAME \<or> ws_opcode w = LWSWSOPC_CONTINUATION) \<and>
         buf \<noteq> []
      then do { let len = length buf;
                (m, buf, w) \<leftarrow> lws_ws_frame_rest_is_payload env buf w;
                if int_of32 (len - length buf) > int_of32 len then None
                else if m = 0 then Some (0, buf, True, w)
                else if m < 0 then Some (- 1, buf, True, w)
                else parse_ws_bulk env buf True w }
      else Some (0, buf, bulk, w))"

text \<open>\<open>inside\<close> says that the buffer is the first segment of the list of buffered input. The result is what the
  function returns, what it has left of the buffer, and the connection.\<close>

partial_function (option) lws_parse_ws :: "ws_env \<Rightarrow> bool \<Rightarrow> u8 list \<Rightarrow> ws_conn \<Rightarrow> (int \<times> u8 list \<times> ws_conn) option" where
  "lws_parse_ws env inside buf w =
     (if buf = [] then Some (0, [], w)
      else if cb_rxflow env (ws_events w) then
        do { (_, rx) \<leftarrow> lws_rxflow_cache (mem_ok env) inside (ws_in w) buf; Some (1, [], w\<lparr>ws_in := rx\<rparr>) }
      else do {
        (m, buf, bulk, w) \<leftarrow> parse_ws_bulk env buf False w;
        if m < 0 then Some (- 1, buf, w)
        else do {
          (m, buf, w) \<leftarrow> (if \<not> bulk
             then (case buf of [] \<Rightarrow> None | c # buf \<Rightarrow> do { (m, w) \<leftarrow> lws_ws_rx_sm env False False c w; Some (m, buf, w) })
             else do { (m, w) \<leftarrow> lws_ws_rx_sm env True True 0 w; Some (m, buf, w) });
          if m < 0 then Some (- 1, buf, w) else lws_parse_ws env inside buf w } })"

declare parse_ws_bulk.simps [code] lws_parse_ws.simps [code]



subsection \<open>Memory safety\<close>

definition ws_bufsize :: "ws_env \<Rightarrow> nat" where
  "ws_bufsize env = (if rx_buffer_size env = 0 then pt_serv_buf_size env else rx_buffer_size env)"

definition ws_inv :: "ws_env \<Rightarrow> ws_conn \<Rightarrow> bool" where
  "ws_inv env w \<longleftrightarrow>
     rx_ubuf_alloc w = ws_bufsize env + LWS_PRE \<and> rx_ubuf_alloc w < 2 ^ 31 \<and> length (rx_ubuf w) = rx_ubuf_alloc w + 4 \<and>
     rx_ubuf_head w \<le> ws_bufsize env \<and> length (ping_payload_buf w) = 128 - 3 + LWS_PRE \<and> length (ws_mask w) = 4 \<and>
     mask_idx w < 256 \<and> ws_utf8 w \<in> utf8_states"

text \<open>A result that is defined, keeps the invariant and does not touch the buffered input.\<close>

definition ws_good :: "ws_env \<Rightarrow> lws_rx \<Rightarrow> (int \<times> ws_conn) option \<Rightarrow> bool" where
  "ws_good env rx r \<longleftrightarrow> (\<exists>m w. r = Some (m, w) \<and> ws_inv env w \<and> ws_in w = rx)"

lemma ws_good_Some [simp]: "ws_good env rx (Some (m, w)) \<longleftrightarrow> ws_inv env w \<and> ws_in w = rx"
  by (simp add: ws_good_def)

lemma ws_good_if: "(b \<Longrightarrow> ws_good env rx x) \<Longrightarrow> (\<not> b \<Longrightarrow> ws_good env rx y) \<Longrightarrow> ws_good env rx (if b then x else y)"
  by simp

lemma ws_inv_init:
  assumes "lws_server_init_wsi_for_ws env fresh w = (0, w')" "ws_bufsize env + LWS_PRE < 2 ^ 31" "rx_ubuf_head w = 0"
    "length (ping_payload_buf w) = 128 - 3 + LWS_PRE" "length (ws_mask w) = 4" "mask_idx w < 256" "ws_utf8 w = 0"
  shows "ws_inv env w'"
  using assms by (auto simp: lws_server_init_wsi_for_ws_def lws_restart_ws_ping_pong_timer_def ws_inv_def ws_bufsize_def utf8_states_def Let_def split: if_splits)

lemma lws_close_reason_ok:
  assumes "ws_inv env w"
  obtains pb n where "lws_close_reason status buf w = Some (w\<lparr>ping_payload_buf := pb, close_in_ping_buffer_len := n\<rparr>)"
    "length pb = 128 - 3 + LWS_PRE"
  using assms by (auto simp: lws_close_reason_def ws_inv_def wr_Some close_reason_loop_ok LWS_PRE_def Let_def)

lemma ws_inv_ping: "ws_inv env w \<Longrightarrow> length pb = 128 - 3 + LWS_PRE \<Longrightarrow>
    ws_inv env (w\<lparr>ping_payload_buf := pb, close_in_ping_buffer_len := n\<rparr>)"
  by (simp add: ws_inv_def)

lemma ws_error_good:
  assumes "ws_inv env w"
  shows "ws_good env (ws_in w) (ws_error status reason w)"
  by (rule lws_close_reason_ok [OF assms, of status "bytes_of reason"]) (use assms in \<open>simp add: ws_error_def ws_inv_ping\<close>)

lemma ws_inv_upd:
  "ws_inv env (w\<lparr>lws_rx_parse_state := v1\<rparr>) = ws_inv env w"
  "ws_inv env (w\<lparr>ws_opcode := v2\<rparr>) = ws_inv env w"
  "ws_inv env (w\<lparr>ws_rsv := v2\<rparr>) = ws_inv env w"
  "ws_inv env (w\<lparr>rsv_first_msg := v2\<rparr>) = ws_inv env w"
  "ws_inv env (w\<lparr>ws_final := b\<rparr>) = ws_inv env w"
  "ws_inv env (w\<lparr>frame_is_binary := b\<rparr>) = ws_inv env w"
  "ws_inv env (w\<lparr>all_zero_nonce := b\<rparr>) = ws_inv env w"
  "ws_inv env (w\<lparr>this_frame_masked := b\<rparr>) = ws_inv env w"
  "ws_inv env (w\<lparr>payload_is_close := b\<rparr>) = ws_inv env w"
  "ws_inv env (w\<lparr>ping_pending_flag := b\<rparr>) = ws_inv env w"
  "ws_inv env (w\<lparr>continuation_possible := b\<rparr>) = ws_inv env w"
  "ws_inv env (w\<lparr>owed_a_fin := b\<rparr>) = ws_inv env w"
  "ws_inv env (w\<lparr>check_utf8 := b\<rparr>) = ws_inv env w"
  "ws_inv env (w\<lparr>defeat_check_utf8 := b\<rparr>) = ws_inv env w"
  "ws_inv env (w\<lparr>first_fragment := b\<rparr>) = ws_inv env w"
  "ws_inv env (w\<lparr>peer_has_sent_close := b\<rparr>) = ws_inv env w"
  "ws_inv env (w\<lparr>socket_is_permanently_unusable := b\<rparr>) = ws_inv env w"
  "ws_inv env (w\<lparr>on_writable := b\<rparr>) = ws_inv env w"
  "ws_inv env (w\<lparr>pending_timeout := t\<rparr>) = ws_inv env w"
  "ws_inv env (w\<lparr>lwsi_state := ls\<rparr>) = ws_inv env w"
  "ws_inv env (w\<lparr>ws_events := es\<rparr>) = ws_inv env w"
  "ws_inv env (w\<lparr>rx_packet_length := pl\<rparr>) = ws_inv env w"
  "ws_inv env (w\<lparr>ping_payload_len := k\<rparr>) = ws_inv env w"
  "ws_inv env (w\<lparr>ws_in := rx\<rparr>) = ws_inv env w"
  "ws_inv env w \<Longrightarrow> ws_inv env (w\<lparr>rx_ubuf_head := 0\<rparr>)"
  "ws_inv env w \<Longrightarrow> ws_inv env (w\<lparr>ws_utf8 := 0\<rparr>)"
  "ws_inv env w \<Longrightarrow> ws_inv env (w\<lparr>mask_idx := 0\<rparr>)"
  by (simp_all add: ws_inv_def utf8_states_def)

lemma rx_opcode_inv:
  "ws_inv env w \<Longrightarrow> ws_inv env (snd (rx_opcode env c w)) \<and> ws_in (snd (rx_opcode env c w)) = ws_in w"
  by (simp add: rx_opcode_def Let_def ws_inv_upd)

lemma rx_handle_first_good:
  assumes "ws_inv env w"
  shows "ws_good env (ws_in w) (rx_handle_first env c w)"
proof -
  define w1 where "w1 = w\<lparr>ws_opcode := c AND 0xf, ws_rsv := c AND 0x70, ws_final := bit c 7, defeat_check_utf8 := False\<rparr>"
  have 1: "ws_inv env w1" "ws_in w1 = ws_in w" using assms by (simp_all add: w1_def ws_inv_upd)
  obtain r w2 where 2: "rx_opcode env c w1 = (r, w2)" by force
  with rx_opcode_inv [OF 1(1), of c] 1 have w2: "ws_inv env w2" "ws_in w2 = ws_in w" by auto
  have e: "ws_good env (ws_in w) (ws_error st reason v)" if "ws_inv env v" "ws_in v = ws_in w" for st reason v
    using ws_error_good [OF that(1), of st reason] that(2) by simp
  show ?thesis
    unfolding rx_handle_first_def w1_def [symmetric] Let_def 2
    by (cases r) (auto intro!: ws_good_if e simp: 1 w2 ws_inv_upd)
qed

lemma rx_mask_byte_ok:
  assumes "ws_inv env w" "i < 4"
  obtains w' where "rx_mask_byte i c w = Some w'" "ws_inv env w'" "ws_in w' = ws_in w"
  using assms by (auto simp: rx_mask_byte_def wr_Some ws_inv_def Let_def)

lemma rx_check_text_ok:
  assumes inv: "ws_inv env w"
  obtains (bad) pb n' s where
      "rx_check_text token n w = Some (True, w\<lparr>ping_payload_buf := pb, close_in_ping_buffer_len := n', ws_utf8 := s\<rparr>)"
      "length pb = 128 - 3 + LWS_PRE" "s \<in> utf8_states" "check_utf8 w"
    | (ok) s where "rx_check_text token n w = Some (False, w\<lparr>ws_utf8 := s\<rparr>)" "s \<in> utf8_states" "\<not> check_utf8 w \<Longrightarrow> s = ws_utf8 w"
proof (cases "check_utf8 w \<and> \<not> defeat_check_utf8 w")
  case False
  with inv show ?thesis by (intro ok [of "ws_utf8 w"]) (auto simp: rx_check_text_def ws_inv_def)
next
  case True
  have u: "ws_utf8 w \<in> utf8_states" using inv by (simp add: ws_inv_def)
  obtain r s where rs: "lws_check_utf8 (ws_utf8 w) token = Some (r, s)" "s \<in> utf8_states"
    using lws_check_utf8_run [OF u, of token] utf8_run_states [OF u, of token] u by (auto split: option.splits)
  define w1 where "w1 = w\<lparr>ws_utf8 := s\<rparr>"
  have w1: "ws_inv env w1" using inv rs(2) by (simp add: w1_def ws_inv_def)
  have r: "rx_check_text token n w =
      (if r \<noteq> 0 then do { w \<leftarrow> lws_close_reason LWS_CLOSE_STATUS_INVALID_PAYLOAD (bytes_of ''bad utf8'') w1; Some (True, w) }
       else if rx_packet_length w = 0 \<and> ws_final w \<and> s \<noteq> 0 \<and> n = 0 then
         do { w \<leftarrow> lws_close_reason LWS_CLOSE_STATUS_INVALID_PAYLOAD (bytes_of ''partial utf8'') w1; Some (True, w) }
       else Some (False, w1))"
    using True rs(1) by (simp add: rx_check_text_def w1_def Let_def)
  have b: thesis if "rx_check_text token n w = do { w \<leftarrow> lws_close_reason st buf w1; Some (True, w) }" for st buf
  proof (rule lws_close_reason_ok [OF w1, of st buf])
    fix pb n' assume a: "lws_close_reason st buf w1 = Some (w1\<lparr>ping_payload_buf := pb, close_in_ping_buffer_len := n'\<rparr>)"
      "length pb = 128 - 3 + LWS_PRE"
    with that True rs(2) show thesis by (intro bad [of s n' pb]) (simp_all add: w1_def)
  qed
  show ?thesis
  proof (cases "r \<noteq> 0 \<or> rx_packet_length w = 0 \<and> ws_final w \<and> s \<noteq> 0 \<and> n = 0")
    case True
    then show ?thesis using r b by (cases "r \<noteq> 0") auto
  next
    case False
    then have "rx_check_text token n w = Some (False, w1)" using r by auto
    then show ?thesis using rs(2) True by (intro ok [of s]) (simp_all add: w1_def)
  qed
qed

lemma rx_deliver_good:
  assumes inv: "ws_inv env w"
  shows "ws_good env (ws_in w) (rx_deliver env no_cb pong w)"
proof -
  let ?t = "take (rx_ubuf_head w) (drop LWS_PRE (rx_ubuf w))"
  have m: "rds (rx_ubuf w) LWS_PRE (rx_ubuf_head w) = Some ?t" "LWS_PRE + rx_ubuf_head w < length (rx_ubuf w)"
    using inv by (simp_all add: ws_inv_def rds_Some)
  have head: "ws_good env (ws_in w) (Some (0, w\<lparr>rx_ubuf_head := 0\<rparr>))" using inv by (simp add: ws_inv_upd)
  from inv show ?thesis
  proof (cases rule: rx_check_text_ok [where token = ?t and n = 0])
    case (bad pb n' s)
    then show ?thesis using inv head by (auto simp: rx_deliver_def Let_def m ws_inv_def)
  next
    case (ok s)
    show ?thesis using inv ok head m
      by (auto simp: rx_deliver_def Let_def wr_Some user_callback_handle_rxflow_def ws_inv_def)
  qed
qed

lemma rx_process_as_ping_ok:
  assumes "ws_inv env w" "rx_ubuf_head w \<le> 125"
  shows "rx_process_as_ping w = Some (0, w\<lparr>on_writable := True,
    ping_payload_buf := take LWS_PRE (ping_payload_buf w) @ take (rx_ubuf_head w) (drop LWS_PRE (rx_ubuf w)) @
      drop (LWS_PRE + rx_ubuf_head w) (ping_payload_buf w),
    rx_ubuf_head := 0, ping_payload_len := rx_ubuf_head w, ping_pending_flag := True\<rparr>)"
  using assms by (simp add: rx_process_as_ping_def ws_inv_def memcpy_to_Some)

lemma rx_process_as_ping_good:
  assumes "ws_inv env w"
  shows "ws_good env (ws_in w) (rx_process_as_ping w)"
proof (cases "rx_ubuf_head w \<le> 125")
  case True
  with assms show ?thesis by (simp add: rx_process_as_ping_ok [OF assms(1) True]) (simp add: ws_inv_def)
next
  case False
  with assms show ?thesis by (simp add: rx_process_as_ping_def ws_inv_upd)
qed

lemma rx_fix_close_code_ok:
  assumes "ws_inv env w"
  obtains ub where "rx_fix_close_code w = Some (w\<lparr>rx_ubuf := ub\<rparr>)" "length ub = length (rx_ubuf w)"
proof (cases "rx_ubuf_head w \<ge> 2")
  case True
  then have l: "LWS_PRE < length (rx_ubuf w)" "Suc LWS_PRE < length (rx_ubuf w)" using assms by (simp_all add: ws_inv_def)
  let ?ub = "(rx_ubuf w)[LWS_PRE := of_nat (LWS_CLOSE_STATUS_PROTOCOL_ERR div 256), Suc LWS_PRE := of_nat LWS_CLOSE_STATUS_PROTOCOL_ERR]"
  have "rx_fix_close_code w = Some (w\<lparr>rx_ubuf := ?ub\<rparr>) \<or> rx_fix_close_code w = Some (w\<lparr>rx_ubuf := rx_ubuf w\<rparr>)"
    using True l by (simp add: rx_fix_close_code_def rd_Some wr_Some)
  then show ?thesis using that [of "rx_ubuf w"] that [of ?ub] by auto
next
  case False
  then show ?thesis using that [of "rx_ubuf w"] by (simp add: rx_fix_close_code_def)
qed

lemma rx_check_reason_ok:
  assumes "ws_inv env w"
  obtains bad s where "rx_check_reason env w = Some (bad, w\<lparr>ws_utf8 := s\<rparr>)" "s \<in> utf8_states"
proof (cases "opt_validate_utf8 env \<and> rx_ubuf_head w > 2")
  case True
  have u: "ws_utf8 w \<in> utf8_states" using assms by (simp add: ws_inv_def)
  let ?r = "take (rx_ubuf_head w - 2) (drop (LWS_PRE + 2) (rx_ubuf w))"
  have "rds (rx_ubuf w) (LWS_PRE + 2) (rx_ubuf_head w - 2) = Some ?r" using True assms by (auto simp: ws_inv_def rds_def LWS_PRE_def)
  moreover obtain r s where "lws_check_utf8 (ws_utf8 w) ?r = Some (r, s)" "s \<in> utf8_states"
    using lws_check_utf8_run [OF u, of ?r] utf8_run_states [OF u, of ?r] u by (auto split: option.splits)
  ultimately show ?thesis using True that [of "r \<noteq> 0" s] by (simp add: rx_check_reason_def)
next
  case False
  with assms show ?thesis using that [of False "ws_utf8 w"] by (auto simp: rx_check_reason_def ws_inv_def)
qed

lemma rx_close_frame_good:
  assumes inv: "ws_inv env w"
  shows "ws_good env (ws_in w) (rx_close_frame env no_cb w)"
proof -
  have inv1: "ws_inv env (w\<lparr>peer_has_sent_close := True\<rparr>)" using inv by (simp add: ws_inv_upd)
  from rx_check_reason_ok [OF this] obtain bad s where
    r: "rx_check_reason env (w\<lparr>peer_has_sent_close := True\<rparr>) = Some (bad, w\<lparr>peer_has_sent_close := True, ws_utf8 := s\<rparr>)" "s \<in> utf8_states" .
  define w1 where "w1 = w\<lparr>peer_has_sent_close := True, ws_utf8 := s\<rparr>"
  have w1: "ws_inv env w1" "ws_in w1 = ws_in w" using inv r(2) by (simp_all add: w1_def ws_inv_def)
  from rx_fix_close_code_ok [OF w1(1)] obtain ub where f: "rx_fix_close_code w1 = Some (w1\<lparr>rx_ubuf := ub\<rparr>)" "length ub = length (rx_ubuf w1)" .
  define w2 where "w2 = w1\<lparr>rx_ubuf := ub\<rparr>"
  have w2: "ws_inv env w2" "ws_in w2 = ws_in w" using w1 f(2) by (simp_all add: w2_def ws_inv_def)
  have p: "rds (rx_ubuf w2) LWS_PRE (rx_ubuf_head w2) = Some (take (rx_ubuf_head w2) (drop LWS_PRE (rx_ubuf w2)))"
    using w2(1) by (simp add: ws_inv_def rds_Some)
  have w3: "ws_good env (ws_in w) (rx_process_as_ping (w2\<lparr>ws_events := es, lwsi_state := LRS_RETURNED_CLOSE, payload_is_close := True\<rparr>))" for es
    using rx_process_as_ping_good [of env "w2\<lparr>ws_events := es, lwsi_state := LRS_RETURNED_CLOSE, payload_is_close := True\<rparr>"] w2
    by (simp add: ws_inv_upd)
  show ?thesis
  proof (cases "peer_has_sent_close w")
    case True
    then show ?thesis using rx_deliver_good [OF inv] by (simp add: rx_close_frame_def)
  next
    case False
    with r(1) f(1) p w1 w2 w3 show ?thesis
      by (auto simp: rx_close_frame_def w1_def [symmetric] w2_def [symmetric] user_callback_handle_rxflow_def Let_def ws_inv_upd)
  qed
qed

lemma rx_spill_good:
  assumes inv: "ws_inv env w"
  shows "ws_good env (ws_in w) (rx_spill env no_cb w)"
proof -
  have "ws_good env (ws_in w) (rx_deliver env no_cb True (w\<lparr>pending_timeout := t\<rparr>))" for t
    using rx_deliver_good [of env "w\<lparr>pending_timeout := t\<rparr>"] inv by (simp add: ws_inv_upd)
  then show ?thesis unfolding rx_spill_def Let_def
    using inv rx_close_frame_good [OF inv] rx_process_as_ping_good [OF inv] rx_deliver_good [OF inv]
    by (auto simp: ws_inv_upd)
qed

lemma rx_store_ok:
  assumes "ws_inv env w" "rx_ubuf_head w + LWS_PRE < rx_ubuf_alloc w"
  obtains w' where "rx_store c w = Some w'" "ws_inv env w'" "ws_in w' = ws_in w"
proof -
  have "LWS_PRE + rx_ubuf_head w < length (rx_ubuf w)" "mask_idx w mod 4 < length (ws_mask w)"
      "add32 (rx_ubuf_head w) 1 = rx_ubuf_head w + 1"
    using assms by (simp_all add: ws_inv_def add32_small)
  then show ?thesis using assms that by (cases "all_zero_nonce w") (auto simp: rx_store_def rd_Some wr_Some ws_inv_def)
qed

lemma rx_frame_payload_good:
  assumes inv: "ws_inv env w"
  shows "ws_good env (ws_in w) (rx_frame_payload env ignore_char no_cb c w)"
proof (cases "rx_ubuf_alloc w \<le> add32 (rx_ubuf_head w) LWS_PRE")
  case True
  with inv show ?thesis by (simp add: rx_frame_payload_def)
next
  case False
  have "add32 (rx_ubuf_head w) LWS_PRE = rx_ubuf_head w + LWS_PRE" using inv by (simp add: ws_inv_def add32_small)
  with False have lt: "rx_ubuf_head w + LWS_PRE < rx_ubuf_alloc w" by simp
  obtain w1 where w1: "(if \<not> ignore_char then rx_store c w else Some w) = Some w1" "ws_inv env w1" "ws_in w1 = ws_in w"
    by (rule rx_store_ok [OF inv lt, of c]) (cases ignore_char; use inv in auto)
  have "ws_good env (ws_in w) (rx_spill env no_cb (w1\<lparr>lws_rx_parse_state := st\<rparr>))" for st
    using rx_spill_good [of env "w1\<lparr>lws_rx_parse_state := st\<rparr>" no_cb] w1 by (simp add: ws_inv_upd)
  moreover have "ws_good env (ws_in w) (rx_spill env no_cb w1)" using rx_spill_good [OF w1(2)] w1(3) by simp
  ultimately show ?thesis using False w1 by (auto simp: rx_frame_payload_def)
qed

lemma rx_hdr_len_good:
  assumes inv: "ws_inv env w"
  shows "ws_good env (ws_in w) (rx_hdr_len env no_cb c w)"
proof -
  have "ws_good env (ws_in w) (rx_spill env no_cb
      (w\<lparr>this_frame_masked := b, rx_packet_length := l, lws_rx_parse_state := st\<rparr>))" for b l st
    using rx_spill_good [of env "w\<lparr>this_frame_masked := b, rx_packet_length := l, lws_rx_parse_state := st\<rparr>" no_cb] inv
    by (simp add: ws_inv_upd)
  then show ?thesis using inv by (auto simp: rx_hdr_len_def Let_def ws_inv_upd)
qed

lemma rx_key_4_good:
  assumes inv: "ws_inv env w"
  shows "ws_good env (ws_in w) (rx_key_4 env no_cb c w)"
proof (rule rx_mask_byte_ok [OF inv, of 3 c])
  fix w1 assume w1: "rx_mask_byte 3 c w = Some w1" "ws_inv env w1" "ws_in w1 = ws_in w"
  have "ws_good env (ws_in w) (rx_spill env no_cb (w1\<lparr>mask_idx := 0, lws_rx_parse_state := st\<rparr>))" for st
    using rx_spill_good [of env "w1\<lparr>mask_idx := 0, lws_rx_parse_state := st\<rparr>" no_cb] w1 by (simp add: ws_inv_upd)
  then show ?thesis using w1 by (auto simp: rx_key_4_def Let_def ws_inv_upd)
qed simp

lemma lws_ws_rx_sm_good:
  assumes inv: "ws_inv env w"
  shows "ws_good env (ws_in w) (lws_ws_rx_sm env ignore_char no_cb c w)"
proof -
  have m: "ws_good env (ws_in w) (do { w \<leftarrow> rx_mask_byte i c w; Some (0, f w) })"
    if "i < 4" "\<And>v. ws_inv env v \<Longrightarrow> ws_inv env (f v)" "\<And>v. ws_in (f v) = ws_in v" for i f
    by (rule rx_mask_byte_ok [OF inv that(1), of c]) (simp add: that)
  have h: "ws_good env (ws_in w) (rx_handle_first env c (w\<lparr>all_zero_nonce := True\<rparr>))"
    using rx_handle_first_good [of env "w\<lparr>all_zero_nonce := True\<rparr>" c] inv by (simp add: ws_inv_upd)
  show ?thesis using inv h
    by (cases "lws_rx_parse_state w")
      (simp_all add: lws_ws_rx_sm_def ws_inv_upd rx_after_len_def m rx_handle_first_good rx_hdr_len_good rx_key_4_good
        rx_frame_payload_good)
qed


subsection \<open>The bulk path unmasks as the protocol says\<close>

text \<open>RFC 6455: octet \<open>i\<close> of the payload is combined with octet \<open>i mod 4\<close> of the key.\<close>

fun xor_mask :: "u8 list \<Rightarrow> nat \<Rightarrow> u8 list \<Rightarrow> u8 list" where
  "xor_mask key i [] = []"
| "xor_mask key i (b # bs) = (b XOR key ! (i mod 4)) # xor_mask key (i + 1) bs"

lemma xor_mask_append: "xor_mask key i (a @ b) = xor_mask key i a @ xor_mask key (i + length a) b"
  by (induction a arbitrary: i) simp_all

lemma xor_mask_length [simp]: "length (xor_mask key i bs) = length bs"
  by (induction bs arbitrary: i) simp_all

lemma xor_mask_mod: "i mod 4 = j mod 4 \<Longrightarrow> xor_mask key i bs = xor_mask key j bs"
proof (induction bs arbitrary: i j)
  case (Cons b bs)
  from Cons.prems have "(i + 1) mod 4 = (j + 1) mod 4" by (metis mod_add_left_eq)
  from Cons.IH [OF this] Cons.prems show ?case by simp
qed simp

definition mask4 :: "u8 list \<Rightarrow> nat \<Rightarrow> u8 list" where
  "mask4 key k = [key ! (k mod 4), key ! ((k + 1) mod 4), key ! ((k + 2) mod 4), key ! ((k + 3) mod 4)]"

lemma rd_mask4: "i < 4 \<Longrightarrow> rd (mask4 key k) i = Some (key ! ((k + i) mod 4))"
  by (cases "i = 0"; cases "i = 1"; cases "i = 2"; cases "i = 3") (simp_all add: rd_def mask4_def)

lemma unmask_groups_ok:
  "4 * n \<le> length bs \<Longrightarrow> unmask_groups n (mask4 key k) bs = Some (xor_mask key k (take (4 * n) bs), drop (4 * n) bs)"
proof (induction n arbitrary: bs)
  case (Suc n)
  then have "4 \<le> length bs" by simp
  then obtain a b c d r where bs: "bs = a # b # c # d # r" by (auto simp: Suc_le_length_iff numeral_eq_Suc)
  have "xor_mask key (Suc (Suc (Suc (Suc k)))) (take (4 * n) r) = xor_mask key k (take (4 * n) r)"
    by (rule xor_mask_mod) presburger
  moreover have "4 * Suc n = Suc (Suc (Suc (Suc (4 * n))))" by simp
  ultimately show ?case using Suc by (simp add: bs rd_mask4 add.commute [of 3] del: mult_Suc_right)
qed simp

lemma unmask_rest_ok:
  "i + j \<le> 4 \<Longrightarrow> j \<le> length bs \<Longrightarrow> unmask_rest i j (mask4 key k) bs = Some (xor_mask key (k + i) (take j bs), drop j bs)"
proof (induction j arbitrary: i bs)
  case (Suc j)
  then obtain a r where "bs = a # r" by (cases bs) auto
  with Suc show ?case by (simp add: rd_mask4)
qed simp

definition ws_unmask :: "ws_conn \<Rightarrow> u8 list \<Rightarrow> u8 list" where
  "ws_unmask w bs = (if all_zero_nonce w then bs else xor_mask (ws_mask w) (mask_idx w) bs)"

lemma rest_unmask_ok:
  assumes "length (ws_mask w) = 4" "avail \<le> length buf"
  shows "rest_unmask avail buf w = Some (ws_unmask w (take avail buf), drop avail buf, if all_zero_nonce w then 0 else avail mod 4,
    w\<lparr>mask_idx := if all_zero_nonce w then mask_idx w else (mask_idx w + avail) mod 4\<rparr>)"
proof (cases "all_zero_nonce w")
  case True
  with assms show ?thesis by (simp add: rest_unmask_def ws_unmask_def rds_Some)
next
  case False
  let ?k = "mask_idx w" and ?g = "4 * (avail div 4)"
  have sum: "?g + avail mod 4 = avail" by simp
  have g: "?g \<le> length buf" using assms(2) sum by linarith
  have r: "avail mod 4 \<le> length (drop ?g buf)" unfolding length_drop using assms(2) sum by linarith
  have t: "take avail buf = take ?g buf @ take (avail mod 4) (drop ?g buf)"
    using take_add [of ?g "avail mod 4" buf] sum by simp
  have x: "xor_mask (ws_mask w) (?k + ?g) bs = xor_mask (ws_mask w) ?k bs" for bs by (rule xor_mask_mod) simp
  have "ws_unmask w (take avail buf) = xor_mask (ws_mask w) ?k (take ?g buf) @ xor_mask (ws_mask w) ?k (take (avail mod 4) (drop ?g buf))"
    using False g by (simp add: ws_unmask_def t xor_mask_append x min_absorb1)
  moreover have "drop avail buf = drop (avail mod 4) (drop ?g buf)" using sum by (simp add: add.commute)
  ultimately show ?thesis
    using False assms unmask_groups_ok [OF g, of "ws_mask w" ?k] unmask_rest_ok [OF _ r, of 0 "ws_mask w" ?k]
    by (simp add: rest_unmask_def rd_Some mask4_def)
qed


subsection \<open>Every input is parsed\<close>

lemma rest_avail_eq:
  assumes "ws_inv env w"
  shows "rest_avail env len w = min (ws_bufsize env) (min (unat (rx_packet_length w)) len)"
proof -
  have b: "ws_bufsize env < 2 ^ 31" using assms by (simp add: ws_inv_def)
  have 0: "(if rx_buffer_size env \<noteq> 0 then rx_buffer_size env else pt_serv_buf_size env) = ws_bufsize env"
    by (simp add: ws_bufsize_def)
  have 1: "nat32 (int (ws_bufsize env)) = ws_bufsize env" using b by (intro nat32_int) simp
  have 2: "nat32 (uint (rx_packet_length w)) = unat (rx_packet_length w)" if "unat (rx_packet_length w) < ws_bufsize env"
    unfolding uint_nat by (intro nat32_int) (use that b in simp)
  have 3: "nat32 (int len) = len" if "len < ws_bufsize env" using that b by (intro nat32_int) simp
  show ?thesis unfolding rest_avail_def Let_def 0 1 using 2 3 by (auto simp: min_def)
qed

lemma rest_is_payload_ok:
  assumes inv: "ws_inv env w" and a: "a = rest_avail env (length buf) w" "0 < a"
  obtains m w' where "lws_ws_frame_rest_is_payload env buf w = Some (m, drop a buf, w')" "ws_inv env w'" "ws_in w' = ws_in w"
    "m = - 1 \<or> m = int a" "lws_rx_parse_state w' = lws_rx_parse_state w" "ws_opcode w' = ws_opcode w"
proof -
  have al: "a \<le> length buf" "a < 2 ^ 31" using a rest_avail_eq [OF inv] inv by (auto simp: ws_inv_def)
  define mi where "mi = (if all_zero_nonce w then mask_idx w else (mask_idx w + a) mod 4)"
  define n where "n = (if all_zero_nonce w then 0 else a mod 4)"
  define w1 where "w1 = w\<lparr>mask_idx := mi, rx_packet_length := rx_packet_length w - of_nat a\<rparr>"
  define t where "t = ws_unmask w (take a buf)"
  have "(mask_idx w + a) mod 4 < 256" by (rule order_less_trans [of _ 4]) simp_all
  then have w1: "ws_inv env w1" "ws_in w1 = ws_in w" "lws_rx_parse_state w1 = lws_rx_parse_state w" "ws_opcode w1 = ws_opcode w"
    using inv by (simp_all add: w1_def ws_inv_def mi_def)
  have r: "rest_unmask a buf w = Some (t, drop a buf, n, w\<lparr>mask_idx := mi\<rparr>)"
    using rest_unmask_ok [of w a buf] al inv by (simp add: ws_inv_def t_def n_def mi_def)
  have step: "lws_ws_frame_rest_is_payload env buf w =
      do { (bad, w) \<leftarrow> rx_check_text t n w1;
           if bad then Some (- 1, drop a buf, w)
           else let (r, w) = (if has_callback env \<and> \<not> wsistate_pre_close w
                              then user_callback_handle_rxflow env (ws_receive w t) w else (0, w))
                in if r \<noteq> 0 then Some (- 1, drop a buf, w) else Some (int a, drop a buf, w\<lparr>first_fragment := False\<rparr>) }"
    unfolding lws_ws_frame_rest_is_payload_def a(1) [symmetric] using a(2)
    by (cases "rx_check_text t n w1") (auto simp: r int_of32_small [OF al(2)] w1_def [symmetric] Let_def split: prod.splits)
  from w1(1) show ?thesis
  proof (cases rule: rx_check_text_ok [where token = t and n = n])
    case (bad pb n' s)
    show ?thesis by (rule that, simp only: step bad(1), simp) (use bad w1 in \<open>simp_all add: ws_inv_def\<close>)
  next
    case (ok s)
    define w2 where "w2 = w1\<lparr>ws_utf8 := s\<rparr>"
    have w2: "ws_inv env w2" "ws_in w2 = ws_in w" "lws_rx_parse_state w2 = lws_rx_parse_state w" "ws_opcode w2 = ws_opcode w"
      using w1 ok(2) by (simp_all add: w2_def ws_inv_def)
    define es where "es = ws_events w2 @ [ws_receive w2 t]"
    have e: "lws_ws_frame_rest_is_payload env buf w =
        (if has_callback env \<and> \<not> wsistate_pre_close w2 then
           if cb_result env es \<noteq> 0 then Some (- 1, drop a buf, w2\<lparr>ws_events := es\<rparr>)
           else Some (int a, drop a buf, w2\<lparr>ws_events := es, first_fragment := False\<rparr>)
         else Some (int a, drop a buf, w2\<lparr>first_fragment := False\<rparr>))"
      by (simp add: step ok(1) w2_def [symmetric] user_callback_handle_rxflow_def Let_def es_def)
    consider "lws_ws_frame_rest_is_payload env buf w = Some (- 1, drop a buf, w2\<lparr>ws_events := es\<rparr>)"
      | "lws_ws_frame_rest_is_payload env buf w = Some (int a, drop a buf, w2\<lparr>ws_events := es, first_fragment := False\<rparr>)"
      | "lws_ws_frame_rest_is_payload env buf w = Some (int a, drop a buf, w2\<lparr>first_fragment := False\<rparr>)"
      using e by presburger
    then show ?thesis by cases (rule that, assumption, simp_all add: w2 ws_inv_upd)+
  qed
qed


definition ws_bulk_state :: "ws_conn \<Rightarrow> bool" where
  "ws_bulk_state w \<longleftrightarrow> lws_rx_parse_state w = LWS_RXPS_WS_FRAME_PAYLOAD \<and>
     (ws_opcode w = LWSWSOPC_TEXT_FRAME \<or> ws_opcode w = LWSWSOPC_BINARY_FRAME \<or> ws_opcode w = LWSWSOPC_CONTINUATION)"

lemma parse_ws_bulk_idle: "\<not> (ws_bulk_state w \<and> buf \<noteq> []) \<Longrightarrow> parse_ws_bulk env buf bulk w = Some (0, buf, bulk, w)"
  by (subst parse_ws_bulk.simps) (auto simp: ws_bulk_state_def)

lemma parse_ws_bulk_stuck:
  assumes "ws_bulk_state w" "buf \<noteq> []" "rest_avail env (length buf) w = 0" "length buf < 2 ^ 31"
  shows "parse_ws_bulk env buf bulk w = Some (0, buf, True, w)"
  using assms by (subst parse_ws_bulk.simps)
    (simp add: ws_bulk_state_def lws_ws_frame_rest_is_payload_def int_of32_small)

lemma parse_ws_bulk_step:
  assumes "ws_bulk_state w" "buf \<noteq> []" "length buf < 2 ^ 31" "lws_ws_frame_rest_is_payload env buf w = Some (m, drop a buf, w')"
    "0 < a" "m = - 1 \<or> m = int a"
  shows "parse_ws_bulk env buf bulk w = (if m = - 1 then Some (- 1, drop a buf, True, w') else parse_ws_bulk env (drop a buf) True w')"
  using assms by (subst parse_ws_bulk.simps) (auto simp: ws_bulk_state_def int_of32_small)

text \<open>What the inner loop does: nothing, or it finds nothing to take, or it takes a part of the buffer.\<close>

lemma parse_ws_bulk_ok:
  assumes "ws_inv env w" "length buf < 2 ^ 31"
  shows "\<exists>m buf' bulk' w'. parse_ws_bulk env buf bulk w = Some (m, buf', bulk', w') \<and> ws_inv env w' \<and> ws_in w' = ws_in w \<and>
    (\<not> (ws_bulk_state w \<and> buf \<noteq> []) \<and> m = 0 \<and> buf' = buf \<and> bulk' = bulk \<and> w' = w \<or>
     ws_bulk_state w \<and> buf \<noteq> [] \<and> rest_avail env (length buf) w = 0 \<and> m = 0 \<and> buf' = buf \<and> bulk' \<and> w' = w \<or>
     length buf' < length buf \<and> (m = 0 \<or> m = - 1) \<and> bulk')"
  using assms
proof (induction "length buf" arbitrary: buf bulk w rule: less_induct)
  case less
  let ?a = "rest_avail env (length buf) w"
  consider "\<not> (ws_bulk_state w \<and> buf \<noteq> [])" | "ws_bulk_state w" "buf \<noteq> []" "?a = 0" | "ws_bulk_state w" "buf \<noteq> []" "0 < ?a" by blast
  then show ?case
  proof cases
    case 1
    with less.prems show ?thesis by (simp add: parse_ws_bulk_idle)
  next
    case 2
    with less.prems show ?thesis by (auto simp: parse_ws_bulk_stuck)
  next
    case 3
    obtain m w1 where r: "lws_ws_frame_rest_is_payload env buf w = Some (m, drop ?a buf, w1)" "ws_inv env w1" "ws_in w1 = ws_in w"
        "m = - 1 \<or> m = int ?a" by (rule rest_is_payload_ok [OF less.prems(1) refl 3(3)])
    have lt: "length (drop ?a buf) < length buf" using 3 by simp
    note s = parse_ws_bulk_step [OF 3(1,2) less.prems(2) r(1) 3(3) r(4), of bulk]
    show ?thesis
    proof (cases "m = - 1")
      case True
      with s r lt show ?thesis by auto
    next
      case False
      from less.hyps [OF lt r(2), of True] lt less.prems(2) r(3) show ?thesis unfolding s using False by fastforce
    qed
  qed
qed

text \<open>A call that only looks at the ramifications of the bulk path tells the callback nothing.\<close>

lemma rx_deliver_quiet:
  assumes "ws_inv env w" "rx_deliver env True pong w = Some (m, w')"
  shows "lws_rx_parse_state w' = lws_rx_parse_state w \<and> ws_events w' = ws_events w"
  using assms(1)
proof (cases rule: rx_check_text_ok [where token = "take (rx_ubuf_head w) (drop LWS_PRE (rx_ubuf w))" and n = 0])
  case (bad pb n' s)
  then show ?thesis using assms
    by (auto simp: rx_deliver_def Let_def rds_def ws_inv_def bind_eq_Some split: if_splits)
next
  case (ok s)
  then show ?thesis using assms
    by (auto simp: rx_deliver_def Let_def rds_def ws_inv_def bind_eq_Some wr_def split: if_splits)
qed

lemma rx_sm_payload:
  "lws_rx_parse_state w = LWS_RXPS_WS_FRAME_PAYLOAD \<Longrightarrow> lws_ws_rx_sm env ic nc c w =
     (if socket_is_permanently_unusable w then Some (- 1, w) else rx_frame_payload env ic nc c w)"
  by (simp add: lws_ws_rx_sm_def)

lemma rx_sm_stuck:
  assumes inv: "ws_inv env w" and b: "ws_bulk_state w" and a: "rest_avail env len w = 0" "0 < len"
    and r: "lws_ws_rx_sm env True True 0 w = Some (m, w')"
  shows "m < 0 \<or> lws_rx_parse_state w' = LWS_RXPS_NEW \<and> ws_events w' = ws_events w"
proof (cases "socket_is_permanently_unusable w \<or> ws_bufsize env = 0")
  case True
  have "rx_ubuf_alloc w \<le> add32 (rx_ubuf_head w) LWS_PRE" if "ws_bufsize env = 0"
    using inv that by (simp add: ws_inv_def add32_small LWS_PRE_def)
  with True b r show ?thesis by (auto simp: rx_sm_payload ws_bulk_state_def rx_frame_payload_def split: if_splits)
next
  case False
  with a inv have p: "rx_packet_length w = 0"
    by (auto simp: rest_avail_eq min_def unat_eq_0 split: if_splits)
  let ?w = "w\<lparr>lws_rx_parse_state := LWS_RXPS_NEW\<rparr>"
  have inv': "ws_inv env ?w" using inv by (simp add: ws_inv_upd)
  from False b r have "rx_frame_payload env True True 0 w = Some (m, w')" by (simp add: rx_sm_payload ws_bulk_state_def)
  then have "m < 0 \<or> rx_deliver env True False ?w = Some (m, w')"
    using b p by (auto simp: ws_bulk_state_def rx_frame_payload_def rx_spill_def split: if_splits)
  then show ?thesis using rx_deliver_quiet [OF inv', of False] by auto
qed

lemma lws_rxflow_cache_ok:
  assumes "buflist_inv (rx_buflist rx)" "buf \<noteq> []" "length buf < 2 ^ 31"
    and "inside \<Longrightarrow> \<exists>s bl. rx_buflist rx = s # bl \<and> length buf < length (seg_bytes s)"
  shows "\<exists>r rx'. lws_rxflow_cache mem inside rx buf = Some (r, rx') \<and> buflist_inv (rx_buflist rx')"
proof (cases inside)
  case True
  with assms obtain s bl where s: "rx_buflist rx = s # bl" "length buf < length (seg_bytes s)" by blast
  with assms(1) have inv: "buflist_inv (s # bl)" by simp
  from use_segment_ok [OF inv, of "length (seg_bytes s) - length buf"] s(2) obtain bl' where
    "lws_buflist_use_segment (s # bl) (length (seg_bytes s) - length buf) = Some (case bl' of [] \<Rightarrow> 0 | s # _ \<Rightarrow> int (length (seg_bytes s)), bl')"
    "buflist_inv bl'" by auto
  then show ?thesis using True s inv by (auto simp: lws_rxflow_cache_def next_segment_len_ok)
next
  case False
  show ?thesis
    by (rule append_segment_ok [OF assms(1-3), of mem])
      (use False assms(1) in \<open>auto simp: lws_rxflow_cache_def next_segment_len_ok Let_def buflist_listed_def\<close>)
qed

definition ws_inside :: "ws_env \<Rightarrow> bool \<Rightarrow> u8 list \<Rightarrow> ws_conn \<Rightarrow> bool" where
  "ws_inside env inside buf w \<longleftrightarrow> (inside \<longrightarrow> (\<exists>s bl. rx_buflist (ws_in w) = s # bl \<and>
     (length buf < length (seg_bytes s) \<or> length buf = length (seg_bytes s) \<and> \<not> cb_rxflow env (ws_events w))))"

lemma ws_inside_shorter:
  "ws_inside env inside buf w \<Longrightarrow> ws_in w' = ws_in w \<Longrightarrow> length buf' < length buf \<Longrightarrow> ws_inside env inside buf' w'"
  by (auto simp: ws_inside_def)

text \<open>One turn of the outer loop ends the call or leaves less to do.\<close>

lemma parse_ws_step:
  assumes inv: "ws_inv env w" "buflist_inv (rx_buflist (ws_in w))" "ws_inside env inside buf w" and buf: "buf \<noteq> []" "length buf < 2 ^ 31"
  obtains (finish) m buf' w' where "lws_parse_ws env inside buf w = Some (m, buf', w')" "ws_inv env w'" "buflist_inv (rx_buflist (ws_in w'))"
      "m = - 1 \<or> m = 1 \<and> buf' = []"
      "m = 1 \<Longrightarrow> cb_rxflow env (ws_events w) \<and> (\<exists>r. lws_rxflow_cache (mem_ok env) inside (ws_in w) buf = Some (r, ws_in w'))"
    | (more) buf' w' where "lws_parse_ws env inside buf w = lws_parse_ws env inside buf' w'" "ws_inv env w'" "ws_in w' = ws_in w"
      "ws_inside env inside buf' w'" "length buf' < length buf \<or> buf' = buf \<and> \<not> ws_bulk_state w' \<and> ws_bulk_state w"
proof (cases "cb_rxflow env (ws_events w)")
  case True
  have "\<exists>s bl. rx_buflist (ws_in w) = s # bl \<and> length buf < length (seg_bytes s)" if inside
    using inv(3) that True by (auto simp: ws_inside_def)
  from lws_rxflow_cache_ok [OF inv(2) buf this, of inside "mem_ok env"] obtain r rx where
    "lws_rxflow_cache (mem_ok env) inside (ws_in w) buf = Some (r, rx)" "buflist_inv (rx_buflist rx)" by blast
  with True buf inv(1) show ?thesis by (intro finish [of 1 "[]" "w\<lparr>ws_in := rx\<rparr>"]) (simp_all add: lws_parse_ws.simps ws_inv_upd)
next
  case no_flow: False
  from parse_ws_bulk_ok [OF inv(1) buf(2), of False] obtain m buf1 bulk w1 where
    b: "parse_ws_bulk env buf False w = Some (m, buf1, bulk, w1)" "ws_inv env w1" "ws_in w1 = ws_in w" and
    c: "\<not> (ws_bulk_state w \<and> buf \<noteq> []) \<and> m = 0 \<and> buf1 = buf \<and> \<not> bulk \<and> w1 = w \<or>
     ws_bulk_state w \<and> rest_avail env (length buf) w = 0 \<and> m = 0 \<and> buf1 = buf \<and> bulk \<and> w1 = w \<or>
     length buf1 < length buf \<and> (m = 0 \<or> m = - 1) \<and> bulk" by blast
  show ?thesis
  proof (cases "m = 0")
    case False
    with c have "m = - 1" by auto
    with no_flow b buf inv show ?thesis by (intro finish [of "- 1" buf1 w1]) (simp_all add: lws_parse_ws.simps)
  next
    case m: True
    define ch1 where "ch1 = (if bulk then 0 else hd buf1)"
    define buf2 where "buf2 = (if bulk then buf1 else tl buf1)"
    from lws_ws_rx_sm_good [OF b(2), of bulk bulk ch1] obtain m2 w2 where
      r: "lws_ws_rx_sm env bulk bulk ch1 w1 = Some (m2, w2)" "ws_inv env w2" "ws_in w2 = ws_in w" using b(3) by (auto simp: ws_good_def)
    have ne: "\<not> bulk \<Longrightarrow> buf1 \<noteq> []" using c buf by auto
    have step: "lws_parse_ws env inside buf w = (if m2 < 0 then Some (- 1, buf2, w2) else lws_parse_ws env inside buf2 w2)"
      using no_flow buf b(1) m r(1) ne by (subst lws_parse_ws.simps) (cases bulk; cases buf1; simp add: ch1_def buf2_def)
    show ?thesis
    proof (cases "m2 < 0")
      case True
      with step r inv show ?thesis by (intro finish [of "- 1" buf2 w2]) simp_all
    next
      case False
      show ?thesis
      proof (cases "length buf2 < length buf")
        case True
        with step False r inv ws_inside_shorter [OF inv(3) r(3) True] show ?thesis by (intro more [of buf2 w2]) simp_all
      next
        case same: False
        have len_tl: "length (tl buf) < length buf" using buf(1) by simp
        from c same have k: "ws_bulk_state w" "rest_avail env (length buf) w = 0" "buf1 = buf" bulk "w1 = w" using len_tl by (auto simp: buf2_def)
        then have "lws_ws_rx_sm env True True 0 w = Some (m2, w2)" using r(1) by (simp add: ch1_def)
        from rx_sm_stuck [OF inv(1) k(1,2) _ this] False buf have n: "lws_rx_parse_state w2 = LWS_RXPS_NEW" "ws_events w2 = ws_events w" by auto
        have "ws_inside env inside buf w2" using inv(3) n(2) r(3) by (simp add: ws_inside_def)
        with step False r k n show ?thesis by (intro more [of buf w2]) (simp_all add: buf2_def ws_bulk_state_def)
      qed
    qed
  qed
qed


lemma parse_ws_total:
  assumes "ws_inv env w" "buflist_inv (rx_buflist (ws_in w))" "ws_inside env inside buf w" "length buf < 2 ^ 31"
  shows "\<exists>m buf' w'. lws_parse_ws env inside buf w = Some (m, buf', w') \<and> ws_inv env w' \<and> buflist_inv (rx_buflist (ws_in w')) \<and>
    (m = - 1 \<or> (m = 0 \<or> m = 1) \<and> buf' = [])"
  using assms
proof (induction "2 * length buf + of_bool (ws_bulk_state w)" arbitrary: buf w rule: less_induct)
  case less
  show ?case
  proof (cases "buf = []")
    case True
    with less.prems show ?thesis by (simp add: lws_parse_ws.simps)
  next
    case False
    from less.prems(1-3) False less.prems(4) show ?thesis
    proof (cases rule: parse_ws_step)
      case (finish m buf' w')
      then show ?thesis by auto
    next
      case (more buf' w')
      have lt: "2 * length buf' + of_bool (ws_bulk_state w') < 2 * length buf + of_bool (ws_bulk_state w)"
        using more(5) by (cases "ws_bulk_state w'"; cases "ws_bulk_state w") auto
      have "length buf' < 2 ^ 31" using more(5) less.prems(4) by auto
      with less.hyps [OF lt more(2) _ more(4)] more(3) less.prems(2) show ?thesis unfolding more(1) by simp
    qed
  qed
qed

text \<open>C5: the receiver is memory safe and always returns. From any state that keeps the invariant, for whatever
  bytes the peer sends, whatever the callback answers and however often it stops the input, \<open>lws_parse_ws\<close>
  returns; it either reports an error or has taken the whole buffer, and the invariant holds again: no
  access leaves the frame buffer, the ping buffer or the masking key, and no assertion fails. When the
  bytes come from the list of buffered input, they are its first segment and the input is not stopped
  to begin with.\<close>

theorem lws_parse_ws_safe:
  assumes "ws_inv env w" "buflist_inv (rx_buflist (ws_in w))" "length buf < 2 ^ 31"
    and "inside \<Longrightarrow> (\<exists>s bl. rx_buflist (ws_in w) = s # bl \<and> buf = seg_bytes s) \<and> \<not> cb_rxflow env (ws_events w)"
  shows "\<exists>m buf' w'. lws_parse_ws env inside buf w = Some (m, buf', w') \<and> ws_inv env w' \<and> buflist_inv (rx_buflist (ws_in w')) \<and>
    (m = - 1 \<or> (m = 0 \<or> m = 1) \<and> buf' = [])"
  by (rule parse_ws_total) (use assms in \<open>auto simp: ws_inside_def\<close>)

text \<open>A connection after the upgrade: the structure is zeroed, then the frame buffer is allocated.\<close>

definition ws_zero :: ws_conn where
  "ws_zero =
     \<lparr>lwsi_role_client = False, hdr_parsing_completed = True, lws_rx_parse_state = LWS_RXPS_NEW, lwsi_state = LRS_PRE_WS_SERVING_ACCEPT, wsistate_pre_close = False,
      socket_is_permanently_unusable = False, pending_timeout = NO_PENDING_TIMEOUT, on_writable = False,
      waiting_to_send_close_frame = False, close_needs_ack = False, ws_in = rx_empty, ws_out = out_empty, rx_ubuf = [],
      ping_payload_buf = replicate (128 - 3 + LWS_PRE) 0, ws_mask = replicate 4 0, time_next_ping_check = 0, rx_packet_length = 0, rx_ubuf_head = 0,
      rx_ubuf_alloc = 0, ping_payload_len = 0, mask_idx = 0, ws_opcode = 0, ws_rsv = 0, rsv_first_msg = 0,
      close_in_ping_buffer_len = 0, ws_utf8 = 0, ietf_spec_revision = 13, ws_final = False, frame_is_binary = False,
      all_zero_nonce = False, this_frame_masked = False, inside_frame = False, payload_is_close = False,
      ping_pending_flag = False, continuation_possible = False, owed_a_fin = False, check_utf8 = False,
      defeat_check_utf8 = False, send_check_ping = False, first_fragment = False, peer_has_sent_close = False,
      ws_events = []\<rparr>"

definition ws_demo_env :: ws_env where
  "ws_demo_env = \<lparr>rx_buffer_size = 128, pt_serv_buf_size = 4096, opt_validate_utf8 = True, has_callback = True,
     cb_result = (\<lambda>_. 0), cb_rxflow = (\<lambda>es. length es = 3), partial_buffered = (\<lambda>_. False), mem_ok = True, setsockopt_ok = True,
     ws_ping_pong_interval = 0, lws_now_secs = 0, ws_tx_packet_size = 0\<rparr>"

definition ws_start :: "ws_env \<Rightarrow> ws_conn" where
  "ws_start env = snd (lws_server_init_wsi_for_ws env (\<lambda>_. 0) ws_zero)"

lemma ws_start_inv:
  assumes "mem_ok env" "setsockopt_ok env" "cb_result env [LWS_CALLBACK_ESTABLISHED] = 0" "ws_bufsize env + LWS_PRE < 2 ^ 31"
  shows "ws_inv env (ws_start env)"
proof (rule ws_inv_init)
  show "lws_server_init_wsi_for_ws env (\<lambda>_. 0) ws_zero = (0, ws_start env)"
    using assms(1-3) by (simp add: ws_start_def lws_server_init_wsi_for_ws_def lws_restart_ws_ping_pong_timer_def Let_def ws_zero_def)
qed (use assms(4) in \<open>simp_all add: ws_zero_def LWS_PRE_def\<close>)

lemma ws_start_in [simp]: "ws_in (ws_start env) = rx_empty"
  by (simp add: ws_start_def lws_server_init_wsi_for_ws_def lws_restart_ws_ping_pong_timer_def Let_def ws_zero_def)

theorem lws_parse_ws_safe_witness:
  "\<exists>m buf' w'. lws_parse_ws ws_demo_env False [0x81, 0x83, 1, 2, 3, 4, 0x60, 0x60, 0x60, 0xff, 0xff] (ws_start ws_demo_env) = Some (m, buf', w') \<and>
     ws_inv ws_demo_env w' \<and> (m = - 1 \<or> (m = 0 \<or> m = 1) \<and> buf' = [])"
proof -
  have "ws_inv ws_demo_env (ws_start ws_demo_env)"
    by (rule ws_start_inv) (simp_all add: ws_demo_env_def ws_bufsize_def LWS_PRE_def)
  from lws_parse_ws_safe [OF this, of "[0x81, 0x83, 1, 2, 3, 4, 0x60, 0x60, 0x60, 0xff, 0xff]" False] show ?thesis
    by (auto simp: rx_empty_def)
qed

end
