(* ===== verification/Ws_Frames.thy ===== *)
theory Ws_Frames
  imports Ws_Rx
begin

text \<open>
  What the receiver is for: the frames of RFC 6455, independent of the code, and the theorem that the callback
  is told exactly the messages that were sent, whatever the fragmentation, the masking keys, the pings
  in between and the way the network cuts the bytes into buffers.
\<close>

subsection \<open>Frames and messages\<close>

record ws_frame =
  fr_fin :: bool
  fr_opcode :: u8
  fr_key :: "u8 list option"
  fr_payload :: "u8 list"

definition frame_len :: "bool \<Rightarrow> nat \<Rightarrow> u8 list" where
  "frame_len masked n =
     (let m = (if masked then 0x80 else 0) in
      if n < 126 then [of_nat n OR m]
      else if n < 65536 then [126 OR m, of_nat (n div 2 ^ 8), of_nat n]
      else [127 OR m, of_nat (n div 2 ^ 56), of_nat (n div 2 ^ 48), of_nat (n div 2 ^ 40), of_nat (n div 2 ^ 32),
            of_nat (n div 2 ^ 24), of_nat (n div 2 ^ 16), of_nat (n div 2 ^ 8), of_nat n])"

definition frame_first :: "ws_frame \<Rightarrow> u8" where
  "frame_first f = (if fr_fin f then 0x80 else 0) OR fr_opcode f"

definition frame_hdr :: "ws_frame \<Rightarrow> u8 list" where
  "frame_hdr f = frame_first f # frame_len (fr_key f \<noteq> None) (length (fr_payload f)) @ (case fr_key f of None \<Rightarrow> [] | Some k \<Rightarrow> k)"

definition frame_data :: "ws_frame \<Rightarrow> u8 list" where
  "frame_data f = (case fr_key f of None \<Rightarrow> fr_payload f | Some k \<Rightarrow> xor_mask k 0 (fr_payload f))"

definition frame_bytes :: "ws_frame \<Rightarrow> u8 list" where
  "frame_bytes f = frame_hdr f @ frame_data f"

text \<open>Frames that a peer may send: data with at least one byte, or a ping.\<close>

definition frame_ok :: "ws_frame \<Rightarrow> bool" where
  "frame_ok f \<longleftrightarrow> (case fr_key f of None \<Rightarrow> True | Some k \<Rightarrow> length k = 4) \<and> length (fr_payload f) < 2 ^ 63 \<and>
     (fr_opcode f \<in> {0, 1, 2} \<and> fr_payload f \<noteq> [] \<or> fr_opcode f = 9 \<and> fr_fin f \<and> length (fr_payload f) \<le> 125)"

text \<open>A message is whether it is binary, and its bytes. The messages that frames carry: the state is the message
  that is not complete yet.\<close>

type_synonym ws_message = "bool \<times> u8 list"

definition frame_joins :: "ws_message option \<Rightarrow> ws_frame \<Rightarrow> ws_message option" where
  "frame_joins st f =
     (case st of
        None \<Rightarrow> if fr_opcode f = 0 then None else Some (fr_opcode f = 2, fr_payload f)
      | Some (b, acc) \<Rightarrow> if fr_opcode f = 0 then Some (b, acc @ fr_payload f) else None)"

fun assemble :: "ws_message option \<Rightarrow> ws_frame list \<Rightarrow> (ws_message list \<times> ws_message option) option" where
  "assemble st [] = Some ([], st)"
| "assemble st (f # fs) =
     (if fr_opcode f = 9 then assemble st fs
      else case frame_joins st f of
        None \<Rightarrow> None
      | Some m \<Rightarrow> if fr_fin f then map_option (apfst ((#) m)) (assemble None fs) else assemble (Some m) fs)"

text \<open>The messages that a callback sees that starts anew at a first fragment and hands on at a final one; the
  second component is what it has of the message that is not complete.\<close>

definition ws_view_step :: "ws_message list \<times> u8 list \<Rightarrow> ws_event \<Rightarrow> ws_message list \<times> u8 list" where
  "ws_view_step v e =
     (case (v, e) of
        ((ms, acc), LWS_CALLBACK_RECEIVE bs first final binary) \<Rightarrow>
          let acc = (if first then [] else acc) @ bs in if final then (ms @ [(binary, acc)], []) else (ms, acc)
      | (v, _) \<Rightarrow> v)"

definition ws_view :: "ws_event list \<Rightarrow> ws_message list \<times> u8 list" where
  "ws_view es = foldl ws_view_step ([], []) es"

lemma ws_view_snoc [simp]: "ws_view (es @ [e]) = ws_view_step (ws_view es) e"
  by (simp add: ws_view_def)

text \<open>The buffers of a stream, one after the other.\<close>

fun ws_feed :: "ws_env \<Rightarrow> ws_conn \<Rightarrow> u8 list list \<Rightarrow> ws_conn option" where
  "ws_feed env w [] = Some w"
| "ws_feed env w (c # cs) = do { (m, _, w) \<leftarrow> lws_parse_ws env False c w; if m = 0 then ws_feed env w cs else None }"

text \<open>The callback accepts everything and does not stop the input.\<close>

definition ws_quiet :: "ws_env \<Rightarrow> bool" where
  "ws_quiet env \<longleftrightarrow> has_callback env \<and> (\<forall>es. cb_result env es = 0 \<and> \<not> cb_rxflow env es) \<and> 125 \<le> ws_bufsize env"

definition text_state :: "ws_env \<Rightarrow> ws_message \<Rightarrow> u8 option" where
  "text_state env m = (if opt_validate_utf8 env \<and> \<not> fst m then utf8_run 0 (snd m) else Some 0)"

text \<open>A connection between two frames, \<open>st\<close> being the message that is not complete.\<close>

definition ws_idle :: "ws_env \<Rightarrow> ws_message option \<Rightarrow> ws_conn \<Rightarrow> bool" where
  "ws_idle env st w \<longleftrightarrow> ws_inv env w \<and> lws_rx_parse_state w = LWS_RXPS_NEW \<and> ietf_spec_revision w = 13 \<and>
     \<not> socket_is_permanently_unusable w \<and> lwsi_state w = LRS_ESTABLISHED \<and> \<not> wsistate_pre_close w \<and> rx_ubuf_head w = 0 \<and>
     (case st of
        None \<Rightarrow> \<not> continuation_possible w \<and> \<not> owed_a_fin w \<and> ws_utf8 w = 0
      | Some (b, acc) \<Rightarrow> continuation_possible w \<and> owed_a_fin w \<and> frame_is_binary w = b \<and> \<not> first_fragment w \<and>
          check_utf8 w = (opt_validate_utf8 env \<and> \<not> b) \<and> snd (ws_view (ws_events w)) = acc \<and>
          text_state env (b, acc) = Some (ws_utf8 w))"


subsection \<open>Running over bytes that are not bulk payload\<close>

fun hdr_run :: "ws_env \<Rightarrow> ws_conn \<Rightarrow> u8 list \<Rightarrow> ws_conn option" where
  "hdr_run env w [] = Some w"
| "hdr_run env w (b # bs) =
     (if ws_bulk_state w then None
      else do { (m, w) \<leftarrow> lws_ws_rx_sm env False False b w; if m = 0 then hdr_run env w bs else None })"

lemma hdr_run_append: "hdr_run env w (a @ b) = do { w \<leftarrow> hdr_run env w a; hdr_run env w b }"
  by (induction a arbitrary: w) (auto split: bind_splits)

lemma parse_ws_byte:
  assumes "ws_quiet env" "\<not> ws_bulk_state w" "lws_ws_rx_sm env False False b w = Some (0, w')"
  shows "lws_parse_ws env False (b # bs) w = lws_parse_ws env False bs w'"
  using assms by (subst lws_parse_ws.simps) (simp add: ws_quiet_def parse_ws_bulk_idle)

lemma hdr_run_parse:
  "ws_quiet env \<Longrightarrow> hdr_run env w bs = Some w' \<Longrightarrow> lws_parse_ws env False (bs @ r) w = lws_parse_ws env False r w'"
proof (induction bs arbitrary: w)
  case (Cons b bs)
  then show ?case by (auto simp: bind_eq_Some parse_ws_byte split: if_splits)
qed simp

lemma lws_parse_ws_Nil [simp]: "lws_parse_ws env inside [] w = Some (0, [], w)"
  by (simp add: lws_parse_ws.simps)

lemma hdr_run_feed:
  assumes "ws_quiet env" "hdr_run env w h = Some w'" "concat cs = h @ r"
  obtains cs' where "ws_feed env w cs = ws_feed env w' cs'" "concat cs' = r" "\<forall>c \<in> set cs'. \<exists>c' \<in> set cs. length c \<le> length c'"
proof -
  have "\<exists>cs'. ws_feed env w cs = ws_feed env w' cs' \<and> concat cs' = r \<and> (\<forall>c \<in> set cs'. \<exists>c' \<in> set cs. length c \<le> length c')"
    using assms(2,3)
  proof (induction cs arbitrary: w h)
    case Nil
    then show ?case by auto
  next
    case (Cons c cs)
    show ?case
    proof (cases "length c \<le> length h")
      case True
      then obtain h' where h: "h = c @ h'" "concat cs = h' @ r"
        using Cons.prems(2) by (auto simp: append_eq_append_conv2)
      from Cons.prems(1) h obtain wc where wc: "hdr_run env w c = Some wc" "hdr_run env wc h' = Some w'"
        by (auto simp: hdr_run_append bind_eq_Some)
      from hdr_run_parse [OF assms(1) wc(1), of "[]"] have "ws_feed env w (c # cs) = ws_feed env wc cs" by simp
      with Cons.IH [OF wc(2) h(2)] show ?thesis by auto
    next
      case False
      then obtain c' where c: "c = h @ c'" "c' @ concat cs = r"
        using Cons.prems(2) by (auto simp: append_eq_append_conv2)
      from hdr_run_parse [OF assms(1) Cons.prems(1), of c'] c have "ws_feed env w (c # cs) = ws_feed env w' (c' # cs)" by simp
      with c show ?thesis by (intro exI [of _ "c' # cs"]) auto
    qed
  qed
  then show ?thesis using that by blast
qed


subsection \<open>The length\<close>

lemma byte_len7:
  assumes "n < 128"
  shows "(of_nat n OR (if b then 0x80 else 0)) AND 0x7f = (of_nat n :: u8)" "bit (of_nat n OR (if b then 0x80 else 0) :: u8) 7 = b"
proof -
  have 7: "\<not> bit n 7" using assms by (simp add: bit_iff_odd)
  have b7: "\<not> bit (of_nat n :: u8) 7" using 7 by (simp add: bit_simps)
  then show "(of_nat n OR (if b then 0x80 else 0)) AND 0x7f = (of_nat n :: u8)"
    by (subst byte_eq_iff) (auto simp: bit_simps)
  from b7 show "bit (of_nat n OR (if b then 0x80 else 0) :: u8) 7 = b" by (auto simp: bit_simps)
qed

lemma ucast_of_nat8: "n < 256 \<Longrightarrow> ucast (of_nat n :: u8) = (of_nat n :: u64)"
  by (simp add: unsigned_of_nat take_bit_nat_eq_self)

lemma of_nat64_eq_0: "n < 2 ^ 64 \<Longrightarrow> (of_nat n :: u64) = 0 \<longleftrightarrow> n = 0"
  by (auto simp: word_of_nat_eq_0_iff dest!: dvd_imp_le)

lemma bit_div_nat: "bit (n div 2 ^ k) j = bit (n::nat) (k + j)"
  by (simp flip: drop_bit_eq_div add: bit_drop_bit_eq)

lemma bit_len_byte: "bit (push_bit k (ucast (of_nat (n div 2 ^ k) :: u8)) :: u64) i \<longleftrightarrow> i < 64 \<and> k \<le> i \<and> i < k + 8 \<and> bit n i"
  unfolding bit_simps by (auto simp: bit_div_nat simp del: power_numeral)

lemma bit_high: "n < 2 ^ k \<Longrightarrow> k \<le> i \<Longrightarrow> \<not> bit (n::nat) i"
  by (metis bit_take_bit_iff not_le take_bit_nat_eq_self_iff)

lemma bit_low_byte: "bit (ucast (of_nat n :: u8) :: u64) i \<longleftrightarrow> i < 8 \<and> bit n i"
  using bit_len_byte [of 0 n i] by auto

lemma len16:
  assumes "n < 2 ^ 16"
  shows "push_bit 8 (ucast (of_nat (n div 2 ^ 8) :: u8)) OR ucast (of_nat n :: u8) = (of_nat n :: u64)"
proof (rule bit_word_eqI)
  fix i :: nat assume i: "i < LENGTH(64)"
  show "bit (push_bit 8 (ucast (of_nat (n div 2 ^ 8) :: u8)) OR ucast (of_nat n :: u8) :: u64) i = bit (of_nat n :: u64) i"
    using i bit_high [OF assms, of i] unfolding bit_or_iff bit_len_byte bit_low_byte
    by (cases "bit n i"; cases "16 \<le> i") (auto simp: bit_of_nat_iff)
qed

lemma len64:
  assumes "n < 2 ^ 63"
  shows "push_bit 56 (ucast (of_nat (n div 2 ^ 56) :: u8)) OR push_bit 48 (ucast (of_nat (n div 2 ^ 48) :: u8)) OR
    push_bit 40 (ucast (of_nat (n div 2 ^ 40) :: u8)) OR push_bit 32 (ucast (of_nat (n div 2 ^ 32) :: u8)) OR
    push_bit 24 (ucast (of_nat (n div 2 ^ 24) :: u8)) OR push_bit 16 (ucast (of_nat (n div 2 ^ 16) :: u8)) OR
    push_bit 8 (ucast (of_nat (n div 2 ^ 8) :: u8)) OR ucast (of_nat n :: u8) = (of_nat n :: u64)" (is "?l = _")
proof (rule bit_word_eqI)
  fix i :: nat assume i: "i < LENGTH(64)"
  show "bit ?l i = bit (of_nat n :: u64) i"
    using i unfolding bit_or_iff bit_len_byte bit_low_byte by (cases "bit n i") (auto simp: bit_of_nat_iff)
qed

lemma len64_top: "n < 2 ^ 63 \<Longrightarrow> \<not> bit (of_nat (n div 2 ^ 56) :: u8) 7"
  using bit_high [of n 63 63] unfolding bit_of_nat_iff bit_div_nat by simp


text \<open>The bytes of the length.\<close>

lemma hdr_run_len:
  assumes w: "lws_rx_parse_state w = LWS_RXPS_04_FRAME_HDR_LEN" "\<not> socket_is_permanently_unusable w"
    and n: "n < 2 ^ 63" "ws_opcode w AND 8 \<noteq> 0 \<longrightarrow> n \<le> 125" "n = 0 \<longrightarrow> masked"
  shows "hdr_run env w (frame_len masked n) = Some (w\<lparr>this_frame_masked := masked, rx_packet_length := of_nat n,
    lws_rx_parse_state := if masked then LWS_RXPS_07_COLLECT_FRAME_KEY_1 else LWS_RXPS_WS_FRAME_PAYLOAD\<rparr>)"
proof -
  define m where "m = (if masked then 0x80 else 0 :: u8)"
  consider "n < 126" | "126 \<le> n" "n < 65536" | "65536 \<le> n" by linarith
  then show ?thesis
  proof cases
    case 1
    have c: "(of_nat n OR m) AND 0x7f = of_nat n" "bit (of_nat n OR m) 7 = masked"
      using byte_len7 [of n masked] 1 by (simp_all add: m_def)
    have ne: "(of_nat n :: u8) \<noteq> 126" "(of_nat n :: u8) \<noteq> 127" using 1 unat8 [of n] by auto
    have z: "(of_nat n :: u64) = 0 \<longleftrightarrow> n = 0" using of_nat64_eq_0 [of n] n(1) by simp
    show ?thesis using 1 w n(3) z
      by (auto simp: frame_len_def Let_def m_def [symmetric] ws_bulk_state_def lws_ws_rx_sm_def rx_hdr_len_def c ne ucast_of_nat8)
  next
    case 2
    have c: "(126 OR m) AND 0x7f = 126" "bit (126 OR m) 7 = masked"
      using byte_len7 [of 126 masked] by (simp_all add: m_def)
    have "ws_opcode w AND 8 = 0" using 2 n(2) by auto
    with 2 w c show ?thesis
      by (simp add: frame_len_def Let_def m_def [symmetric] ws_bulk_state_def lws_ws_rx_sm_def rx_hdr_len_def rx_after_len_def
          len16 [simplified] cong: if_cong)
  next
    case 3
    have c: "(127 OR m) AND 0x7f = 127" "bit (127 OR m) 7 = masked"
      using byte_len7 [of 127 masked] by (simp_all add: m_def)
    have "ws_opcode w AND 8 = 0" using 3 n(2) by auto
    with 3 w c n(1) show ?thesis
      by (simp add: frame_len_def Let_def m_def [symmetric] ws_bulk_state_def lws_ws_rx_sm_def rx_hdr_len_def rx_after_len_def
          len64 [simplified] len64_top [simplified] or.assoc cong: if_cong)
  qed
qed


text \<open>The bytes of the key, when there is some payload.\<close>

lemma hdr_run_key:
  assumes w: "lws_rx_parse_state w = LWS_RXPS_07_COLLECT_FRAME_KEY_1" "\<not> socket_is_permanently_unusable w" "length (ws_mask w) = 4"
    "rx_packet_length w \<noteq> 0" "all_zero_nonce w" and k: "length key = 4"
  shows "hdr_run env w key = Some (w\<lparr>ws_mask := key, all_zero_nonce := (key = [0, 0, 0, 0]), mask_idx := 0,
    lws_rx_parse_state := LWS_RXPS_WS_FRAME_PAYLOAD\<rparr>)"
proof -
  obtain a b c d where key: "key = [a, b, c, d]" using k by (auto simp: length_Suc_conv numeral_eq_Suc)
  obtain m0 m1 m2 m3 where m: "ws_mask w = [m0, m1, m2, m3]" using w(3) by (auto simp: length_Suc_conv numeral_eq_Suc)
  show ?thesis using w
    by (cases "a = 0"; cases "b = 0"; cases "c = 0"; cases "d = 0")
      (simp_all add: key ws_bulk_state_def lws_ws_rx_sm_def rx_mask_byte_def rx_key_4_def m wr_def Let_def)
qed


subsection \<open>Data frames\<close>

text \<open>A connection inside of a data frame: \<open>pre\<close> is what it has of the message.\<close>

definition ws_data :: "ws_env \<Rightarrow> ws_frame \<Rightarrow> bool \<Rightarrow> ws_message list \<Rightarrow> u8 list \<Rightarrow> ws_conn \<Rightarrow> bool" where
  "ws_data env f b ms pre w \<longleftrightarrow> ws_inv env w \<and> ietf_spec_revision w = 13 \<and> \<not> socket_is_permanently_unusable w \<and>
     lwsi_state w = LRS_ESTABLISHED \<and> \<not> wsistate_pre_close w \<and> rx_ubuf_head w = 0 \<and> ws_opcode w = fr_opcode f \<and>
     ws_final w = fr_fin f \<and> \<not> defeat_check_utf8 w \<and> continuation_possible w = (\<not> fr_fin f) \<and> owed_a_fin w = (\<not> fr_fin f) \<and>
     frame_is_binary w = b \<and> check_utf8 w = (opt_validate_utf8 env \<and> \<not> b) \<and> fst (ws_view (ws_events w)) = ms \<and>
     (if first_fragment w then [] else snd (ws_view (ws_events w))) = pre \<and> text_state env (b, pre) = Some (ws_utf8 w)"

lemma frame_first_bits:
  assumes "fr_opcode f \<in> {0, 1, 2, 9}"
  shows "frame_first f AND 0xf = fr_opcode f" "frame_first f AND 0x70 = 0" "bit (frame_first f) 7 = fr_fin f"
  using assms by (auto simp: frame_first_def)

lemma rx_sm_new:
  "lws_rx_parse_state w = LWS_RXPS_NEW \<Longrightarrow> ietf_spec_revision w = 13 \<Longrightarrow> \<not> socket_is_permanently_unusable w \<Longrightarrow>
   lws_ws_rx_sm env ic nc c w = rx_handle_first env c (w\<lparr>all_zero_nonce := True\<rparr>)"
  by (simp add: lws_ws_rx_sm_def)

lemma data_first:
  assumes idle: "ws_idle env st w" and f: "fr_opcode f \<in> {0, 1, 2}" and j: "frame_joins st f = Some (b, pre @ fr_payload f)"
  obtains w1 where "lws_ws_rx_sm env False False (frame_first f) w = Some (0, w1)" "lws_rx_parse_state w1 = LWS_RXPS_04_FRAME_HDR_LEN"
    "all_zero_nonce w1" "ws_data env f b (fst (ws_view (ws_events w))) pre w1"
proof -
  have bits: "frame_first f AND 0xf = fr_opcode f" "frame_first f AND 0x70 = 0" "bit (frame_first f) 7 = fr_fin f"
    using frame_first_bits [of f] f by auto
  have data: "fr_opcode f = 1 \<or> fr_opcode f = 2" if "fr_opcode f \<noteq> 0" using f that by auto
  have inv: "ws_inv env w" and st: "lws_rx_parse_state w = LWS_RXPS_NEW" "ietf_spec_revision w = 13" "\<not> socket_is_permanently_unusable w"
    "lwsi_state w = LRS_ESTABLISHED" "\<not> wsistate_pre_close w" "rx_ubuf_head w = 0" using idle by (auto simp: ws_idle_def)
  show ?thesis
  proof (cases st)
    case None
    then have c: "fr_opcode f \<noteq> 0" "b = (fr_opcode f = 2)" "pre = []" using j by (auto simp: frame_joins_def split: if_splits)
    have i: "\<not> continuation_possible w" "\<not> owed_a_fin w" "ws_utf8 w = 0" using idle None by (auto simp: ws_idle_def)
    define w1 where "w1 = w\<lparr>all_zero_nonce := True, ws_opcode := fr_opcode f, ws_rsv := 0, ws_final := fr_fin f, defeat_check_utf8 := False,
      check_utf8 := opt_validate_utf8 env \<and> \<not> b, rsv_first_msg := 0, frame_is_binary := b, continuation_possible := \<not> fr_fin f,
      first_fragment := True, owed_a_fin := \<not> fr_fin f, lws_rx_parse_state := LWS_RXPS_04_FRAME_HDR_LEN\<rparr>"
    have "lws_ws_rx_sm env False False (frame_first f) w = Some (0, w1)"
      using i st c(1) data [OF c(1)] by (elim disjE; cases "fr_fin f")
        (simp_all add: rx_sm_new rx_handle_first_def Let_def bits rx_opcode_def w1_def c)
    moreover have "ws_data env f b (fst (ws_view (ws_events w))) pre w1"
      using inv st c i by (simp add: ws_data_def w1_def ws_inv_upd text_state_def)
    ultimately show ?thesis by (intro that [of w1]) (simp_all add: w1_def)
  next
    case (Some m)
    obtain b' acc where m: "m = (b', acc)" by (cases m)
    then have c: "fr_opcode f = 0" "b' = b" "pre = acc" using j Some by (auto simp: frame_joins_def split: if_splits)
    have i: "continuation_possible w" "owed_a_fin w" "frame_is_binary w = b" "\<not> first_fragment w" "check_utf8 w = (opt_validate_utf8 env \<and> \<not> b)"
      "snd (ws_view (ws_events w)) = pre" "text_state env (b, pre) = Some (ws_utf8 w)" using idle Some m c by (auto simp: ws_idle_def)
    define w1 where "w1 = w\<lparr>all_zero_nonce := True, ws_opcode := 0, ws_rsv := 0, ws_final := fr_fin f, defeat_check_utf8 := False,
      continuation_possible := \<not> fr_fin f, owed_a_fin := \<not> fr_fin f, lws_rx_parse_state := LWS_RXPS_04_FRAME_HDR_LEN\<rparr>"
    have "w\<lparr>all_zero_nonce := True, ws_opcode := 0, ws_rsv := 0, ws_final := False, defeat_check_utf8 := False, owed_a_fin := True,
        lws_rx_parse_state := LWS_RXPS_04_FRAME_HDR_LEN\<rparr> = w1" if "\<not> fr_fin f" using that i by (simp add: w1_def)
    then have "lws_ws_rx_sm env False False (frame_first f) w = Some (0, w1)"
      using c i st by (cases "fr_fin f") (simp_all add: rx_sm_new rx_handle_first_def Let_def bits rx_opcode_def w1_def)
    moreover have "ws_data env f b (fst (ws_view (ws_events w))) pre w1"
      using inv st c i by (simp add: ws_data_def w1_def ws_inv_upd)
    ultimately show ?thesis by (intro that [of w1]) (simp_all add: w1_def)
  qed
qed


text \<open>Inside of the payload: \<open>i\<close> bytes of it are taken.\<close>

definition ws_key :: "ws_frame \<Rightarrow> nat \<Rightarrow> ws_conn \<Rightarrow> bool" where
  "ws_key f i w \<longleftrightarrow>
     (case fr_key f of
        None \<Rightarrow> all_zero_nonce w
      | Some k \<Rightarrow> ws_mask w = k \<and> all_zero_nonce w = (k = [0, 0, 0, 0]) \<and> (\<not> all_zero_nonce w \<longrightarrow> mask_idx w mod 4 = i mod 4))"

definition ws_pay :: "ws_env \<Rightarrow> ws_frame \<Rightarrow> bool \<Rightarrow> ws_message list \<Rightarrow> u8 list \<Rightarrow> nat \<Rightarrow> ws_conn \<Rightarrow> bool" where
  "ws_pay env f b ms pre i w \<longleftrightarrow> ws_data env f b ms (pre @ take i (fr_payload f)) w \<and> lws_rx_parse_state w = LWS_RXPS_WS_FRAME_PAYLOAD \<and>
     i \<le> length (fr_payload f) \<and> rx_packet_length w = of_nat (length (fr_payload f) - i) \<and> ws_key f i w"

lemma xor_mask_zero: "xor_mask [0, 0, 0, 0] i bs = bs"
proof (induction bs arbitrary: i)
  case (Cons b bs)
  have "i mod 4 < 4" by simp
  then have "i mod 4 = 0 \<or> i mod 4 = 1 \<or> i mod 4 = 2 \<or> i mod 4 = 3" by linarith
  then have "[0, 0, 0, 0 :: u8] ! (i mod 4) = 0" by auto
  with Cons show ?case by simp
qed simp

lemma ws_key_unmask: "ws_key f i w \<Longrightarrow> ws_unmask w bs = (case fr_key f of None \<Rightarrow> bs | Some k \<Rightarrow> xor_mask k i bs)"
  by (auto simp: ws_key_def ws_unmask_def xor_mask_zero intro: xor_mask_mod split: option.splits)

lemma xor_mask_self: "xor_mask k i (xor_mask k i bs) = bs"
  by (induction bs arbitrary: i) (simp_all add: xor.assoc)

lemma data_hdr:
  assumes idle: "ws_idle env st w" and f: "frame_ok f" "fr_opcode f \<in> {0, 1, 2}" and j: "frame_joins st f = Some (b, pre @ fr_payload f)"
  obtains w2 where "hdr_run env w (frame_hdr f) = Some w2" "ws_pay env f b (fst (ws_view (ws_events w))) pre 0 w2"
proof -
  from data_first [OF idle f(2) j] obtain w1 where
    w1: "lws_ws_rx_sm env False False (frame_first f) w = Some (0, w1)" "lws_rx_parse_state w1 = LWS_RXPS_04_FRAME_HDR_LEN"
      "all_zero_nonce w1" "ws_data env f b (fst (ws_view (ws_events w))) pre w1" .
  let ?n = "length (fr_payload f)" and ?m = "fr_key f \<noteq> None"
  have n: "?n < 2 ^ 63" "?n \<noteq> 0" "ws_opcode w1 AND 8 = 0" using f w1(4) by (auto simp: frame_ok_def ws_data_def)
  have nb: "\<not> ws_bulk_state w" using idle by (simp add: ws_idle_def ws_bulk_state_def)
  have un: "\<not> socket_is_permanently_unusable w1" "length (ws_mask w1) = 4" using w1(4) by (simp_all add: ws_data_def ws_inv_def)
  define w1' where "w1' = w1\<lparr>this_frame_masked := ?m, rx_packet_length := of_nat ?n,
    lws_rx_parse_state := if ?m then LWS_RXPS_07_COLLECT_FRAME_KEY_1 else LWS_RXPS_WS_FRAME_PAYLOAD\<rparr>"
  have l: "hdr_run env w1 (frame_len ?m ?n) = Some w1'"
    unfolding w1'_def by (rule hdr_run_len) (use w1(2) un n in auto)
  have start: "hdr_run env w (frame_hdr f) = hdr_run env w1' (case fr_key f of None \<Rightarrow> [] | Some k \<Rightarrow> k)"
    using nb w1(1) l by (simp add: frame_hdr_def hdr_run_append)
  show ?thesis
  proof (cases "fr_key f")
    case None
    then have "ws_pay env f b (fst (ws_view (ws_events w))) pre 0 w1'"
      using w1 by (auto simp: w1'_def ws_pay_def ws_data_def ws_key_def ws_inv_upd)
    then show ?thesis using start None that by simp
  next
    case (Some k)
    have k: "length k = 4" using f(1) Some by (simp add: frame_ok_def)
    have "(of_nat ?n :: u64) \<noteq> 0" using of_nat64_eq_0 [of ?n] n by simp
    then have "hdr_run env w1' k = Some (w1'\<lparr>ws_mask := k, all_zero_nonce := (k = [0, 0, 0, 0]), mask_idx := 0,
        lws_rx_parse_state := LWS_RXPS_WS_FRAME_PAYLOAD\<rparr>)" (is "_ = Some ?w2")
      by (intro hdr_run_key) (use Some k un w1(3) in \<open>simp_all add: w1'_def\<close>)
    moreover have "ws_pay env f b (fst (ws_view (ws_events w))) pre 0 ?w2"
      using w1(4) k Some by (auto simp: w1'_def ws_pay_def ws_data_def ws_key_def ws_inv_def)
    ultimately show ?thesis using start Some that by simp
  qed
qed


text \<open>One bulk read takes some more of the payload.\<close>

lemma frame_data_drop:
  "drop i (frame_data f) = (case fr_key f of None \<Rightarrow> drop i (fr_payload f) | Some k \<Rightarrow> xor_mask k i (drop i (fr_payload f)))"
proof (cases "i \<le> length (fr_payload f)")
  case True
  have "xor_mask k 0 (fr_payload f) = xor_mask k 0 (take i (fr_payload f)) @ xor_mask k i (drop i (fr_payload f))" for k
    using xor_mask_append [of k 0 "take i (fr_payload f)" "drop i (fr_payload f)"] True by simp
  then show ?thesis using True by (simp add: frame_data_def split: option.split)
next
  case False
  then show ?thesis by (simp add: frame_data_def split: option.split)
qed

lemma xor_mask_take: "xor_mask k i (take a bs) = take a (xor_mask k i bs)"
  by (induction bs arbitrary: i a) (simp_all add: take_Cons split: nat.split)

definition frame_agrees :: "ws_frame \<Rightarrow> nat \<Rightarrow> u8 list \<Rightarrow> bool" where
  "frame_agrees f i buf \<longleftrightarrow> take (length (fr_payload f) - i) buf = take (length buf) (drop i (frame_data f))"

lemma frame_data_length [simp]: "length (frame_data f) = length (fr_payload f)"
  by (simp add: frame_data_def split: option.split)

lemma frame_agrees_drop: "frame_agrees f i buf \<Longrightarrow> frame_agrees f (i + a) (drop a buf)"
  unfolding frame_agrees_def
  by (metis (no_types, lifting) diff_diff_left drop_drop drop_take length_drop add.commute)

lemma pay_take:
  assumes w: "ws_key f i w" and buf: "frame_agrees f i buf" and a: "a \<le> length buf" "i + a \<le> length (fr_payload f)"
  shows "ws_unmask w (take a buf) = take a (drop i (fr_payload f))"
proof -
  have "take a buf = take a (take (length (fr_payload f) - i) buf)"
    using a(2) by (simp add: min_absorb1 le_diff_conv2)
  also have "\<dots> = take a (drop i (frame_data f))" using buf a(1) by (simp add: frame_agrees_def min_absorb1)
  finally show ?thesis using w
    by (simp add: ws_key_unmask frame_data_drop xor_mask_take [symmetric] xor_mask_self split: option.splits)
qed

text \<open>The state of the UTF-8 automaton inside of a text.\<close>

lemma text_state_check:
  assumes inv: "ws_inv env w" and st: "text_state env (b, p) = Some (ws_utf8 w)" "text_state env (b, p @ t @ q) = Some e"
    and w: "check_utf8 w = (opt_validate_utf8 env \<and> \<not> b)" "\<not> defeat_check_utf8 w"
    and fin: "rx_packet_length w = 0 \<and> ws_final w \<Longrightarrow> q = [] \<and> e = 0"
  obtains s where "rx_check_text t n w = Some (False, w\<lparr>ws_utf8 := s\<rparr>)" "text_state env (b, p @ t) = Some s" "s \<in> utf8_states"
proof (cases "opt_validate_utf8 env \<and> \<not> b")
  case False
  with inv st w show ?thesis using that [of "ws_utf8 w"]
    by (auto simp: text_state_def rx_check_text_def ws_inv_def split: if_splits)
next
  case True
  have u: "ws_utf8 w \<in> utf8_states" using inv by (simp add: ws_inv_def)
  from True st obtain s where s: "utf8_run (ws_utf8 w) t = Some s" "utf8_run s q = Some e"
    by (auto simp: text_state_def utf8_run_append split: option.splits)
  have "\<not> (rx_packet_length w = 0 \<and> ws_final w \<and> s \<noteq> 0)" using fin s(2) by auto
  then have "rx_check_text t n w = Some (False, w\<lparr>ws_utf8 := s\<rparr>)"
    using True w s(1) lws_check_utf8_run [OF u, of t] by (auto simp: rx_check_text_def Let_def)
  then show ?thesis
    by (rule that) (use True st(1) s(1) utf8_run_states [OF u s(1)] in \<open>auto simp: text_state_def utf8_run_append\<close>)
qed


text \<open>The payload is complete, but the state machine has not been told.\<close>

definition ws_done :: "ws_env \<Rightarrow> ws_message option \<Rightarrow> ws_message list \<Rightarrow> ws_conn \<Rightarrow> bool" where
  "ws_done env st ms w \<longleftrightarrow> ws_bulk_state w \<and> rx_packet_length w = 0 \<and> fst (ws_view (ws_events w)) = ms \<and>
     ws_idle env st (w\<lparr>lws_rx_parse_state := LWS_RXPS_NEW\<rparr>)"

definition frame_after :: "ws_frame \<Rightarrow> ws_message \<Rightarrow> ws_message option" where
  "frame_after f m = (if fr_fin f then None else Some m)"

definition frame_done :: "ws_frame \<Rightarrow> ws_message \<Rightarrow> ws_message list" where
  "frame_done f m = (if fr_fin f then [m] else [])"

lemma pay_step:
  assumes q: "ws_quiet env" and w: "ws_pay env f b ms pre i w" and f: "frame_ok f" "fr_opcode f \<in> {0, 1, 2}"
    and i: "i < length (fr_payload f)" and buf: "buf \<noteq> []" "frame_agrees f i buf"
    and tx: "text_state env (b, pre @ fr_payload f) = Some e" "fr_fin f \<longrightarrow> e = 0"
    and a: "a = rest_avail env (length buf) w"
  obtains w' where "lws_ws_frame_rest_is_payload env buf w = Some (int a, drop a buf, w')" "0 < a" "a \<le> length buf"
    "if i + a = length (fr_payload f) then ws_done env (frame_after f (b, pre @ fr_payload f)) (ms @ frame_done f (b, pre @ fr_payload f)) w'
     else i + a < length (fr_payload f) \<and> ws_pay env f b ms pre (i + a) w'"
proof -
  let ?n = "length (fr_payload f)"
  define t where "t = take a (drop i (fr_payload f))"
  define p where "p = pre @ take i (fr_payload f)"
  have d: "ws_data env f b ms p w" and key: "ws_key f i w" and pl: "rx_packet_length w = of_nat (?n - i)"
    and ps: "lws_rx_parse_state w = LWS_RXPS_WS_FRAME_PAYLOAD" using w by (auto simp: ws_pay_def p_def)
  have inv: "ws_inv env w" using d by (simp add: ws_data_def)
  have n63: "?n < 2 ^ 63" using f(1) by (simp add: frame_ok_def)
  have upl: "unat (rx_packet_length w) = ?n - i" unfolding pl using n63 by (simp add: unat_of_nat take_bit_nat_eq_self)
  have av: "a = min (ws_bufsize env) (min (?n - i) (length buf))" unfolding a rest_avail_eq [OF inv] upl ..
  have bs: "125 \<le> ws_bufsize env" using q by (simp add: ws_quiet_def)
  have a1: "0 < a" "a \<le> length buf" "i + a \<le> ?n" using av i buf(1) bs by auto
  have "a \<le> ws_bufsize env" using av by simp
  then have a31: "a < 2 ^ 31" using inv by (simp add: ws_inv_def)
  define mi where "mi = (if all_zero_nonce w then mask_idx w else (mask_idx w + a) mod 4)"
  define w1 where "w1 = w\<lparr>mask_idx := mi, rx_packet_length := of_nat (?n - (i + a))\<rparr>"
  have "(mask_idx w + a) mod 4 < 256" by (rule order_less_trans [of _ 4]) simp_all
  then have inv1: "ws_inv env w1" using inv by (simp add: w1_def mi_def ws_inv_def)
  have pl1: "of_nat (?n - i) - of_nat a = (of_nat (?n - (i + a)) :: u64)" using a1(3) by (simp add: of_nat_diff)
  have z: "(of_nat (?n - (i + a)) :: u64) = 0 \<longleftrightarrow> i + a = ?n"
    using of_nat64_eq_0 [of "?n - (i + a)"] n63 a1(3) by auto
  have r: "rest_unmask a buf w = Some (t, drop a buf, if all_zero_nonce w then 0 else a mod 4, w\<lparr>mask_idx := mi\<rparr>)"
    using rest_unmask_ok [of w a buf] a1 inv pay_take [OF key buf(2) a1(2,3)] by (simp add: ws_inv_def t_def mi_def)
  have ptq: "pre @ fr_payload f = p @ t @ drop (i + a) (fr_payload f)"
    by (simp add: p_def t_def add.commute flip: drop_drop)
  have w1f: "text_state env (b, p) = Some (ws_utf8 w1)" "check_utf8 w1 = (opt_validate_utf8 env \<and> \<not> b)" "\<not> defeat_check_utf8 w1"
    "ws_final w1 = fr_fin f" "rx_packet_length w1 = of_nat (?n - (i + a))" using d by (auto simp: ws_data_def w1_def)
  obtain s where s: "rx_check_text t (if all_zero_nonce w then 0 else a mod 4) w1 = Some (False, w1\<lparr>ws_utf8 := s\<rparr>)"
    "text_state env (b, p @ t) = Some s" "s \<in> utf8_states"
    by (rule text_state_check [OF inv1 w1f(1) tx(1) [unfolded ptq] w1f(2,3), of "if all_zero_nonce w then 0 else a mod 4"])
      (use z tx(2) w1f(4,5) in auto)
  define w2 where "w2 = w1\<lparr>ws_utf8 := s, ws_events := ws_events w @ [ws_receive w1 t], first_fragment := False\<rparr>"
  have res: "lws_ws_frame_rest_is_payload env buf w = Some (int a, drop a buf, w2)"
    unfolding lws_ws_frame_rest_is_payload_def a [symmetric] using a1(1) q d
    by (simp add: r pl pl1 w1_def [symmetric] s(1) user_callback_handle_rxflow_def Let_def ws_quiet_def int_of32_small [OF a31]
        ws_data_def w2_def) (simp add: w1_def ws_receive_def lws_is_first_fragment_def lws_is_final_fragment_def lws_frame_is_binary_def)
  have inv2: "ws_inv env w2" using inv1 s(3) by (simp add: w2_def ws_inv_def)
  have view: "ws_view (ws_events w2) = (if i + a = ?n \<and> fr_fin f then (ms @ [(b, p @ t)], []) else (ms, p @ t))"
    using d z by (auto simp: w2_def ws_receive_def lws_is_first_fragment_def lws_is_final_fragment_def lws_frame_is_binary_def
      ws_view_step_def w1_def ws_data_def Let_def split: prod.splits if_splits)
  have pt: "p @ t = pre @ take (i + a) (fr_payload f)" by (simp add: p_def t_def take_add)
  have key2: "ws_key f (i + a) w2"
    using key by (auto simp: ws_key_def w2_def w1_def mi_def mod_simps split: option.splits) (metis mod_add_left_eq)
  show ?thesis
  proof (rule that [OF res a1(1,2)])
    show "if i + a = ?n then ws_done env (frame_after f (b, pre @ fr_payload f)) (ms @ frame_done f (b, pre @ fr_payload f)) w2
       else i + a < ?n \<and> ws_pay env f b ms pre (i + a) w2"
    proof (cases "i + a = ?n")
      case True
      then have pt': "p @ t = pre @ fr_payload f" using pt by simp
      show ?thesis using True d inv2 view s(2) tx z f(2) ps pt'
        by (auto simp: ws_done_def ws_bulk_state_def ws_idle_def ws_inv_upd frame_after_def frame_done_def w2_def w1_def ws_data_def)
    next
      case False
      then show ?thesis using d inv2 view s(2) pt key2 a1(3) ps
        by (auto simp: ws_pay_def ws_data_def w2_def w1_def)
    qed
  qed
qed


text \<open>The inner loop takes what there is of the payload.\<close>

lemma done_bulk:
  assumes "ws_done env st ms w" "length buf < 2 ^ 31"
  shows "parse_ws_bulk env buf True w = Some (0, buf, True, w)"
proof (cases "buf = []")
  case True
  then show ?thesis by (simp add: parse_ws_bulk_idle)
next
  case False
  have "ws_inv env w" using assms by (simp add: ws_done_def ws_idle_def ws_inv_upd)
  with False assms show ?thesis by (intro parse_ws_bulk_stuck) (simp_all add: ws_done_def rest_avail_eq)
qed

lemma pay_bulk:
  assumes "ws_quiet env" "frame_ok f" "fr_opcode f \<in> {0, 1, 2}"
    "text_state env (b, pre @ fr_payload f) = Some e" "fr_fin f \<longrightarrow> e = 0"
    and "ws_pay env f b ms pre i w" "i < length (fr_payload f)" "buf \<noteq> []" "frame_agrees f i buf" "length buf < 2 ^ 31"
  shows "\<exists>w'. parse_ws_bulk env buf bulk w = Some (0, drop (length (fr_payload f) - i) buf, True, w') \<and>
    (if length (fr_payload f) - i \<le> length buf
     then ws_done env (frame_after f (b, pre @ fr_payload f)) (ms @ frame_done f (b, pre @ fr_payload f)) w'
     else ws_pay env f b ms pre (i + length buf) w')"
  using assms(6-)
proof (induction "length buf" arbitrary: i w buf bulk rule: less_induct)
  case less
  let ?n = "length (fr_payload f)"
  define a where "a = rest_avail env (length buf) w"
  obtain w' where w': "lws_ws_frame_rest_is_payload env buf w = Some (int a, drop a buf, w')" "0 < a" "a \<le> length buf"
    "if i + a = ?n then ws_done env (frame_after f (b, pre @ fr_payload f)) (ms @ frame_done f (b, pre @ fr_payload f)) w'
     else i + a < ?n \<and> ws_pay env f b ms pre (i + a) w'"
    by (rule pay_step [OF assms(1) less.prems(1) assms(2,3) less.prems(2,3,4) assms(4,5) a_def])
  have bulk: "ws_bulk_state w" using less.prems(1) assms(3) by (auto simp: ws_pay_def ws_data_def ws_bulk_state_def)
  have "int a \<noteq> - 1" by linarith
  with parse_ws_bulk_step [OF bulk less.prems(3,5) w'(1,2)] have
    st: "parse_ws_bulk env buf bulk w = parse_ws_bulk env (drop a buf) True w'" by simp
  have l: "length (drop a buf) < 2 ^ 31" "length (drop a buf) < length buf" using less.prems(3,5) w'(2) by auto
  show ?case
  proof (cases "i + a = ?n")
    case True
    then have "?n - i = a" by linarith
    with True w' st show ?thesis using done_bulk [OF _ l(1), of env _ _ w'] by auto
  next
    case False
    then have p: "i + a < ?n" "ws_pay env f b ms pre (i + a) w'" using w'(4) by auto
    show ?thesis
    proof (cases "drop a buf = []")
      case True
      then have la: "length buf = a" using w'(3) by simp
      have "parse_ws_bulk env (drop a buf) True w' = Some (0, [], True, w')" unfolding True by (rule parse_ws_bulk_idle) simp
      then show ?thesis using st p la by auto
    next
      case ne: False
      from less.hyps [OF l(2) p(2,1) ne frame_agrees_drop [OF less.prems(4)] l(1), of True] obtain w'' where
        "parse_ws_bulk env (drop a buf) True w' = Some (0, drop (?n - (i + a)) (drop a buf), True, w'')"
        "if ?n - (i + a) \<le> length (drop a buf)
         then ws_done env (frame_after f (b, pre @ fr_payload f)) (ms @ frame_done f (b, pre @ fr_payload f)) w''
         else ws_pay env f b ms pre (i + a + length (drop a buf)) w''" by blast
      moreover have "?n - (i + a) + a = ?n - i" "(?n - (i + a) \<le> length (drop a buf)) = (?n - i \<le> length buf)"
        "i + a + length (drop a buf) = i + length buf" using p(1) w'(3) by auto
      ultimately show ?thesis using st by auto
    qed
  qed
qed

lemma done_sm:
  assumes "ws_quiet env" "ws_done env st ms w"
  obtains w' where "lws_ws_rx_sm env True True 0 w = Some (0, w')" "ws_idle env st w'" "fst (ws_view (ws_events w')) = ms"
proof -
  let ?w = "w\<lparr>lws_rx_parse_state := LWS_RXPS_NEW, rx_ubuf_head := 0\<rparr>"
  have d: "ws_bulk_state w" "rx_packet_length w = 0" "ws_idle env st (w\<lparr>lws_rx_parse_state := LWS_RXPS_NEW\<rparr>)" using assms(2) by (auto simp: ws_done_def)
  have c: "\<not> socket_is_permanently_unusable w" "rx_ubuf_head w = 0" "ws_inv env w" "lwsi_state w = LRS_ESTABLISHED"
    using d(3) by (auto simp: ws_idle_def ws_inv_upd)
  have "\<not> rx_ubuf_alloc w \<le> add32 0 LWS_PRE" using c(2,3) assms(1) by (simp add: ws_inv_def add32_small ws_quiet_def LWS_PRE_def)
  with c d(1,2) have "lws_ws_rx_sm env True True 0 w = Some (0, ?w)"
    by (auto simp: ws_bulk_state_def rx_sm_payload rx_frame_payload_def rx_spill_def rx_deliver_def Let_def)
  moreover have "?w = w\<lparr>lws_rx_parse_state := LWS_RXPS_NEW\<rparr>" using c(2) by simp
  ultimately show ?thesis using d(3) assms(2) by (intro that [of ?w]) (simp_all add: ws_done_def)
qed

lemma pay_sm:
  assumes "ws_quiet env" "ws_pay env f b ms pre i w" "i < length (fr_payload f)" "length (fr_payload f) < 2 ^ 63"
  shows "lws_ws_rx_sm env True True 0 w = Some (0, w)"
proof -
  have c: "\<not> socket_is_permanently_unusable w" "rx_ubuf_head w = 0" "ws_inv env w" "lws_rx_parse_state w = LWS_RXPS_WS_FRAME_PAYLOAD"
    using assms(2) by (auto simp: ws_pay_def ws_data_def)
  have "rx_packet_length w \<noteq> 0" using of_nat64_eq_0 [of "length (fr_payload f) - i"] assms(2-4) by (simp add: ws_pay_def)
  moreover have "\<not> rx_ubuf_alloc w \<le> add32 0 LWS_PRE" "ws_bufsize env \<noteq> 0" using c(2,3) assms(1)
    by (simp_all add: ws_inv_def add32_small ws_quiet_def LWS_PRE_def)
  ultimately show ?thesis using c by (auto simp: rx_sm_payload rx_frame_payload_def ws_bufsize_def split: if_splits)
qed


lemma parse_ws_bulk_turn:
  assumes "ws_quiet env" "buf \<noteq> []" "parse_ws_bulk env buf False w = Some (0, buf', True, w')" "lws_ws_rx_sm env True True 0 w' = Some (0, w'')"
  shows "lws_parse_ws env False buf w = lws_parse_ws env False buf' w''"
  using assms by (subst lws_parse_ws.simps) (simp add: ws_quiet_def)

lemma prefix_agrees:
  "c @ x = d @ r \<Longrightarrow> take (length d) c = take (length c) d"
  by (metis append_eq_conv_conj min.commute take_append take_take append_take_drop_id append_eq_append_conv_if)

lemma pay_feed:
  assumes "ws_quiet env" "frame_ok f" "fr_opcode f \<in> {0, 1, 2}"
    "text_state env (b, pre @ fr_payload f) = Some e" "fr_fin f \<longrightarrow> e = 0"
    and "ws_pay env f b ms pre i w" "i < length (fr_payload f)" "concat cs = drop i (frame_data f) @ r" "\<forall>c \<in> set cs. length c < 2 ^ 31"
  shows "\<exists>w' cs'. ws_feed env w cs = ws_feed env w' cs' \<and> concat cs' = r \<and> (\<forall>c \<in> set cs'. length c < 2 ^ 31) \<and>
    ws_idle env (frame_after f (b, pre @ fr_payload f)) w' \<and>
    fst (ws_view (ws_events w')) = ms @ frame_done f (b, pre @ fr_payload f)"
  using assms(6-)
proof (induction cs arbitrary: i w)
  case Nil
  then show ?case by simp
next
  case (Cons c cs)
  let ?n = "length (fr_payload f)"
  show ?case
  proof (cases "c = []")
    case True
    with Cons show ?thesis by simp
  next
    case False
    have ag: "frame_agrees f i c" using prefix_agrees [of c "concat cs" "drop i (frame_data f)" r] Cons.prems(3)
      by (simp add: frame_agrees_def)
    have lc: "length c < 2 ^ 31" using Cons.prems(4) by simp
    from pay_bulk [OF assms(1-5) Cons.prems(1,2) False ag lc, of False] obtain w' where
      b: "parse_ws_bulk env c False w = Some (0, drop (?n - i) c, True, w')" and
      w': "if ?n - i \<le> length c
       then ws_done env (frame_after f (b, pre @ fr_payload f)) (ms @ frame_done f (b, pre @ fr_payload f)) w'
       else ws_pay env f b ms pre (i + length c) w'" by blast
    show ?thesis
    proof (cases "?n - i \<le> length c")
      case True
      from done_sm [OF assms(1), of "frame_after f (b, pre @ fr_payload f)" "ms @ frame_done f (b, pre @ fr_payload f)" w'] w' True
      obtain w'' where w'': "lws_ws_rx_sm env True True 0 w' = Some (0, w'')" "ws_idle env (frame_after f (b, pre @ fr_payload f)) w''"
        "fst (ws_view (ws_events w'')) = ms @ frame_done f (b, pre @ fr_payload f)" by auto
      have "ws_feed env w (c # cs) = ws_feed env w'' (drop (?n - i) c # cs)"
        using parse_ws_bulk_turn [OF assms(1) False b w''(1)] by simp
      moreover have "concat (drop (?n - i) c # cs) = r"
        using arg_cong [OF Cons.prems(3), of "drop (?n - i)"] True by simp
      ultimately show ?thesis using w'' Cons.prems(4) by (intro exI [of _ w''] exI [of _ "drop (?n - i) c # cs"]) auto
    next
      case lt: False
      then have p: "ws_pay env f b ms pre (i + length c) w'" "i + length c < ?n" using w' by auto
      have "ws_feed env w (c # cs) = ws_feed env w' cs"
        using parse_ws_bulk_turn [OF assms(1) False b pay_sm [OF assms(1) p]] lt assms(2) by (simp add: frame_ok_def)
      moreover have "concat cs = drop (i + length c) (frame_data f) @ r"
        using arg_cong [OF Cons.prems(3), of "drop (length c)"] lt by (simp add: add.commute)
      ultimately show ?thesis using Cons.IH [OF p] Cons.prems(4) by simp
    qed
  qed
qed


subsection \<open>Pings\<close>

definition ws_pong_due :: "u8 list \<Rightarrow> ws_conn \<Rightarrow> bool" where
  "ws_pong_due p w \<longleftrightarrow> ping_pending_flag w \<and> on_writable w \<and> ping_payload_len w = length p \<and>
     take (length p) (drop LWS_PRE (ping_payload_buf w)) = p"

text \<open>What the receiver leaves alone of the sending side.\<close>

definition ws_tx_same :: "ws_conn \<Rightarrow> ws_conn \<Rightarrow> bool" where
  "ws_tx_same w w' \<longleftrightarrow> ws_out w' = ws_out w \<and> inside_frame w' = inside_frame w \<and> lwsi_role_client w' = lwsi_role_client w \<and>
     send_check_ping w' = send_check_ping w"

definition ws_ping :: "ws_env \<Rightarrow> u8 list \<Rightarrow> ws_conn \<Rightarrow> ws_conn \<Rightarrow> bool" where
  "ws_ping env p w w' \<longleftrightarrow> ws_tx_same w w' \<and> ws_events w' = ws_events w \<and> payload_is_close w' = payload_is_close w \<and>
     (if ping_pending_flag w
      then ping_pending_flag w' \<and> ping_payload_len w' = ping_payload_len w \<and> ping_payload_buf w' = ping_payload_buf w
      else ws_pong_due p w')"

text \<open>The payload of a control frame goes through the frame buffer byte by byte.\<close>

definition ping_mid :: "ws_frame \<Rightarrow> ws_conn \<Rightarrow> nat \<Rightarrow> u8 list \<Rightarrow> nat \<Rightarrow> ws_conn" where
  "ping_mid f w i ub mi = w\<lparr>rx_ubuf := ub, rx_packet_length := of_nat (length (fr_payload f) - i), rx_ubuf_head := i, mask_idx := mi\<rparr>"

lemma ping_spill:
  assumes q: "ws_quiet env" and idle: "ws_idle env st w" and p: "length p \<le> 125" and ub: "length ub = length (rx_ubuf w)" "mi < 256" "length key = 4"
    "take (length p) (drop LWS_PRE ub) = p"
  shows "\<exists>w'. rx_spill env False (w\<lparr>all_zero_nonce := b1, ws_opcode := 9, ws_rsv := 0, ws_final := True, defeat_check_utf8 := False,
      this_frame_masked := b2, ws_mask := key, rx_ubuf := ub, rx_packet_length := 0, rx_ubuf_head := length p, mask_idx := mi,
      lws_rx_parse_state := LWS_RXPS_NEW\<rparr>) = Some (0, w') \<and> ws_idle env st w' \<and> ws_ping env p w w'"
    (is "\<exists>w'. rx_spill env False ?w = _ \<and> _")
proof -
  have inv: "ws_inv env ?w" using idle ub p q by (auto simp: ws_idle_def ws_inv_def ws_quiet_def)
  show ?thesis
  proof (cases "ping_pending_flag w")
    case True
    then show ?thesis using idle inv
      by (auto simp: rx_spill_def ws_ping_def ws_tx_same_def ws_idle_def ws_inv_def split: option.splits)
  next
    case False
    have "take (length p) (drop LWS_PRE (take LWS_PRE (ping_payload_buf w) @ p @ x)) = p" for x
      using idle by (simp add: ws_idle_def ws_inv_def)
    with False show ?thesis using idle p ub inv rx_process_as_ping_ok [OF inv]
      by (auto simp: rx_spill_def ws_ping_def ws_tx_same_def ws_pong_due_def ws_idle_def ws_inv_def split: option.splits)
  qed
qed


lemma rx_frame_payload_store:
  assumes "add32 (rx_ubuf_head w) LWS_PRE < rx_ubuf_alloc w" "rx_store c w = Some w'"
  shows "rx_frame_payload env False no_cb c w =
    (if rx_packet_length w' = 0 then rx_spill env no_cb (w'\<lparr>lws_rx_parse_state := LWS_RXPS_NEW\<rparr>)
     else if rx_ubuf_head w' \<noteq> ws_bufsize env then Some (0, w') else rx_spill env no_cb w')"
  using assms by (auto simp: rx_frame_payload_def ws_bufsize_def)

lemma ping_byte:
  assumes q: "ws_quiet env" and w: "ws_inv env (ping_mid f w i ub mi)" "\<not> socket_is_permanently_unusable w" "ws_opcode w = 9"
      "lws_rx_parse_state w = LWS_RXPS_WS_FRAME_PAYLOAD" "ws_key f i (ping_mid f w i ub mi)"
    and n: "i < length (fr_payload f)" "length (fr_payload f) \<le> 125" and m: "take i (drop LWS_PRE ub) = take i (fr_payload f)"
  obtains ub' mi' where "lws_ws_rx_sm env False False (frame_data f ! i) (ping_mid f w i ub mi) =
      (if i + 1 = length (fr_payload f) then rx_spill env False ((ping_mid f w (i + 1) ub' mi')\<lparr>lws_rx_parse_state := LWS_RXPS_NEW\<rparr>)
       else Some (0, ping_mid f w (i + 1) ub' mi'))"
    "ws_inv env (ping_mid f w (i + 1) ub' mi')" "ws_key f (i + 1) (ping_mid f w (i + 1) ub' mi')" "length ub' = length ub" "mi' < 256"
    "take (i + 1) (drop LWS_PRE ub') = take (i + 1) (fr_payload f)"
proof -
  let ?w = "ping_mid f w i ub mi" and ?n = "length (fr_payload f)"
  have l: "length ub = ws_bufsize env + LWS_PRE + 4" "mi < 256" "length (ws_mask w) = 4" "rx_ubuf_alloc w = ws_bufsize env + LWS_PRE" "125 \<le> ws_bufsize env"
    using w(1) q by (simp_all add: ws_inv_def ping_mid_def ws_quiet_def)
  have c: "ws_unmask ?w [frame_data f ! i] = [fr_payload f ! i]"
  proof -
    have "ws_unmask ?w (take 1 (drop i (frame_data f))) = take 1 (drop i (fr_payload f))"
      by (rule pay_take [OF w(5)]) (use n in \<open>simp_all add: frame_agrees_def\<close>)
    then show ?thesis using n by (simp add: take_Suc hd_drop_conv_nth)
  qed
  define v where "v = fr_payload f ! i"
  define ub' where "ub' = ub[LWS_PRE + i := v]"
  define mi' where "mi' = (if all_zero_nonce w then mi else (mi + 1) mod 256)"
  have pl: "of_nat (?n - i) - 1 = (of_nat (?n - (i + 1)) :: u64)" using n(1) by (simp add: of_nat_diff)
  have z: "(of_nat (?n - (i + 1)) :: u64) = 0 \<longleftrightarrow> i + 1 = ?n" using of_nat64_eq_0 [of "?n - (i + 1)"] n by auto
  have h: "add32 i 1 = i + 1" "add32 i LWS_PRE = i + LWS_PRE" using n by (simp_all add: add32_small LWS_PRE_def)
  have lt: "LWS_PRE + i < length ub" "\<not> rx_ubuf_alloc w \<le> i + LWS_PRE" "mi mod 4 < length (ws_mask w)" using l n by auto
  have st: "rx_store (frame_data f ! i) ?w = Some (ping_mid f w (i + 1) ub' mi')"
  proof (cases "all_zero_nonce w")
    case True
    with c show ?thesis using lt by (simp add: rx_store_def ping_mid_def ws_unmask_def wr_Some h [simplified] pl [simplified] ub'_def v_def mi'_def)
  next
    case False
    with c show ?thesis using lt by (simp add: rx_store_def ping_mid_def ws_unmask_def wr_Some rd_Some h [simplified] pl [simplified] ub'_def v_def mi'_def)
  qed
  have nb: "i + 1 \<noteq> ws_bufsize env" if "i + 1 \<noteq> ?n" using n that l(5) by linarith
  have "lws_ws_rx_sm env False False (frame_data f ! i) ?w =
      (if i + 1 = ?n then rx_spill env False ((ping_mid f w (i + 1) ub' mi')\<lparr>lws_rx_parse_state := LWS_RXPS_NEW\<rparr>)
       else Some (0, ping_mid f w (i + 1) ub' mi'))"
    using w(2,4) z nb rx_frame_payload_store [OF _ st, of env False] lt(2) h
    by (simp add: rx_sm_payload ping_mid_def)
  moreover have "ws_inv env (ping_mid f w (i + 1) ub' mi')" using w(1) n l(5) by (simp add: ws_inv_def ping_mid_def ub'_def mi'_def)
  moreover have "ws_key f (i + 1) (ping_mid f w (i + 1) ub' mi')" using w(5)
    by (auto simp: ws_key_def ping_mid_def mi'_def mod_mod_cancel split: option.splits) (metis mod_Suc_eq)
  moreover have "take (i + 1) (drop LWS_PRE ub') = take (i + 1) (fr_payload f)"
    using m lt(1) n(1) by (simp add: ub'_def take_Suc_conv_app_nth drop_update_swap v_def)
  ultimately show ?thesis using l(2) by (intro that [of ub' mi']) (simp_all add: ub'_def mi'_def)
qed


lemma ping_bytes:
  assumes q: "ws_quiet env" and w: "\<not> socket_is_permanently_unusable w" "ws_opcode w = 9" "lws_rx_parse_state w = LWS_RXPS_WS_FRAME_PAYLOAD"
    and n: "length (fr_payload f) \<le> 125"
    and spill: "\<And>ub mi. length ub = ws_bufsize env + LWS_PRE + 4 \<Longrightarrow> mi < 256 \<Longrightarrow>
      take (length (fr_payload f)) (drop LWS_PRE ub) = fr_payload f \<Longrightarrow>
      \<exists>w'. rx_spill env False ((ping_mid f w (length (fr_payload f)) ub mi)\<lparr>lws_rx_parse_state := LWS_RXPS_NEW\<rparr>) = Some (0, w') \<and> P w'"
    and "ws_inv env (ping_mid f w i ub mi)" "ws_key f i (ping_mid f w i ub mi)" "i < length (fr_payload f)"
      "take i (drop LWS_PRE ub) = take i (fr_payload f)"
  shows "\<exists>w'. hdr_run env (ping_mid f w i ub mi) (drop i (frame_data f)) = Some w' \<and> P w'"
  using assms(7-)
proof (induction "length (fr_payload f) - i" arbitrary: i ub mi rule: less_induct)
  case less
  let ?n = "length (fr_payload f)" and ?w = "ping_mid f w i ub mi"
  obtain ub' mi' where b: "lws_ws_rx_sm env False False (frame_data f ! i) ?w =
      (if i + 1 = ?n then rx_spill env False ((ping_mid f w (i + 1) ub' mi')\<lparr>lws_rx_parse_state := LWS_RXPS_NEW\<rparr>)
       else Some (0, ping_mid f w (i + 1) ub' mi'))"
    "ws_inv env (ping_mid f w (i + 1) ub' mi')" "ws_key f (i + 1) (ping_mid f w (i + 1) ub' mi')" "length ub' = length ub" "mi' < 256"
    "take (i + 1) (drop LWS_PRE ub') = take (i + 1) (fr_payload f)"
    by (rule ping_byte [OF q less.prems(1) w less.prems(2,3) n less.prems(4)])
  have d: "drop i (frame_data f) = frame_data f ! i # drop (i + 1) (frame_data f)" using less.prems(3) by (simp add: Cons_nth_drop_Suc)
  have nb: "\<not> ws_bulk_state ?w" using w by (simp add: ws_bulk_state_def ping_mid_def)
  show ?case
  proof (cases "i + 1 = ?n")
    case True
    have "length ub' = ws_bufsize env + LWS_PRE + 4" using b(4) less.prems(1) by (simp add: ws_inv_def ping_mid_def)
    from spill [OF this b(5)] b(6) True obtain w' where
      "rx_spill env False ((ping_mid f w ?n ub' mi')\<lparr>lws_rx_parse_state := LWS_RXPS_NEW\<rparr>) = Some (0, w')" "P w'" by auto
    with True d nb b(1) show ?thesis by simp
  next
    case False
    with less.prems(3) have lt: "i + 1 < ?n" by linarith
    then have "?n - (i + 1) < ?n - i" by linarith
    from less.hyps [OF this b(2,3) lt b(6)] obtain w' where
      "hdr_run env (ping_mid f w (i + 1) ub' mi') (drop (i + 1) (frame_data f)) = Some w'" "P w'" by auto
    with False d nb b(1) show ?thesis by simp
  qed
qed

lemma ping_first:
  assumes idle: "ws_idle env st w" and f: "fr_opcode f = 9" "fr_fin f"
  shows "lws_ws_rx_sm env False False (frame_first f) w = Some (0, w\<lparr>all_zero_nonce := True, ws_opcode := 9, ws_rsv := 0, ws_final := True,
    defeat_check_utf8 := False, lws_rx_parse_state := LWS_RXPS_04_FRAME_HDR_LEN\<rparr>)"
  using frame_first_bits [of f] idle f
  by (simp add: rx_sm_new ws_idle_def rx_handle_first_def Let_def rx_opcode_def)

lemma ping_key_empty:
  assumes w: "lws_rx_parse_state w = LWS_RXPS_07_COLLECT_FRAME_KEY_1" "\<not> socket_is_permanently_unusable w" "length (ws_mask w) = 4"
    "rx_packet_length w = 0" "all_zero_nonce w" and k: "length key = 4"
    and spill: "rx_spill env False (w\<lparr>ws_mask := key, all_zero_nonce := (key = [0, 0, 0, 0]), mask_idx := 0,
      lws_rx_parse_state := LWS_RXPS_NEW\<rparr>) = Some (0, w')"
  shows "hdr_run env w key = Some w'"
proof -
  obtain a b c d where key: "key = [a, b, c, d]" using k by (auto simp: length_Suc_conv numeral_eq_Suc)
  obtain m0 m1 m2 m3 where m: "ws_mask w = [m0, m1, m2, m3]" using w(3) by (auto simp: length_Suc_conv numeral_eq_Suc)
  define w3 where "w3 = w\<lparr>ws_mask := [a, b, c, m3], all_zero_nonce := (a = 0 \<and> b = 0 \<and> c = 0), lws_rx_parse_state := LWS_RXPS_07_COLLECT_FRAME_KEY_4\<rparr>"
  have 3: "hdr_run env w [a, b, c] = Some w3" using w
    by (cases "a = 0"; cases "b = 0"; cases "c = 0")
      (simp_all add: ws_bulk_state_def lws_ws_rx_sm_def rx_mask_byte_def m wr_def Let_def w3_def)
  have "rx_mask_byte 3 d w3 = Some (w\<lparr>ws_mask := key, all_zero_nonce := (key = [0, 0, 0, 0]), lws_rx_parse_state := LWS_RXPS_07_COLLECT_FRAME_KEY_4\<rparr>)"
    by (cases "a = 0"; cases "b = 0"; cases "c = 0"; cases "d = 0") (simp_all add: w3_def rx_mask_byte_def wr_def Let_def key)
  then have "lws_ws_rx_sm env False False d w3 = Some (0, w')"
    using w(2,4) spill by (simp add: lws_ws_rx_sm_def rx_key_4_def w3_def)
  then have "hdr_run env w3 [d] = Some w'" by (simp add: ws_bulk_state_def w3_def)
  with 3 show ?thesis using hdr_run_append [of env w "[a, b, c]" "[d]"] by (simp add: key)
qed

lemma ping_run:
  assumes q: "ws_quiet env" and idle: "ws_idle env st w" and f: "frame_ok f" "fr_opcode f = 9"
  shows "\<exists>w'. hdr_run env w (frame_bytes f) = Some w' \<and> ws_idle env st w' \<and> ws_ping env (fr_payload f) w w'"
proof -
  let ?n = "length (fr_payload f)" and ?m = "fr_key f \<noteq> None"
  have n: "?n \<le> 125" "fr_fin f" "\<And>k. fr_key f = Some k \<Longrightarrow> length k = 4" using f by (auto simp: frame_ok_def)
  have inv: "ws_inv env w" and u: "\<not> socket_is_permanently_unusable w" "length (ws_mask w) = 4" "rx_ubuf_head w = 0"
    and nb: "\<not> ws_bulk_state w" using idle by (auto simp: ws_idle_def ws_inv_def ws_bulk_state_def)
  define w1 where "w1 = w\<lparr>all_zero_nonce := True, ws_opcode := 9, ws_rsv := 0, ws_final := True, defeat_check_utf8 := False,
    lws_rx_parse_state := LWS_RXPS_04_FRAME_HDR_LEN\<rparr>"
  have w1: "lws_ws_rx_sm env False False (frame_first f) w = Some (0, w1)" using ping_first [OF idle f(2) n(2)] by (simp add: w1_def)
  have sp: "\<exists>w'. rx_spill env False (w\<lparr>all_zero_nonce := b1, ws_opcode := 9, ws_rsv := 0, ws_final := True, defeat_check_utf8 := False,
      this_frame_masked := b2, ws_mask := key, rx_ubuf := ub, rx_packet_length := 0, rx_ubuf_head := ?n, mask_idx := mi,
      lws_rx_parse_state := LWS_RXPS_NEW\<rparr>) = Some (0, w') \<and> ws_idle env st w' \<and> ws_ping env (fr_payload f) w w'"
    if "length ub = ws_bufsize env + LWS_PRE + 4" "mi < 256" "length key = 4" "take ?n (drop LWS_PRE ub) = fr_payload f" for b1 b2 key ub mi
    using ping_spill [OF q idle n(1) _ that(2-4)] that(1) inv by (simp add: ws_inv_def)
  show ?thesis
  proof (cases "?n = 0")
    case True
    show ?thesis
    proof (cases "fr_key f")
      case None
      have "w\<lparr>all_zero_nonce := True, ws_opcode := 9, ws_rsv := 0, ws_final := True, defeat_check_utf8 := False,
          this_frame_masked := False, ws_mask := ws_mask w, rx_ubuf := rx_ubuf w, rx_packet_length := 0, rx_ubuf_head := ?n, mask_idx := mask_idx w,
          lws_rx_parse_state := LWS_RXPS_NEW\<rparr> = w1\<lparr>this_frame_masked := False, rx_packet_length := 0, lws_rx_parse_state := LWS_RXPS_NEW\<rparr>"
        using u(3) True by (simp add: w1_def)
      with sp [of "rx_ubuf w" "mask_idx w" "ws_mask w" False True] inv True u(2) obtain w' where
        w': "rx_spill env False (w1\<lparr>this_frame_masked := False, rx_packet_length := 0, lws_rx_parse_state := LWS_RXPS_NEW\<rparr>) = Some (0, w')"
          "ws_idle env st w'" "ws_ping env (fr_payload f) w w'" by (auto simp: ws_inv_def)
      have "lws_ws_rx_sm env False False 0 w1 = Some (0, w')" using w'(1) u by (simp add: lws_ws_rx_sm_def rx_hdr_len_def w1_def)
      then show ?thesis using w1 nb w' True None
        by (simp add: frame_bytes_def frame_hdr_def frame_data_def frame_len_def ws_bulk_state_def w1_def)
    next
      case (Some k)
      define w2 where "w2 = w1\<lparr>this_frame_masked := True, rx_packet_length := 0, lws_rx_parse_state := LWS_RXPS_07_COLLECT_FRAME_KEY_1\<rparr>"
      have "hdr_run env w1 (frame_len True 0) = Some w2" using hdr_run_len [of w1 0 True env] u by (simp add: w1_def w2_def)
      moreover have "w\<lparr>all_zero_nonce := (k = [0, 0, 0, 0]), ws_opcode := 9, ws_rsv := 0, ws_final := True, defeat_check_utf8 := False,
          this_frame_masked := True, ws_mask := k, rx_ubuf := rx_ubuf w, rx_packet_length := 0, rx_ubuf_head := ?n, mask_idx := 0,
          lws_rx_parse_state := LWS_RXPS_NEW\<rparr> =
          w2\<lparr>ws_mask := k, all_zero_nonce := (k = [0, 0, 0, 0]), mask_idx := 0, lws_rx_parse_state := LWS_RXPS_NEW\<rparr>"
        using u(3) True by (simp add: w2_def w1_def)
      with sp [of "rx_ubuf w" 0 k True "k = [0, 0, 0, 0]"] inv True n(3) [OF Some] obtain w' where
        w': "rx_spill env False (w2\<lparr>ws_mask := k, all_zero_nonce := (k = [0, 0, 0, 0]), mask_idx := 0, lws_rx_parse_state := LWS_RXPS_NEW\<rparr>) = Some (0, w')"
          "ws_idle env st w'" "ws_ping env (fr_payload f) w w'" by (auto simp: ws_inv_def)
      moreover have "hdr_run env w2 k = Some w'" by (rule ping_key_empty [OF _ _ _ _ _ _ w'(1)]) (use u n(3) [OF Some] in \<open>simp_all add: w2_def w1_def\<close>)
      ultimately show ?thesis using w1 nb True Some
        by (simp add: frame_bytes_def frame_hdr_def frame_data_def hdr_run_append)
    qed
  next
    case False
    define w2 where "w2 = w1\<lparr>this_frame_masked := ?m, rx_packet_length := of_nat ?n,
      lws_rx_parse_state := if ?m then LWS_RXPS_07_COLLECT_FRAME_KEY_1 else LWS_RXPS_WS_FRAME_PAYLOAD\<rparr>"
    have l: "hdr_run env w1 (frame_len ?m ?n) = Some w2"
      unfolding w2_def by (rule hdr_run_len) (use u n(1) False in \<open>simp_all add: w1_def\<close>)
    have z: "(of_nat ?n :: u64) \<noteq> 0" using of_nat64_eq_0 [of ?n] n(1) False by simp
    define key where "key = (case fr_key f of None \<Rightarrow> ws_mask w | Some k \<Rightarrow> k)"
    define b1 where "b1 = (case fr_key f of None \<Rightarrow> True | Some k \<Rightarrow> k = [0, 0, 0, 0])"
    define w3 where "w3 = w\<lparr>all_zero_nonce := b1, ws_opcode := 9, ws_rsv := 0, ws_final := True, defeat_check_utf8 := False,
      this_frame_masked := ?m, ws_mask := key, lws_rx_parse_state := LWS_RXPS_WS_FRAME_PAYLOAD\<rparr>"
    have lk: "length key = 4" using n(3) u by (auto simp: key_def split: option.split)
    obtain mi where mi: "hdr_run env w2 (case fr_key f of None \<Rightarrow> [] | Some k \<Rightarrow> k) = Some (ping_mid f w3 0 (rx_ubuf w) mi)" "mi < 256"
      "ws_key f 0 (ping_mid f w3 0 (rx_ubuf w) mi)"
    proof (cases "fr_key f")
      case None
      then show ?thesis using that [of "mask_idx w"] u inv
        by (simp add: w2_def w1_def w3_def ping_mid_def key_def b1_def ws_key_def ws_inv_def)
    next
      case (Some k)
      have "hdr_run env w2 k = Some (w2\<lparr>ws_mask := k, all_zero_nonce := (k = [0, 0, 0, 0]), mask_idx := 0,
          lws_rx_parse_state := LWS_RXPS_WS_FRAME_PAYLOAD\<rparr>)"
        by (rule hdr_run_key) (use Some u z n(3) in \<open>simp_all add: w2_def w1_def\<close>)
      then show ?thesis using that [of 0] Some u by (simp add: w2_def w1_def w3_def ping_mid_def key_def b1_def ws_key_def)
    qed
    have "\<exists>w'. hdr_run env (ping_mid f w3 0 (rx_ubuf w) mi) (drop 0 (frame_data f)) = Some w' \<and> (ws_idle env st w' \<and> ws_ping env (fr_payload f) w w')"
    proof (rule ping_bytes [OF q])
      fix ub and mi :: nat assume "length ub = ws_bufsize env + LWS_PRE + 4" "mi < 256" "take ?n (drop LWS_PRE ub) = fr_payload f"
      from sp [OF this(1,2) lk this(3)] show "\<exists>w'. rx_spill env False ((ping_mid f w3 ?n ub mi)\<lparr>lws_rx_parse_state := LWS_RXPS_NEW\<rparr>) = Some (0, w') \<and>
          (ws_idle env st w' \<and> ws_ping env (fr_payload f) w w')" by (simp add: ping_mid_def w3_def)
    qed (use u n(1) inv mi lk False in \<open>simp_all add: w3_def ping_mid_def ws_inv_def\<close>)
    with l mi(1) w1 nb show ?thesis by (simp add: frame_bytes_def frame_hdr_def hdr_run_append)
  qed
qed


subsection \<open>Streams\<close>

lemma assemble_open:
  "assemble (Some (b, acc)) fs = Some (ms, st) \<Longrightarrow>
   (\<exists>x. ms = [] \<and> st = Some (b, acc @ x)) \<or> (\<exists>x ms'. ms = (b, acc @ x) # ms')"
proof (induction fs arbitrary: acc ms)
  case (Cons f fs)
  show ?case
  proof (cases "fr_opcode f = 9 \<or> frame_joins (Some (b, acc)) f = None")
    case True
    with Cons show ?thesis by (auto split: if_splits)
  next
    case False
    then have j: "frame_joins (Some (b, acc)) f = Some (b, acc @ fr_payload f)" by (auto simp: frame_joins_def split: if_splits)
    show ?thesis
    proof (cases "fr_fin f")
      case True
      with False j Cons.prems show ?thesis by auto
    next
      case fin: False
      with False j Cons.prems have "assemble (Some (b, acc @ fr_payload f)) fs = Some (ms, st)" by simp
      from Cons.IH [OF this] show ?thesis by auto
    qed
  qed
qed (auto intro: exI [of _ "[]"])

text \<open>Texts are valid, and so is what there is of an incomplete one.\<close>

definition texts_ok :: "ws_env \<Rightarrow> ws_message list \<Rightarrow> ws_message option \<Rightarrow> bool" where
  "texts_ok env ms st \<longleftrightarrow> (\<forall>m \<in> set ms. text_state env m = Some 0) \<and> (case st of None \<Rightarrow> True | Some m \<Rightarrow> text_state env m \<noteq> None)"

lemma text_state_prefix: "text_state env (b, p @ x) \<noteq> None \<Longrightarrow> text_state env (b, p) \<noteq> None"
  by (auto simp: text_state_def utf8_run_append split: if_splits option.splits)

lemma frame_joins_pre:
  assumes "frame_joins st f = Some m"
  obtains b pre where "m = (b, pre @ fr_payload f)"
  using assms by (auto simp: frame_joins_def split: option.splits if_splits)

lemma ws_frames_feed:
  assumes q: "ws_quiet env"
    and "ws_idle env st w" "list_all frame_ok fs" "assemble st fs = Some (ms, st')" "texts_ok env ms st'"
      "concat cs = concat (map frame_bytes fs)" "\<forall>c \<in> set cs. length c < 2 ^ 31"
  shows "\<exists>w'. ws_feed env w cs = Some w' \<and> ws_idle env st' w' \<and> fst (ws_view (ws_events w')) = fst (ws_view (ws_events w)) @ ms"
  using assms(2-)
proof (induction fs arbitrary: st w ms cs)
  case Nil
  then have "ws_feed env w cs = Some w" by (induction cs) auto
  with Nil show ?case by simp
next
  case (Cons f fs)
  have f: "frame_ok f" "list_all frame_ok fs" using Cons.prems(2) by auto
  have cs: "concat cs = frame_bytes f @ concat (map frame_bytes fs)" using Cons.prems(5) by simp
  show ?case
  proof (cases "fr_opcode f = 9")
    case True
    from ping_run [OF q Cons.prems(1) f(1) True] obtain w1 where
      w1: "hdr_run env w (frame_bytes f) = Some w1" "ws_idle env st w1" "ws_events w1 = ws_events w" by (auto simp: ws_ping_def ws_tx_same_def)
    from hdr_run_feed [OF q w1(1) cs] obtain cs1 where
      c: "ws_feed env w cs = ws_feed env w1 cs1" "concat cs1 = concat (map frame_bytes fs)" "\<forall>c \<in> set cs1. \<exists>c' \<in> set cs. length c \<le> length c'" .
    have "\<forall>c \<in> set cs1. length c < 2 ^ 31" using c(3) Cons.prems(6) by (meson le_less_trans)
    with Cons.IH [OF w1(2) f(2) _ Cons.prems(4) c(2)] Cons.prems(3) True c(1) w1(3) show ?thesis by simp
  next
    case False
    then obtain m where j: "frame_joins st f = Some m" using Cons.prems(3) by (cases "frame_joins st f") auto
    then obtain b pre where m: "m = (b, pre @ fr_payload f)" by (rule frame_joins_pre)
    have data: "fr_opcode f \<in> {0, 1, 2}" "0 < length (fr_payload f)" using f(1) False by (auto simp: frame_ok_def)
    obtain ms2 where ms: "ms = frame_done f m @ ms2" "assemble (frame_after f m) fs = Some (ms2, st')"
      using Cons.prems(3) False j by (auto simp: frame_done_def frame_after_def split: if_splits)
    have tx: "\<exists>e. text_state env m = Some e \<and> (fr_fin f \<longrightarrow> e = 0)"
    proof (cases "fr_fin f")
      case True
      with ms(1) Cons.prems(4) show ?thesis by (auto simp: frame_done_def texts_ok_def)
    next
      case open': False
      with ms assemble_open [of b "pre @ fr_payload f" fs ms st'] m
      have "(\<exists>x. st' = Some (b, (pre @ fr_payload f) @ x)) \<or> (\<exists>x. (b, (pre @ fr_payload f) @ x) \<in> set ms)"
        by (auto simp: frame_after_def frame_done_def)
      then consider x where "st' = Some (b, (pre @ fr_payload f) @ x)" | x where "(b, (pre @ fr_payload f) @ x) \<in> set ms" by blast
      then have "text_state env m \<noteq> None"
        using text_state_prefix [of env b "pre @ fr_payload f"] Cons.prems(4) m by cases (fastforce simp: texts_ok_def)+
      with open' show ?thesis by auto
    qed
    then obtain e where e: "text_state env (b, pre @ fr_payload f) = Some e" "fr_fin f \<longrightarrow> e = 0" using m by auto
    obtain w1 where w1: "hdr_run env w (frame_hdr f) = Some w1" "ws_pay env f b (fst (ws_view (ws_events w))) pre 0 w1"
      by (rule data_hdr [OF Cons.prems(1) f(1) data(1) j [unfolded m]])
    have "concat cs = frame_hdr f @ frame_data f @ concat (map frame_bytes fs)" using cs by (simp add: frame_bytes_def)
    from hdr_run_feed [OF q w1(1) this] obtain cs1 where
      c: "ws_feed env w cs = ws_feed env w1 cs1" "concat cs1 = frame_data f @ concat (map frame_bytes fs)"
        "\<forall>c \<in> set cs1. \<exists>c' \<in> set cs. length c \<le> length c'" .
    have lc: "\<forall>c \<in> set cs1. length c < 2 ^ 31" using c(3) Cons.prems(6) by (meson le_less_trans)
    have c0: "concat cs1 = drop 0 (frame_data f) @ concat (map frame_bytes fs)" using c(2) by simp
    from pay_feed [OF q f(1) data(1) e w1(2) data(2) c0 lc] m obtain w2 cs2 where
      p: "ws_feed env w1 cs1 = ws_feed env w2 cs2" "concat cs2 = concat (map frame_bytes fs)" "\<forall>c \<in> set cs2. length c < 2 ^ 31"
        "ws_idle env (frame_after f m) w2" "fst (ws_view (ws_events w2)) = fst (ws_view (ws_events w)) @ frame_done f m" by auto
    have "texts_ok env ms2 st'" using Cons.prems(4) ms(1) by (auto simp: texts_ok_def)
    from Cons.IH [OF p(4) f(2) ms(2) this p(2,3)] c(1) p(1,5) ms(1) show ?thesis by auto
  qed
qed

text \<open>C3: the callback is told the messages that were sent. Let the peer send any frames that make up complete
  messages, in as many non-empty fragments as it likes, with or without masking, with pings in between,
  and let the network cut their bytes into any buffers. Then \<open>lws_parse_ws\<close> accepts all of them, and what the
  callback puts together from its calls are those messages, unchanged and in order. Texts have to be
  UTF-8 when the server checks them, and the callback returns 0 and does not stop the input.\<close>

theorem ws_receive_messages:
  assumes "ws_quiet env" "ws_idle env None w" "list_all frame_ok fs" "assemble None fs = Some (ms, None)"
    "\<forall>(binary, m) \<in> set ms. opt_validate_utf8 env \<and> \<not> binary \<longrightarrow> utf8_text m"
    "concat cs = concat (map frame_bytes fs)" "\<forall>c \<in> set cs. length c < 2 ^ 31"
  shows "\<exists>w'. ws_feed env w cs = Some w' \<and> ws_idle env None w' \<and> fst (ws_view (ws_events w')) = fst (ws_view (ws_events w)) @ ms"
proof (rule ws_frames_feed [OF assms(1-4) _ assms(6,7)])
  show "texts_ok env ms None" using assms(5) by (auto simp: texts_ok_def text_state_def utf8_text_run)
qed

definition ws_quiet_env :: ws_env where
  "ws_quiet_env = ws_demo_env\<lparr>cb_rxflow := (\<lambda>_. False)\<rparr>"

lemma ws_quiet_env: "ws_quiet ws_quiet_env" "ws_bufsize ws_quiet_env = 128" "opt_validate_utf8 ws_quiet_env"
  by (simp_all add: ws_quiet_def ws_quiet_env_def ws_demo_env_def ws_bufsize_def)

lemma ws_start_idle: "ws_idle ws_quiet_env None (ws_start ws_quiet_env)"
proof -
  have "ws_inv ws_quiet_env (ws_start ws_quiet_env)"
    by (rule ws_start_inv) (simp_all add: ws_quiet_env_def ws_demo_env_def ws_bufsize_def LWS_PRE_def)
  then show ?thesis
    by (simp add: ws_idle_def ws_start_def lws_server_init_wsi_for_ws_def lws_restart_ws_ping_pong_timer_def Let_def ws_zero_def ws_quiet_env_def ws_demo_env_def)
qed

lemma ws_start_view: "ws_view (ws_events (ws_start ws_quiet_env)) = ([], [])"
  by (simp add: ws_start_def lws_server_init_wsi_for_ws_def lws_restart_ws_ping_pong_timer_def Let_def ws_zero_def ws_quiet_env_def ws_demo_env_def ws_view_def ws_view_step_def)

definition demo_frames :: "ws_frame list" where
  "demo_frames =
     [\<lparr>fr_fin = False, fr_opcode = 1, fr_key = Some [1, 2, 3, 4], fr_payload = bytes_of ''Hel''\<rparr>,
      \<lparr>fr_fin = True, fr_opcode = 9, fr_key = Some [5, 6, 7, 8], fr_payload = bytes_of ''?''\<rparr>,
      \<lparr>fr_fin = True, fr_opcode = 0, fr_key = None, fr_payload = bytes_of ''lo''\<rparr>]"

lemma demo_text: "utf8_text (bytes_of ''Hello'')"
  by (simp add: utf8_text_run utf8_next_def utf8_lead_def)

theorem ws_receive_messages_witness:
  "\<exists>w'. ws_feed ws_quiet_env (ws_start ws_quiet_env)
      [take 7 (concat (map frame_bytes demo_frames)), drop 7 (concat (map frame_bytes demo_frames))] = Some w' \<and>
     fst (ws_view (ws_events w')) = [(False, bytes_of ''Hello'')]"
proof -
  let ?b = "concat (map frame_bytes demo_frames)"
  have fs: "list_all frame_ok demo_frames" "assemble None demo_frames = Some ([(False, bytes_of ''Hello'')], None)"
    by (simp_all add: demo_frames_def frame_ok_def frame_joins_def)
  have "length ?b < 2 ^ 31" by (simp add: demo_frames_def frame_bytes_def frame_hdr_def frame_len_def)
  then have len: "\<forall>c \<in> set [take 7 ?b, drop 7 ?b]. length c < 2 ^ 31" by (auto simp: min_def)
  have tx: "\<forall>(binary, m) \<in> set [(False, bytes_of ''Hello'')]. opt_validate_utf8 ws_quiet_env \<and> \<not> binary \<longrightarrow> utf8_text m"
    using demo_text by simp
  have "concat [take 7 ?b, drop 7 ?b] = ?b" by simp
  from ws_receive_messages [OF ws_quiet_env(1) ws_start_idle fs tx this len] ws_start_view show ?thesis by auto
qed

end
