(* ===== verification/Ws_Errors.thy ===== *)
theory Ws_Errors
  imports Ws_Frames
begin

text \<open>
  Frames that the receiver refuses, and some that it should refuse and does not: the reserved bit RSV1, which
  the build without extensions lets through, and texts that end inside of a UTF-8 character.
\<close>

subsection \<open>Protocol errors\<close>

text \<open>What RFC 6455 forbids in the first byte of a frame when no extension was negotiated: a fragmented control
  frame, an opcode that is not defined, a reserved bit, a continuation of nothing, and new data while a
  message is incomplete.\<close>

definition ws_bad_first :: "bool \<Rightarrow> u8 \<Rightarrow> bool" where
  "ws_bad_first incomplete c \<longleftrightarrow>
     (c AND 0xf \<ge> 8 \<and> \<not> bit c 7) \<or> c AND 0xf \<in> {3, 4, 5, 6, 7, 0xb, 0xc, 0xd, 0xe, 0xf} \<or> c AND 0x70 \<noteq> 0 \<or>
     (c AND 0xf = 0 \<and> \<not> incomplete) \<or> (c AND 0xf \<in> {1, 2} \<and> incomplete)"

text \<open>A byte whose only fault is the bit RSV1: without it the protocol would allow it.\<close>

definition ws_only_rsv1 :: "bool \<Rightarrow> u8 \<Rightarrow> bool" where
  "ws_only_rsv1 incomplete c \<longleftrightarrow> bit c 6 \<and> \<not> ws_bad_first incomplete (c AND NOT 0x40)"

definition ws_refused :: "bool \<Rightarrow> u8 \<Rightarrow> bool" where
  "ws_refused incomplete c \<longleftrightarrow>
     (c AND 0xf \<ge> 8 \<and> \<not> bit c 7) \<or> c AND 0xf \<in> {3, 4, 5, 6, 7, 0xb, 0xc, 0xd, 0xe, 0xf} \<or> c AND 0x30 \<noteq> 0 \<or>
     (c AND 0xf = 0 \<and> \<not> incomplete) \<or> (c AND 0xf \<in> {1, 2} \<and> incomplete)"

lemma rsv_bits: "(c :: u8) AND 0x70 \<noteq> 0 \<longleftrightarrow> c AND 0x30 \<noteq> 0 \<or> bit c 6"
proof -
  have "c AND 0x70 = (c AND 0x30) OR (c AND 0x40)" by (simp add: bit.conj_disj_distrib [symmetric])
  moreover have "c AND 0x40 = 0 \<longleftrightarrow> \<not> bit c 6"
    using and_exp_eq_0_iff_not_bit [of c 6] by simp
  ultimately show ?thesis by (simp add: or_eq_0_iff)
qed

lemma ws_refused_iff: "ws_bad_first incomplete c \<and> \<not> ws_only_rsv1 incomplete c \<longleftrightarrow> ws_refused incomplete c"
proof -
  let ?d = "c AND NOT 0x40"
  have d: "?d AND 0xf = c AND 0xf" "?d AND 0x70 = c AND 0x30" by (simp_all add: and.assoc)
  have "bit ?d 7 = bit c 7" by (simp add: bit_simps)
  with d have "ws_bad_first incomplete ?d \<longleftrightarrow> ws_refused incomplete c"
    unfolding ws_bad_first_def ws_refused_def by simp
  moreover have "ws_bad_first incomplete c \<longleftrightarrow> ws_refused incomplete c \<or> bit c 6"
    unfolding ws_bad_first_def ws_refused_def using rsv_bits [of c] by blast
  ultimately show ?thesis unfolding ws_only_rsv1_def by blast
qed

lemma opcode_cases:
  "(c :: u8) AND 0xf \<in> {0, 1, 2, 3, 4, 5, 6, 7, 8, 9, 0xa, 0xb, 0xc, 0xd, 0xe, 0xf}"
proof -
  have "c AND 0xf \<le> 0xf" by (rule word_and_le1)
  then have "unat (c AND 0xf) \<in> {..<16}" by (simp add: word_le_nat_alt)
  then have "of_nat (unat (c AND 0xf)) \<in> (of_nat ` {..<16} :: u8 set)" by (rule imageI)
  moreover have "{..<16} = set [0::nat, 1, 2, 3, 4, 5, 6, 7, 8, 9, 10, 11, 12, 13, 14, 15]"
    unfolding lessThan_atLeast0 set_upt [symmetric] by (rule arg_cong [of _ _ set]) code_simp
  ultimately show ?thesis by simp
qed

lemma opcode_bit: "x \<in> {0, 1, 2, 3, 4, 5, 6, 7, 8, 9, 0xa, 0xb, 0xc, 0xd, 0xe, 0xf} \<Longrightarrow> (x :: u8) AND 8 \<noteq> 0 \<longleftrightarrow> 8 \<le> x"
  by (elim insertE emptyE) (simp_all add: word_le_nat_alt)

lemma opcode_control: "((c :: u8) AND 0xf) AND 8 = 0 \<longleftrightarrow> \<not> 8 \<le> c AND 0xf"
  using opcode_bit [OF opcode_cases [of c]] by blast

definition ws_close_code :: "ws_conn \<Rightarrow> nat" where
  "ws_close_code w = unat (ping_payload_buf w ! LWS_PRE) * 256 + unat (ping_payload_buf w ! (LWS_PRE + 1))"

lemma ws_error_result:
  assumes "ws_inv env w" "status < 65536"
  shows "\<exists>w'. ws_error status reason w = Some (- 1, w') \<and> ws_close_code w' = status \<and> ws_events w' = ws_events w"
proof -
  let ?pb = "(ping_payload_buf w)[LWS_PRE := of_nat (status div 256), LWS_PRE + 1 := of_nat status]"
  have l: "length (ping_payload_buf w) = 141" using assms(1) by (simp add: ws_inv_def LWS_PRE_def)
  define k where "k = min (length reason) (length ?pb - (LWS_PRE + 2))"
  have nth: "(take (LWS_PRE + 2) ?pb @ x) ! LWS_PRE = of_nat (status div 256)" "(take (LWS_PRE + 2) ?pb @ x) ! (LWS_PRE + 1) = of_nat status" for x
    using l by (simp_all add: nth_append LWS_PRE_def)
  have "unat (of_nat (status div 256) :: u8) * 256 + unat (of_nat status :: u8) = status"
    using assms(2) by (simp add: unat_of_nat take_bit_eq_mod)
  then show ?thesis
    using l nth [of "take k (bytes_of reason) @ drop (LWS_PRE + 2 + k) ?pb"]
    by (simp add: ws_error_def lws_close_reason_def wr_Some close_reason_loop_ok LWS_PRE_def ws_close_code_def k_def Let_def)
qed

lemma rx_first_byte:
  assumes "ws_idle env st w"
  shows "\<exists>m w'. lws_ws_rx_sm env False False c w = Some (m, w') \<and> ws_events w' = ws_events w \<and>
    (if ws_refused (st \<noteq> None) c then m = - 1 \<and> ws_close_code w' = LWS_CLOSE_STATUS_PROTOCOL_ERR
     else m = 0 \<and> lws_rx_parse_state w' = LWS_RXPS_04_FRAME_HDR_LEN)"
proof -
  have i: "lws_rx_parse_state w = LWS_RXPS_NEW" "ietf_spec_revision w = 13" "\<not> socket_is_permanently_unusable w"
    "continuation_possible w = (st \<noteq> None)" "owed_a_fin w = (st \<noteq> None)" "ws_inv env w"
    using assms by (auto simp: ws_idle_def split: option.splits)
  have r0: "(c AND 0x70) AND NOT 0x40 = c AND 0x30" by (simp add: and.assoc)
  have "c AND 0x30 = 0" if "c AND 0x70 = 0"
  proof -
    have "c AND 0x30 = (c AND 0x70) AND 0x30" by (simp add: and.assoc)
    also have "\<dots> = 0" unfolding that by simp
    finally show ?thesis .
  qed
  then have rsv: "c AND 0x70 \<noteq> 0 \<and> (c AND 0x70) AND NOT 0x40 \<noteq> 0 \<longleftrightarrow> c AND 0x30 \<noteq> 0" unfolding r0 by auto
  have e: "\<exists>w'. ws_error LWS_CLOSE_STATUS_PROTOCOL_ERR r v = Some (- 1, w') \<and> ws_close_code w' = LWS_CLOSE_STATUS_PROTOCOL_ERR \<and> ws_events w' = ws_events w"
    if "ws_inv env v" "ws_events v = ws_events w" for r v using ws_error_result [OF that(1), of LWS_CLOSE_STATUS_PROTOCOL_ERR r] that(2) by simp
  define w0 where "w0 = w\<lparr>all_zero_nonce := True, ws_opcode := c AND 0xf, ws_rsv := c AND 0x70, ws_final := bit c 7, defeat_check_utf8 := False\<rparr>"
  have w0: "ws_inv env w0" "ws_events w0 = ws_events w" using i(6) by (simp_all add: w0_def ws_inv_upd)
  have op0: "ws_opcode w0 = c AND 0xf" "ws_final w0 = bit c 7" by (simp_all add: w0_def)
  obtain r w1 where r: "rx_opcode env c w0 = (r, w1)" by force
  have w1: "ws_inv env w1" "ws_events w1 = ws_events w" "ws_opcode w1 = c AND 0xf" "ws_final w1 = bit c 7" "ws_rsv w1 = c AND 0x70"
      "owed_a_fin w1 = (st \<noteq> None)"
    using rx_opcode_inv [OF w0(1), of c] r i(5) by (auto simp: rx_opcode_def Let_def w0_def split: if_splits)
  have rr: "r \<noteq> None \<longleftrightarrow> c AND 0xf \<in> {3, 4, 5, 6, 7, 0xb, 0xc, 0xd, 0xe, 0xf} \<or> (c AND 0xf = 0 \<and> st = None) \<or> (c AND 0xf \<in> {1, 2} \<and> st \<noteq> None)"
  proof -
    have "r = fst (rx_opcode env c w0)" using r by simp
    then show ?thesis using i(4) by (auto simp: rx_opcode_def Let_def w0_def)
  qed
  have fail: "ws_refused (st \<noteq> None) c \<Longrightarrow> lws_ws_rx_sm env False False c w = ws_error LWS_CLOSE_STATUS_PROTOCOL_ERR x v \<Longrightarrow>
      ws_inv env v \<Longrightarrow> ws_events v = ws_events w \<Longrightarrow> ?thesis" for x v using e [of v x] by auto
  have sm: "lws_ws_rx_sm env False False c w = rx_handle_first env c (w\<lparr>all_zero_nonce := True\<rparr>)" by (rule rx_sm_new [OF i(1-3)])
  show ?thesis
  proof (cases "8 \<le> c AND 0xf \<and> \<not> bit c 7")
    case True
    have "lws_ws_rx_sm env False False c w = ws_error LWS_CLOSE_STATUS_PROTOCOL_ERR ''frag ctl'' w0"
      unfolding sm rx_handle_first_def Let_def w0_def [symmetric] using True by (simp add: op0 opcode_control)
    then show ?thesis by (rule fail [rotated]) (use True w0 in \<open>auto simp: ws_refused_def\<close>)
  next
    case nf: False
    have hf: "lws_ws_rx_sm env False False c w =
        (case rx_opcode env c w0 of (Some reason, w) \<Rightarrow> ws_error LWS_CLOSE_STATUS_PROTOCOL_ERR reason w
         | (None, w) \<Rightarrow>
           if owed_a_fin w \<and> (ws_opcode w = LWSWSOPC_TEXT_FRAME \<or> ws_opcode w = LWSWSOPC_BINARY_FRAME) then
             ws_error LWS_CLOSE_STATUS_PROTOCOL_ERR ''bad fin'' w
           else let w = (if ws_opcode w AND 8 = 0 \<and> ws_final w then w\<lparr>continuation_possible := False, owed_a_fin := False\<rparr> else w);
                    w = (if \<not> ws_final w then w\<lparr>owed_a_fin := True\<rparr> else w);
                    w = w\<lparr>lws_rx_parse_state := LWS_RXPS_04_FRAME_HDR_LEN\<rparr>
             in if ws_rsv w \<noteq> 0 \<and> ws_rsv w AND NOT 0x40 \<noteq> 0 then ws_error LWS_CLOSE_STATUS_PROTOCOL_ERR ''rsv bits'' w
                else Some (0, w))"
      unfolding sm rx_handle_first_def Let_def w0_def [symmetric] using nf by (subst if_not_P) (simp_all add: op0 opcode_control)
    show ?thesis
    proof (cases r)
      case (Some reason)
      with rr have "ws_refused (st \<noteq> None) c" by (auto simp: ws_refused_def)
      then show ?thesis by (rule fail [of reason w1]) (simp_all add: hf r Some w1)
    next
      case None
      with rr w1(3,6) have no_fin: "\<not> (owed_a_fin w1 \<and> (ws_opcode w1 = LWSWSOPC_TEXT_FRAME \<or> ws_opcode w1 = LWSWSOPC_BINARY_FRAME))" by auto
      define w2 where "w2 = (let w = (if ws_opcode w1 AND 8 = 0 \<and> ws_final w1 then w1\<lparr>continuation_possible := False, owed_a_fin := False\<rparr> else w1);
        w = (if \<not> ws_final w then w\<lparr>owed_a_fin := True\<rparr> else w) in w\<lparr>lws_rx_parse_state := LWS_RXPS_04_FRAME_HDR_LEN\<rparr>)"
      have w2: "ws_inv env w2" "ws_events w2 = ws_events w" "lws_rx_parse_state w2 = LWS_RXPS_04_FRAME_HDR_LEN" "ws_rsv w2 = c AND 0x70"
        using w1 by (auto simp: w2_def Let_def ws_inv_upd)
      have "lws_ws_rx_sm env False False c w =
          (if ws_rsv w2 \<noteq> 0 \<and> ws_rsv w2 AND NOT 0x40 \<noteq> 0 then ws_error LWS_CLOSE_STATUS_PROTOCOL_ERR ''rsv bits'' w2 else Some (0, w2))"
        unfolding hf r None prod.case option.case if_not_P [OF no_fin] Let_def w2_def ..
      then have "lws_ws_rx_sm env False False c w =
          (if c AND 0x30 \<noteq> 0 then ws_error LWS_CLOSE_STATUS_PROTOCOL_ERR ''rsv bits'' w2 else Some (0, w2))"
        unfolding w2(4) rsv .
      then show ?thesis using rr None nf fail [of "''rsv bits''" w2] w2
        by (cases "c AND 0x30 = 0") (auto simp: ws_refused_def)
    qed
  qed
qed

text \<open>C13: the first byte of a frame is refused exactly when the protocol forbids it, except that the bit RSV1 is not
  looked at: a byte is let through when it is allowed, or when RSV1 is all that is wrong with it. When it is
  refused, the close code 1002 is prepared. The callback is told nothing.\<close>

theorem ws_first_byte_errors:
  assumes "ws_idle env st w"
  shows "\<exists>m w'. lws_ws_rx_sm env False False c w = Some (m, w') \<and> ws_events w' = ws_events w \<and>
    (if ws_bad_first (st \<noteq> None) c \<and> \<not> ws_only_rsv1 (st \<noteq> None) c then m = - 1 \<and> ws_close_code w' = LWS_CLOSE_STATUS_PROTOCOL_ERR
     else m = 0 \<and> lws_rx_parse_state w' = LWS_RXPS_04_FRAME_HDR_LEN)"
  unfolding ws_refused_iff by (rule rx_first_byte [OF assms])

theorem ws_first_byte_errors_witness:
  "\<exists>m w'. lws_ws_rx_sm ws_quiet_env False False 0x80 (ws_start ws_quiet_env) = Some (m, w') \<and> m = - 1 \<and>
     ws_close_code w' = LWS_CLOSE_STATUS_PROTOCOL_ERR"
  using ws_first_byte_errors [OF ws_start_idle, of "0x80"] by (auto simp: ws_bad_first_def ws_only_rsv1_def)


subsection \<open>A text that ends inside of a character\<close>

lemma bulk_end:
  assumes q: "ws_quiet env" and w: "ws_bulk_state w" "rx_packet_length w = 0" "\<not> socket_is_permanently_unusable w" "rx_ubuf_head w = 0"
    "ws_inv env w" "lwsi_state w = LRS_ESTABLISHED"
  shows "lws_ws_rx_sm env True True 0 w = Some (0, w\<lparr>lws_rx_parse_state := LWS_RXPS_NEW, rx_ubuf_head := 0\<rparr>)"
proof -
  have "\<not> rx_ubuf_alloc w \<le> add32 0 LWS_PRE" using w(4,5) q by (simp add: ws_inv_def add32_small ws_quiet_def LWS_PRE_def)
  with w show ?thesis by (auto simp: ws_bulk_state_def rx_sm_payload rx_frame_payload_def rx_spill_def rx_deliver_def Let_def)
qed

text \<open>C30: the check that a text does not end inside of a UTF-8 character is not made when the length of the last
  piece is not a multiple of four: the variable \<open>n\<close> that the check looks at is then what the unmasking loop
  has left in it. A text message of a single frame that comes in one buffer, masked with a key that is not
  zero, and no longer than the receive buffer, whose payload ends in the middle of a character, is delivered as
  a complete message.\<close>

theorem ws_partial_utf8_accepted:
  assumes q: "ws_quiet env" "opt_validate_utf8 env" and idle: "ws_idle env None w"
    and f: "f = \<lparr>fr_fin = True, fr_opcode = 1, fr_key = Some k, fr_payload = p\<rparr>" "length k = 4" "k \<noteq> [0, 0, 0, 0]"
      "length p mod 4 \<noteq> 0" "length p \<le> ws_bufsize env"
    and p: "utf8_run 0 p = Some s" "s \<noteq> 0"
  shows "\<exists>w'. lws_parse_ws env False (frame_bytes f) w = Some (0, [], w') \<and> ws_utf8 w' = s \<and> \<not> utf8_text p \<and>
    fst (ws_view (ws_events w')) = fst (ws_view (ws_events w)) @ [(False, p)]"
proof -
  define n where "n = length p"
  have n: "0 < n" "n mod 4 \<noteq> 0" using f(4) by (auto simp: n_def)
  have bs: "ws_bufsize env < 2 ^ 31" using idle by (simp add: ws_idle_def ws_inv_def)
  have n31: "n < 2 ^ 31" using bs f(5) by (simp add: n_def)
  have ff: "fr_fin f" "fr_opcode f = 1" by (simp_all add: f(1))
  have ok: "frame_ok f" using f n bs by (auto simp: frame_ok_def n_def)
  obtain w1 where w1: "hdr_run env w (frame_hdr f) = Some w1" "ws_pay env f False (fst (ws_view (ws_events w))) [] 0 w1"
    by (rule data_hdr [OF idle ok, of False "[]"]) (use f in \<open>simp_all add: frame_joins_def\<close>)
  let ?ms = "fst (ws_view (ws_events w))" and ?buf = "frame_data f"
  have d: "ws_data env f False ?ms [] w1" and key: "ws_key f 0 w1" and pl: "rx_packet_length w1 = of_nat n"
    and st: "lws_rx_parse_state w1 = LWS_RXPS_WS_FRAME_PAYLOAD" using w1(2) by (auto simp: ws_pay_def f(1) n_def)
  have inv: "ws_inv env w1" using d by (simp add: ws_data_def)
  have lb: "length ?buf = n" by (simp add: f(1) n_def)
  have ne: "?buf \<noteq> []" using lb n(1) by (metis length_0_conv less_irrefl)
  have "unat (rx_packet_length w1) = n" unfolding pl using f(5) bs by (simp add: unat_of_nat take_bit_nat_eq_self n_def)
  then have av: "rest_avail env (length ?buf) w1 = n" using rest_avail_eq [OF inv, of "length ?buf"] lb f(5) by (simp add: n_def)
  have az: "\<not> all_zero_nonce w1" using key f by (simp add: ws_key_def)
  have r: "rest_unmask n ?buf w1 = Some (p, [], n mod 4, w1\<lparr>mask_idx := (mask_idx w1 + n) mod 4\<rparr>)"
    using rest_unmask_ok [of w1 n ?buf] pay_take [OF key, of ?buf n] inv az lb f(1) by (simp add: ws_inv_def frame_agrees_def n_def)
  define w2 where "w2 = w1\<lparr>mask_idx := (mask_idx w1 + n) mod 4, rx_packet_length := 0, ws_utf8 := s,
    ws_events := ws_events w1 @ [LWS_CALLBACK_RECEIVE p (first_fragment w1) True False], first_fragment := False\<rparr>"
  have u: "ws_utf8 w1 = 0" using d q(2) by (simp add: ws_data_def text_state_def)
  have uz: "(0 :: u8) \<in> utf8_states" by (simp add: utf8_states_def)
  have "lws_check_utf8 0 p = Some (0, s)" using lws_check_utf8_run [OF uz, of p] p(1) by simp
  then have res: "lws_ws_frame_rest_is_payload env ?buf w1 = Some (int n, drop n ?buf, w2)"
    using n q d u ff n31
    by (simp add: lws_ws_frame_rest_is_payload_def av [unfolded lb] r pl rx_check_text_def ws_data_def user_callback_handle_rxflow_def Let_def ws_quiet_def
        int_of32_small w2_def lb [simplified] ws_receive_def lws_is_first_fragment_def lws_is_final_fragment_def lws_frame_is_binary_def)
  have "(mask_idx w1 + n) mod 4 < 256" by (rule order_less_trans [of _ 4]) simp_all
  then have inv2: "ws_inv env w2" using inv utf8_run_states [OF uz p(1)] by (simp add: w2_def ws_inv_def)
  have b: "ws_bulk_state w1" using d st f(1) by (simp add: ws_bulk_state_def ws_data_def)
  have bulk: "parse_ws_bulk env ?buf False w1 = Some (0, [], True, w2)"
    using parse_ws_bulk_step [OF b ne _ res n(1), of False] lb n bs f(5) by (simp add: parse_ws_bulk_idle n_def)
  have sm: "lws_ws_rx_sm env True True 0 w2 = Some (0, w2\<lparr>lws_rx_parse_state := LWS_RXPS_NEW, rx_ubuf_head := 0\<rparr>)"
    by (rule bulk_end [OF q(1) _ _ _ _ inv2]) (use d b in \<open>simp_all add: w2_def ws_data_def ws_bulk_state_def\<close>)
  from parse_ws_bulk_turn [OF q(1) ne bulk sm] hdr_run_parse [OF q(1) w1(1), of ?buf]
  have "lws_parse_ws env False (frame_bytes f) w = Some (0, [], w2\<lparr>lws_rx_parse_state := LWS_RXPS_NEW, rx_ubuf_head := 0\<rparr>)"
    by (simp add: frame_bytes_def)
  moreover have "ws_view (ws_events w2) = (?ms @ [(False, p)], [])"
    using d by (auto simp: w2_def ws_view_step_def ws_data_def Let_def split: prod.splits if_splits)
  ultimately show ?thesis using p by (simp add: w2_def utf8_text_run)
qed

theorem ws_partial_utf8_accepted_witness:
  "\<exists>w'. lws_parse_ws ws_quiet_env False [0x81, 0x81, 1, 2, 3, 4, 0xc2] (ws_start ws_quiet_env) = Some (0, [], w') \<and>
     fst (ws_view (ws_events w')) = [(False, [0xc3])] \<and> \<not> utf8_text [0xc3]"
proof -
  let ?f = "\<lparr>fr_fin = True, fr_opcode = 1, fr_key = Some [1, 2, 3, 4], fr_payload = [0xc3 :: u8]\<rparr>"
  have b: "frame_bytes ?f = [0x81, 0x81, 1, 2, 3, 4, 0xc2]"
    by (simp add: frame_bytes_def frame_hdr_def frame_first_def frame_len_def frame_data_def)
  have "utf8_run 0 [0xc3] = Some 0x8c" by (simp add: utf8_next_def utf8_lead_def)
  with ws_partial_utf8_accepted [OF ws_quiet_env(1,3) ws_start_idle refl, of "[1, 2, 3, 4]" "[0xc3]" "0x8c"] show ?thesis
    unfolding b by (auto simp: ws_quiet_env(2) ws_start_view)
qed

end
