(* ===== verification/Ws_Tx.thy ===== *)
theory Ws_Tx
  imports Ws_Frames
begin

text \<open>
  The sending side of a websocket connection: \<open>lws_write\<close> of \<open>lib/core/output.c\<close>, the writer of frames
  \<open>rops_write_role_protocol_ws\<close> and the handler \<open>rops_handle_POLLOUT_ws\<close> of \<open>lib/roles/ws/ops-ws.c\<close>, and the event
  \<open>lws_handle_POLLOUT_event\<close> of \<open>lib/core/service.c\<close> that calls them. The build is without extensions, and the
  connection does not run inside of HTTP/2.

  A buffer is the memory \<open>mem\<close> that the caller owns and the index \<open>at\<close> in it to which the pointer points; the
  writer puts the header in front of it. The random numbers for the key of a client's frame are the argument \<open>rnd\<close>,
  at most four bytes, fewer when the device fails. POLLOUT is wanted when \<open>on_writable\<close> or \<open>out_on_writable\<close> is set.
\<close>

subsection \<open>The writer\<close>

abbreviation "LWS_WRITE_TEXT \<equiv> 0 :: u8"
abbreviation "LWS_WRITE_BINARY \<equiv> 1 :: u8"
abbreviation "LWS_WRITE_CONTINUATION \<equiv> 2 :: u8"
abbreviation "LWS_WRITE_HTTP \<equiv> 3 :: u8"
abbreviation "LWS_WRITE_CLOSE \<equiv> 4 :: u8"
abbreviation "LWS_WRITE_PING \<equiv> 5 :: u8"
abbreviation "LWS_WRITE_PONG \<equiv> 6 :: u8"
abbreviation "LWS_WRITE_HTTP_FINAL \<equiv> 7 :: u8"
abbreviation "LWS_WRITE_HTTP_HEADERS \<equiv> 8 :: u8"
abbreviation "LWS_WRITE_HTTP_HEADERS_CONTINUATION \<equiv> 9 :: u8"
abbreviation "LWS_WRITE_NO_FIN \<equiv> 0x40 :: u8"

definition ws_out_env :: "ws_env \<Rightarrow> out_env" where
  "ws_out_env env = \<lparr>tx_packet_size = ws_tx_packet_size env, out_rx_buffer_size = rx_buffer_size env,
     out_serv_buf_size = pt_serv_buf_size env, out_mem_ok = mem_ok env, transaction_completed = Pair False\<rparr>"

text \<open>\<open>lws_issue_raw\<close> on the output of the connection.\<close>

definition ws_issue_raw :: "ws_env \<Rightarrow> io_write \<Rightarrow> u8 list option \<Rightarrow> ws_conn \<Rightarrow> (int \<times> ws_conn) option" where
  "ws_issue_raw env io buf w =
     do { (r, out) \<leftarrow> lws_issue_raw (ws_out_env env) (lwsi_state w = LRS_FLUSHING_BEFORE_CLOSE) io buf (ws_out w);
          Some (r, w\<lparr>ws_out := out, socket_is_permanently_unusable := socket_is_permanently_unusable w \<or> out_unusable out\<rparr>) }"

text \<open>The opcode of a write type, and the bytes of the header.\<close>

definition tx_opcode :: "u8 \<Rightarrow> u8 option" where
  "tx_opcode wp =
     (let t = wp AND 0xf in
      if t = LWS_WRITE_TEXT then Some LWSWSOPC_TEXT_FRAME
      else if t = LWS_WRITE_BINARY then Some LWSWSOPC_BINARY_FRAME
      else if t = LWS_WRITE_CONTINUATION then Some LWSWSOPC_CONTINUATION
      else if t = LWS_WRITE_CLOSE then Some LWSWSOPC_CLOSE
      else if t = LWS_WRITE_PING then Some LWSWSOPC_PING
      else if t = LWS_WRITE_PONG then Some LWSWSOPC_PONG
      else None)"

definition tx_header :: "bool \<Rightarrow> u8 \<Rightarrow> nat \<Rightarrow> u8 list" where
  "tx_header masked n len =
     (let is_masked_bit = (if masked then 0x80 else 0) in
      if len < 126 then [n, of_nat len OR is_masked_bit]
      else if len < 65536 then [n, 126 OR is_masked_bit, of_nat (len div 2 ^ 8), of_nat len]
      else [n, 127 OR is_masked_bit, of_nat (len div 2 ^ 56) AND 0x7f, of_nat (len div 2 ^ 48), of_nat (len div 2 ^ 40),
            of_nat (len div 2 ^ 32), of_nat (len div 2 ^ 24), of_nat (len div 2 ^ 16), of_nat (len div 2 ^ 8), of_nat len])"

text \<open>Stores one byte after the other, from \<open>i\<close> on.\<close>

fun wrs :: "u8 list \<Rightarrow> nat \<Rightarrow> u8 list \<Rightarrow> u8 list option" where
  "wrs mem i [] = Some mem"
| "wrs mem i (b # bs) = do { mem \<leftarrow> wr mem i b; wrs mem (i + 1) bs }"

text \<open>The header goes in front of the buffer and, at a client, of the four bytes of the key: the memory, and how many
  bytes there are in front of the payload. The result \<open>Inl ()\<close> stands for a return of -1.\<close>

definition tx_put_header :: "u8 list \<Rightarrow> nat \<Rightarrow> nat \<Rightarrow> u8 \<Rightarrow> ws_conn \<Rightarrow> (unit + u8 list \<times> nat) option" where
  "tx_put_header mem at len wp w =
     (if ietf_spec_revision w = 13 then
        case tx_opcode wp of
          None \<Rightarrow> Some (Inl ())
        | Some n \<Rightarrow>
            let hdr = tx_header (lwsi_role_client w) (if wp AND LWS_WRITE_NO_FIN = 0 then n OR 0x80 else n) len;
                pre = (if lwsi_role_client w then 4 else 0) + length hdr
            in if at < pre then None else do { mem \<leftarrow> wrs mem (at - pre) hdr; Some (Inr (mem, pre)) }
      else Some (Inr (mem, 0)))"

definition lws_0405_frame_mask_generate :: "u8 list \<Rightarrow> ws_conn \<Rightarrow> int \<times> ws_conn" where
  "lws_0405_frame_mask_generate rnd w =
     (let w = w\<lparr>ws_mask := take 4 rnd @ drop (length rnd) (ws_mask w)\<rparr>
      in if length rnd < 4 then (1, w) else (0, w\<lparr>mask_idx := 0\<rparr>))"

fun tx_mask_loop :: "nat \<Rightarrow> nat \<Rightarrow> u8 list \<Rightarrow> nat \<Rightarrow> u8 list \<Rightarrow> (u8 list \<times> nat) option" where
  "tx_mask_loop 0 i key mi mem = Some (mem, mi)"
| "tx_mask_loop (Suc n) i key mi mem =
     do { b \<leftarrow> rd mem i; k \<leftarrow> rd key (mi mod 4); mem \<leftarrow> wr mem i (b XOR k); tx_mask_loop n (i + 1) key ((mi + 1) mod 256) mem }"

text \<open>\<open>pre\<close> is zero when a frame is continued; then no key is made and nothing is masked.\<close>

definition tx_mask :: "u8 list \<Rightarrow> u8 list \<Rightarrow> nat \<Rightarrow> nat \<Rightarrow> nat \<Rightarrow> ws_conn \<Rightarrow> (unit + u8 list \<times> ws_conn) option" where
  "tx_mask rnd mem at len pre w =
     (if \<not> lwsi_role_client w then Some (Inr (mem, w))
      else let (n, w) = (if inside_frame w then (0, w) else lws_0405_frame_mask_generate rnd w)
        in if n \<noteq> 0 then Some (Inl ())
           else if pre = 0 then Some (Inr (mem, w))
           else do { (mem, mi) \<leftarrow> tx_mask_loop len at (ws_mask w) (mask_idx w) mem;
                     mem \<leftarrow> memcpy_to mem (at - 4) (ws_mask w) 0 4;
                     Some (Inr (mem, w\<lparr>mask_idx := mi\<rparr>)) })"

text \<open>Sending, and the account of whether the frame is complete.\<close>

definition tx_send :: "ws_env \<Rightarrow> io_write \<Rightarrow> u8 \<Rightarrow> u8 list \<Rightarrow> nat \<Rightarrow> nat \<Rightarrow> nat \<Rightarrow> ws_conn \<Rightarrow> (int \<times> u8 list \<times> ws_conn) option" where
  "tx_send env io wp mem at len pre w =
     do { frame \<leftarrow> rds mem (at - pre) (len + pre);
          (n, w) \<leftarrow> ws_issue_raw env io (Some frame) w;
          let t = wp AND 0x1f;
          if t = LWS_WRITE_TEXT \<or> t = LWS_WRITE_BINARY \<or> t = LWS_WRITE_CONTINUATION then
            (if n \<le> 0 then Some (n, mem, w\<lparr>inside_frame := True\<rparr>)
             else if n = int len + int pre then Some (int len, mem, w\<lparr>inside_frame := False\<rparr>)
             else Some (n - int pre, mem, w\<lparr>inside_frame := True\<rparr>))
          else Some (n, mem, w) }"

definition rops_write_role_protocol_ws ::
  "ws_env \<Rightarrow> u8 list \<Rightarrow> io_write \<Rightarrow> u8 list \<Rightarrow> nat \<Rightarrow> nat \<Rightarrow> u8 \<Rightarrow> ws_conn \<Rightarrow> (int \<times> u8 list \<times> ws_conn) option" where
  "rops_write_role_protocol_ws env rnd io mem at len wp w =
     (let w = lws_restart_ws_ping_pong_timer env w; t = wp AND 0x1f in
      if t = LWS_WRITE_HTTP \<or> t = LWS_WRITE_HTTP_FINAL \<or> t = LWS_WRITE_HTTP_HEADERS_CONTINUATION \<or> t = LWS_WRITE_HTTP_HEADERS then
        do { frame \<leftarrow> rds mem at len; (n, w) \<leftarrow> ws_issue_raw env io (Some frame) w; Some (n, mem, w) }
      else do {
        h \<leftarrow> (if inside_frame w then Some (Inr (mem, 0)) else tx_put_header mem at len wp w);
        case h of Inl _ \<Rightarrow> Some (- 1, mem, w)
        | Inr (mem, pre) \<Rightarrow> do {
            m \<leftarrow> tx_mask rnd mem at len pre w;
            case m of Inl _ \<Rightarrow> Some (- 1, mem, snd (lws_0405_frame_mask_generate rnd w))
            | Inr (mem, w) \<Rightarrow> tx_send env io wp mem at len pre w } })"

definition lws_write ::
  "ws_env \<Rightarrow> u8 list \<Rightarrow> io_write \<Rightarrow> u8 list \<Rightarrow> nat \<Rightarrow> nat \<Rightarrow> u8 \<Rightarrow> ws_conn \<Rightarrow> (int \<times> u8 list \<times> ws_conn) option" where
  "lws_write env rnd io mem at len wp w =
     (if int_of32 (len mod 2 ^ 32) < 0 then Some (- 1, mem, w) else rops_write_role_protocol_ws env rnd io mem at len wp w)"

subsection \<open>Writable\<close>

datatype lws_handling_result = LWS_HP_RET_USER_SERVICE | LWS_HP_RET_BAIL_OK | LWS_HP_RET_BAIL_DIE

text \<open>A write from the buffer that holds pings and the reason of a close.\<close>

definition write_ping_buf ::
  "ws_env \<Rightarrow> u8 list \<Rightarrow> io_write \<Rightarrow> nat \<Rightarrow> u8 \<Rightarrow> ws_conn \<Rightarrow> (int \<times> ws_conn) option" where
  "write_ping_buf env rnd io len wp w =
     do { (n, pb, w) \<leftarrow> lws_write env rnd io (ping_payload_buf w) LWS_PRE len wp w; Some (n, w\<lparr>ping_payload_buf := pb\<rparr>) }"

definition rops_handle_POLLOUT_ws :: "ws_env \<Rightarrow> u8 list \<Rightarrow> io_write \<Rightarrow> ws_conn \<Rightarrow> (lws_handling_result \<times> ws_conn) option" where
  "rops_handle_POLLOUT_ws env rnd io w =
     (if lwsi_state w = LRS_WAITING_TO_SEND_CLOSE then do {
        (n, w) \<leftarrow> write_ping_buf env rnd io (close_in_ping_buffer_len w) LWS_WRITE_CLOSE (w\<lparr>waiting_to_send_close_frame := False\<rparr>);
        if n \<ge> 0 then
          if close_needs_ack w then
            Some (LWS_HP_RET_BAIL_OK, w\<lparr>lwsi_state := LRS_AWAITING_CLOSE_ACK, pending_timeout := PENDING_TIMEOUT_CLOSE_ACK\<rparr>)
          else Some (LWS_HP_RET_BAIL_DIE, w\<lparr>close_needs_ack := False, lwsi_state := LRS_RETURNED_CLOSE\<rparr>)
        else Some (LWS_HP_RET_BAIL_DIE, w) }
      else if ping_pending_flag w \<or> lwsi_state w = LRS_RETURNED_CLOSE \<and> payload_is_close w then
        if \<not> payload_is_close w \<and> wsistate_pre_close w then Some (LWS_HP_RET_BAIL_OK, w\<lparr>ping_pending_flag := False\<rparr>)
        else do {
          (n, w) \<leftarrow> write_ping_buf env rnd io (ping_payload_len w) (if payload_is_close w then LWS_WRITE_CLOSE else LWS_WRITE_PONG) w;
          if n < 0 then Some (LWS_HP_RET_BAIL_DIE, w)
          else let w = w\<lparr>ping_pending_flag := False\<rparr>
            in Some (if payload_is_close w then LWS_HP_RET_BAIL_DIE else LWS_HP_RET_BAIL_OK, w) }
      else if \<not> socket_is_permanently_unusable w \<and> send_check_ping w then do {
        (n, w) \<leftarrow> write_ping_buf env rnd io 0 LWS_WRITE_PING (w\<lparr>send_check_ping := False\<rparr>);
        if n < 0 then Some (LWS_HP_RET_BAIL_DIE, w)
        else Some (LWS_HP_RET_BAIL_OK, w\<lparr>pending_timeout := PENDING_TIMEOUT_WS_PONG_CHECK_GET_PONG\<rparr>) }
      else Some (LWS_HP_RET_USER_SERVICE, w))"

text \<open>What the user's callback writes when it is told that the connection is writable: the memory of the buffer with the
  room in front of it, and the write type.\<close>

record user_write =
  uw_wp :: u8
  uw_room :: "u8 list"
  uw_buf :: "u8 list"
  uw_rnd :: "u8 list"
  uw_io :: io_write

fun user_writes :: "ws_env \<Rightarrow> user_write list \<Rightarrow> ws_conn \<Rightarrow> ws_conn option" where
  "user_writes env [] w = Some w"
| "user_writes env (u # us) w =
     do { (_, _, w) \<leftarrow> lws_write env (uw_rnd u) (uw_io u) (uw_room u @ uw_buf u) (length (uw_room u)) (length (uw_buf u)) (uw_wp u) w;
          user_writes env us w }"

text \<open>\<open>user_callback_handle_rxflow\<close> with a callback that writes: the callback is entered, which is the event, makes its
  writes and returns, and only then its result is looked at and a change of the flow control applied.\<close>

definition lws_callback_as_writeable :: "ws_env \<Rightarrow> user_write list \<Rightarrow> ws_conn \<Rightarrow> (int \<times> ws_conn) option" where
  "lws_callback_as_writeable env us w =
     (let ev = (if lwsi_role_client w then LWS_CALLBACK_CLIENT_WRITEABLE else LWS_CALLBACK_SERVER_WRITEABLE)
      in do { w \<leftarrow> user_writes env us (w\<lparr>ws_events := ws_events w @ [ev]\<rparr>); Some (cb_result env (ws_events w), w) })"

definition ws_pollout_off :: "ws_conn \<Rightarrow> ws_conn" where
  "ws_pollout_off w = w\<lparr>on_writable := False, ws_out := (ws_out w)\<lparr>out_on_writable := False\<rparr>\<rparr>"

definition lws_handle_POLLOUT_event ::
  "ws_env \<Rightarrow> u8 list \<Rightarrow> io_write \<Rightarrow> user_write list \<Rightarrow> ws_conn \<Rightarrow> (int \<times> ws_conn) option" where
  "lws_handle_POLLOUT_event env rnd io us w =
     (let w = w\<lparr>ws_out := (ws_out w)\<lparr>could_have_pending := False\<rparr>\<rparr> in
      if lws_has_buffered_out (ws_out w) then
        do { (n, w) \<leftarrow> ws_issue_raw env io None w; Some (if n < 0 then - 1 else 0, w) }
      else if lwsi_state w = LRS_FLUSHING_BEFORE_CLOSE then Some (- 1, w\<lparr>socket_is_permanently_unusable := True\<rparr>)
      else do {
        (r, w) \<leftarrow> rops_handle_POLLOUT_ws env rnd io w;
        case r of
          LWS_HP_RET_BAIL_OK \<Rightarrow> Some (0, w)
        | LWS_HP_RET_BAIL_DIE \<Rightarrow> Some (- 1, w)
        | LWS_HP_RET_USER_SERVICE \<Rightarrow>
            let w = ws_pollout_off w in
            if lwsi_role_client w \<and> \<not> hdr_parsing_completed w then Some (0, w)
            else lws_callback_as_writeable env us w })"


subsection \<open>The writer writes frames\<close>

text \<open>The frame that a write stands for.\<close>

definition tx_frame :: "bool \<Rightarrow> u8 \<Rightarrow> u8 list \<Rightarrow> u8 list \<Rightarrow> ws_frame option" where
  "tx_frame client wp rnd payload =
     map_option (\<lambda>opc. \<lparr>fr_fin = wp AND LWS_WRITE_NO_FIN = 0, fr_opcode = opc,
       fr_key = if client then Some (take 4 rnd) else None, fr_payload = payload\<rparr>) (tx_opcode wp)"

lemma wrs_ok [mem_simps]:
  "i + length bs \<le> length mem \<Longrightarrow> wrs mem i bs = Some (take i mem @ bs @ drop (i + length bs) mem)"
proof (induction bs arbitrary: mem i)
  case (Cons b bs)
  then have "wrs mem i (b # bs) = Some (take (i + 1) (mem[i := b]) @ bs @ drop (i + 1 + length bs) (mem[i := b]))"
    by (simp add: wr_Some)
  also have "take (i + 1) (mem[i := b]) = take i mem @ [b]" using Cons.prems by (simp add: take_Suc_conv_app_nth)
  finally show ?case by simp
qed simp

lemma tx_header_frame:
  assumes "length p < 2 ^ 31" "tx_opcode wp = Some opc"
  shows "tx_header m (if wp AND LWS_WRITE_NO_FIN = 0 then opc OR 0x80 else opc) (length p) =
    frame_first \<lparr>fr_fin = wp AND LWS_WRITE_NO_FIN = 0, fr_opcode = opc, fr_key = k, fr_payload = p\<rparr> # frame_len m (length p)"
proof -
  have "length p div 2 ^ 56 = 0" using assms(1) by simp
  then show ?thesis by (simp add: tx_header_def frame_first_def frame_len_def Let_def or.commute)
qed

lemma tx_mask_loop_ok:
  assumes "length key = 4" "mi < 256"
  shows "tx_mask_loop (length p) (length a) key mi (a @ p @ c) = Some (a @ xor_mask key mi p @ c, (mi + length p) mod 256)"
  using assms(2)
proof (induction p arbitrary: a mi)
  case (Cons b p)
  have "mi mod 4 < length key" using assms(1) by simp
  moreover have "((mi + 1) mod 256) mod 4 = (mi + 1) mod 4" by (simp add: mod_mod_cancel)
  moreover have "tx_mask_loop (length p) (length (a @ [b XOR key ! (mi mod 4)])) key ((mi + 1) mod 256) ((a @ [b XOR key ! (mi mod 4)]) @ p @ c) =
      Some ((a @ [b XOR key ! (mi mod 4)]) @ xor_mask key ((mi + 1) mod 256) p @ c, ((mi + 1) mod 256 + length p) mod 256)"
    by (rule Cons.IH) simp
  moreover have "xor_mask key ((mi + 1) mod 256) p = xor_mask key (mi + 1) p"
    by (rule xor_mask_mod) (simp add: mod_mod_cancel)
  ultimately show ?case by (simp add: rd_Some wr_Some nth_append list_update_append mod_simps add.assoc)
qed simp

lemma tx_header_length: "length (tx_header m n len) \<le> 10"
  by (simp add: tx_header_def Let_def)

text \<open>A connection that can start a frame.\<close>

definition tx_ready :: "ws_env \<Rightarrow> ws_conn \<Rightarrow> bool" where
  "tx_ready env w \<longleftrightarrow> \<not> inside_frame w \<and> ietf_spec_revision w = 13 \<and> lwsi_state w = LRS_ESTABLISHED \<and> length (ws_mask w) = 4 \<and>
     out_inv (ws_out w) \<and> mem_ok env"

text \<open>The write types of frames: not those of HTTP.\<close>

definition wp_frame :: "u8 \<Rightarrow> bool" where
  "wp_frame wp \<longleftrightarrow> wp AND 0x1f \<in> {LWS_WRITE_TEXT, LWS_WRITE_BINARY, LWS_WRITE_CONTINUATION, LWS_WRITE_CLOSE, LWS_WRITE_PING, LWS_WRITE_PONG}"

definition wp_data :: "u8 \<Rightarrow> bool" where
  "wp_data wp \<longleftrightarrow> wp AND 0x1f \<in> {LWS_WRITE_TEXT, LWS_WRITE_BINARY, LWS_WRITE_CONTINUATION}"

lemma wp_low: "(wp AND 0x1f) AND 0xf = wp AND (0xf :: u8)"
  by (simp add: and.assoc)

lemma wp_frame_opcode: "wp_frame wp \<Longrightarrow> \<exists>opc. tx_opcode wp = Some opc"
  using wp_low [of wp] by (auto simp: wp_frame_def tx_opcode_def Let_def)

text \<open>A masked frame in memory.\<close>

lemma tx_mask_client:
  assumes "lwsi_role_client w" "\<not> inside_frame w" "length rnd = 4" "length (ws_mask w) = 4" "pre \<noteq> 0" "length k4 = 4"
  shows "tx_mask rnd (a @ k4 @ p @ rest) (length a + 4) (length p) pre w =
    Some (Inr (a @ rnd @ xor_mask rnd 0 p @ rest, w\<lparr>ws_mask := rnd, mask_idx := length p mod 256\<rparr>))"
proof -
  have m: "tx_mask_loop (length p) (length (a @ k4)) rnd 0 ((a @ k4) @ p @ rest) = Some ((a @ k4) @ xor_mask rnd 0 p @ rest, (0 + length p) mod 256)"
    by (rule tx_mask_loop_ok) (use assms in simp_all)
  have "memcpy_to (a @ k4 @ xor_mask rnd 0 p @ rest) (length a) rnd 0 4 = Some (a @ rnd @ xor_mask rnd 0 p @ rest)"
    using assms by (simp add: memcpy_to_Some)
  with m assms show ?thesis by (simp add: tx_mask_def lws_0405_frame_mask_generate_def)
qed

text \<open>The writer puts the frame in memory and sends it; of the connection only the key and the timer change before that.\<close>

lemma write_frame:
  assumes rdy: "\<not> inside_frame w" "ietf_spec_revision w = 13" "length (ws_mask w) = 4" and wp: "wp_frame wp"
    and f: "tx_frame (lwsi_role_client w) wp rnd p = Some f" and p: "length p < 2 ^ 31" and room: "14 \<le> length room"
    and rnd: "lwsi_role_client w \<Longrightarrow> length rnd = 4"
  obtains mem pre t k i where "lws_write env rnd io (room @ p @ rest) (length room) (length p) wp w =
      tx_send env io wp mem (length room) (length p) pre (w\<lparr>time_next_ping_check := t, ws_mask := k, mask_idx := i\<rparr>)"
    "rds mem (length room - pre) (length p + pre) = Some (frame_bytes f)" "length k = 4" "length mem = length (room @ p @ rest)"
proof -
  let ?c = "lwsi_role_client w"
  let ?w = "lws_restart_ws_ping_pong_timer env w"
  obtain t where w: "?w = w\<lparr>time_next_ping_check := t\<rparr>"
  proof (cases "ws_ping_pong_interval env = 0")
    case True
    then have "?w = w\<lparr>time_next_ping_check := time_next_ping_check w\<rparr>" by (simp add: lws_restart_ws_ping_pong_timer_def)
    then show ?thesis by (rule that)
  qed (auto simp: lws_restart_ws_ping_pong_timer_def intro: that)
  obtain opc where opc: "tx_opcode wp = Some opc" using wp_frame_opcode [OF wp] by blast
  let ?h = "tx_header ?c (if wp AND LWS_WRITE_NO_FIN = 0 then opc OR 0x80 else opc) (length p)"
  let ?pre = "(if ?c then 4 else 0) + length ?h"
  have f': "f = \<lparr>fr_fin = wp AND LWS_WRITE_NO_FIN = 0, fr_opcode = opc, fr_key = if ?c then Some (take 4 rnd) else None, fr_payload = p\<rparr>"
    using f opc by (simp add: tx_frame_def)
  have h: "?h = frame_first f # frame_len ?c (length p)"
    unfolding f' by (rule tx_header_frame [OF p opc])
  have pre: "?pre \<le> length room" using tx_header_length [of ?c "if wp AND LWS_WRITE_NO_FIN = 0 then opc OR 0x80 else opc" "length p"] room by auto
  have i32: "\<not> int_of32 (length p mod 2 ^ 32) < 0" using p by (simp add: int_of32_small)
  have http: "wp AND 0x1f \<notin> {LWS_WRITE_HTTP, LWS_WRITE_HTTP_FINAL, LWS_WRITE_HTTP_HEADERS_CONTINUATION, LWS_WRITE_HTTP_HEADERS}"
    using wp by (auto simp: wp_frame_def)
  define a where "a = take (length room - ?pre) room"
  define k4 where "k4 = drop (length room - (if ?c then 4 else 0)) room"
  have la: "length a + ?pre = length room" "length k4 = (if ?c then 4 else 0)" using pre by (auto simp: a_def k4_def)
  have put: "tx_put_header (room @ p @ rest) (length room) (length p) wp ?w = Some (Inr (a @ ?h @ k4 @ p @ rest, ?pre))"
  proof -
    have "drop (length room - ?pre + length ?h) (room @ p @ rest) = k4 @ p @ rest"
      using pre by (auto simp: k4_def)
    moreover have "take (length room - ?pre) (room @ p @ rest) = a" by (simp add: a_def)
    ultimately have "wrs (room @ p @ rest) (length room - ?pre) ?h = Some (a @ ?h @ k4 @ p @ rest)"
      using pre by (subst wrs_ok) auto
    then show ?thesis using opc rdy(2) pre by (simp add: tx_put_header_def w Let_def)
  qed
  let ?k = "if ?c then rnd else ws_mask w" and ?i = "if ?c then length p mod 256 else mask_idx w"
  let ?m = "a @ ?h @ (if ?c then rnd else []) @ frame_data f @ rest"
  have mask: "tx_mask rnd (a @ ?h @ k4 @ p @ rest) (length room) (length p) ?pre ?w = Some (Inr (?m, ?w\<lparr>ws_mask := ?k, mask_idx := ?i\<rparr>))"
  proof (cases ?c)
    case True
    have "tx_mask rnd ((a @ ?h) @ k4 @ p @ rest) (length (a @ ?h) + 4) (length p) ?pre ?w =
        Some (Inr ((a @ ?h) @ rnd @ xor_mask rnd 0 p @ rest, ?w\<lparr>ws_mask := rnd, mask_idx := length p mod 256\<rparr>))"
      by (rule tx_mask_client) (use True rdy la rnd in \<open>simp_all add: w\<close>)
    moreover have "length (a @ ?h) + 4 = length room" using la True by simp
    ultimately show ?thesis using True rnd f' by (simp add: frame_data_def)
  qed (use la in \<open>simp add: tx_mask_def w f' frame_data_def\<close>)
  have "lws_write env rnd io (room @ p @ rest) (length room) (length p) wp w =
      tx_send env io wp ?m (length room) (length p) ?pre (?w\<lparr>ws_mask := ?k, mask_idx := ?i\<rparr>)"
    using put mask i32 http rdy(1) by (simp add: lws_write_def rops_write_role_protocol_ws_def Let_def w)
  moreover have "rds ?m (length room - ?pre) (length p + ?pre) = Some (frame_bytes f)"
  proof -
    have "frame_bytes f = ?h @ (if ?c then rnd else []) @ frame_data f"
      using h f' rnd by (simp add: frame_bytes_def frame_hdr_def)
    moreover have "length (frame_data f) = length p" by (simp add: f' frame_data_def)
    ultimately show ?thesis using la rnd by (auto simp: rds_def)
  qed
  moreover have "length ?m = length (room @ p @ rest)" using la rnd by (auto simp: f' frame_data_def)
  ultimately show ?thesis using rnd rdy(3) w by (intro that [where mem = ?m and pre = ?pre and t = t and k = ?k and i = ?i]) auto
qed

lemma tx_send_eq:
  assumes "rds mem (at - pre) (len + pre) = Some frame" "ws_issue_raw env io (Some frame) w = Some (n, w')"
  shows "tx_send env io wp mem at len pre w =
    (if wp_data wp then
       if n \<le> 0 then Some (n, mem, w'\<lparr>inside_frame := True\<rparr>)
       else if n = int len + int pre then Some (int len, mem, w'\<lparr>inside_frame := False\<rparr>)
       else Some (n - int pre, mem, w'\<lparr>inside_frame := True\<rparr>)
     else Some (n, mem, w'))"
  using assms by (simp add: tx_send_def wp_data_def Let_def)

text \<open>Inside of a frame the writer of a server adds nothing.\<close>

lemma write_inside:
  assumes "inside_frame w" "\<not> lwsi_role_client w" "wp_data wp" "length p < 2 ^ 31"
  shows "lws_write env rnd io (room @ p) (length room) (length p) wp w =
    tx_send env io wp (room @ p) (length room) (length p) 0 (lws_restart_ws_ping_pong_timer env w)"
proof -
  have "\<not> int_of32 (length p mod 2 ^ 32) < 0" using assms(4) by (simp add: int_of32_small)
  moreover have "wp AND 0x1f \<notin> {LWS_WRITE_HTTP, LWS_WRITE_HTTP_FINAL, LWS_WRITE_HTTP_HEADERS_CONTINUATION, LWS_WRITE_HTTP_HEADERS}"
    using assms(3) by (auto simp: wp_data_def)
  ultimately show ?thesis using assms(1,2)
    by (simp add: lws_write_def rops_write_role_protocol_ws_def Let_def lws_restart_ws_ping_pong_timer_def tx_mask_def)
qed

text \<open>What a write leaves alone.\<close>

definition tx_kept :: "ws_conn \<Rightarrow> ws_conn \<Rightarrow> bool" where
  "tx_kept w w' \<longleftrightarrow> lwsi_role_client w' = lwsi_role_client w \<and>
     hdr_parsing_completed w' = hdr_parsing_completed w \<and>
     lwsi_state w' = lwsi_state w \<and>
     payload_is_close w' = payload_is_close w \<and>
     wsistate_pre_close w' = wsistate_pre_close w \<and>
     ping_pending_flag w' = ping_pending_flag w \<and>
     ping_payload_len w' = ping_payload_len w \<and>
     ping_payload_buf w' = ping_payload_buf w \<and>
     send_check_ping w' = send_check_ping w \<and>
     ws_events w' = ws_events w \<and>
     on_writable w' = on_writable w \<and>
     ws_in w' = ws_in w"

lemma tx_kept_refl: "tx_kept w w"
  by (simp add: tx_kept_def)

lemma tx_kept_trans: "tx_kept w w1 \<Longrightarrow> tx_kept w1 w2 \<Longrightarrow> tx_kept w w2"
  by (simp add: tx_kept_def)

text \<open>A frame that is written when nothing is kept, or a control frame at any time: the frame follows what was sent before,
  and the next write starts a new frame.\<close>

lemma write_frame_ok:
  assumes rdy: "tx_ready env w" and wp: "wp_frame wp"
    and f: "tx_frame (lwsi_role_client w) wp rnd p = Some f" and p: "length p < 2 ^ 31 - 14" and room: "14 \<le> length room"
    and rnd: "lwsi_role_client w \<Longrightarrow> length rnd = 4" and io: "io \<noteq> Io_fails"
    and fr: "buflist_out (ws_out w) = [] \<or> \<not> wp_data wp \<and> length (buflist_out (ws_out w)) < 1024"
  obtains r mem w' where "lws_write env rnd io (room @ p @ rest) (length room) (length p) wp w = Some (r, mem, w')" "0 \<le> r"
    "tx_ready env w'" "out_bytes (ws_out w') = out_bytes (ws_out w) @ frame_bytes f" "tx_kept w w'"
    "out_unusable (ws_out w') = out_unusable (ws_out w)" "length mem = length (room @ p @ rest)"
    "socket_is_permanently_unusable w' = (socket_is_permanently_unusable w \<or> out_unusable (ws_out w))"
    "length (buflist_bytes (buflist_out (ws_out w'))) \<le> length (buflist_bytes (buflist_out (ws_out w))) + length (frame_bytes f)"
proof -
  have w: "\<not> inside_frame w" "ietf_spec_revision w = 13" "length (ws_mask w) = 4" and out: "out_inv (ws_out w)" "out_mem_ok (ws_out_env env)"
    and st: "lwsi_state w \<noteq> LRS_FLUSHING_BEFORE_CLOSE"
    using rdy by (auto simp: tx_ready_def ws_out_env_def)
  have p31: "length p < 2 ^ 31" using p by simp
  obtain mem pre t k i where s: "lws_write env rnd io (room @ p @ rest) (length room) (length p) wp w =
      tx_send env io wp mem (length room) (length p) pre (w\<lparr>time_next_ping_check := t, ws_mask := k, mask_idx := i\<rparr>)"
    "rds mem (length room - pre) (length p + pre) = Some (frame_bytes f)" "length k = 4" "length mem = length (room @ p @ rest)"
    by (rule write_frame [OF w wp f p31 room rnd])
  have fl: "length (frame_bytes f) = length p + pre" using rds_length [OF s(2)] .
  have ne: "frame_bytes f \<noteq> []" by (simp add: frame_bytes_def frame_hdr_def)
  have "length (frame_bytes f) \<le> length p + 14"
    using f rnd by (auto simp: tx_frame_def frame_bytes_def frame_hdr_def frame_len_def frame_data_def Let_def split: if_splits)
  then have fb: "length (frame_bytes f) < 2 ^ 31" using p by simp
  have "\<exists>r out'. lws_issue_raw (ws_out_env env) False io (Some (frame_bytes f)) (ws_out w) = Some (r, out') \<and>
      issue_good (ws_out w) (Some (frame_bytes f)) (r, out') \<and> (wp_data wp \<longrightarrow> r = int (length (frame_bytes f)))"
  proof (cases "buflist_out (ws_out w) = []")
    case True
    from issue_raw_first [OF out(1) this io out(2) ne fb] show ?thesis by metis
  next
    case False
    with fr have "length (buflist_out (ws_out w)) < 1024" "\<not> wp_data wp" by auto
    then show ?thesis using issue_raw_ok [OF out(1) io out(2), of "Some (frame_bytes f)"] ne fb by (metis option.sel surj_pair)
  qed
  then obtain r out' where o: "lws_issue_raw (ws_out_env env) False io (Some (frame_bytes f)) (ws_out w) = Some (r, out')"
    "issue_good (ws_out w) (Some (frame_bytes f)) (r, out')" "wp_data wp \<longrightarrow> r = int (length (frame_bytes f))" by blast
  define w2 where "w2 = w\<lparr>time_next_ping_check := t, ws_mask := k, mask_idx := i, ws_out := out',
    socket_is_permanently_unusable := socket_is_permanently_unusable w \<or> out_unusable out'\<rparr>"
  have i2: "w2\<lparr>inside_frame := False\<rparr> = w2" using w(1) by (simp add: w2_def)
  have "ws_issue_raw env io (Some (frame_bytes f)) (w\<lparr>time_next_ping_check := t, ws_mask := k, mask_idx := i\<rparr>) = Some (r, w2)"
    using st o(1) by (simp add: ws_issue_raw_def w2_def)
  note te = tx_send_eq [OF s(2) this]
  have pos: "0 < length p + pre" using fl ne by (metis length_greater_0_conv)
  have send: "lws_write env rnd io (room @ p @ rest) (length room) (length p) wp w = Some (if wp_data wp then int (length p) else r, mem, w2)"
  proof (cases "wp_data wp")
    case True
    with o(3) fl have r: "r = int (length p) + int pre" by simp
    with pos have "\<not> r \<le> 0" by linarith
    with True r show ?thesis by (simp add: s(1) te i2)
  qed (simp add: s(1) te)
  show ?thesis
    by (rule that [OF send]) (use o(2) s(3,4) rdy in \<open>auto simp: issue_good_def given_def tx_kept_def tx_ready_def w2_def\<close>)
qed

text \<open>C32: a data frame that a server writes while older bytes still wait to be sent breaks the stream. When the socket takes nothing,
  \<open>lws_issue_raw\<close> answers with how much of the older bytes it has sent, zero, and not with the length of the frame
  it has queued; the writer takes that for a frame that is not complete yet, and the next data is sent
  without a header, as if it were payload of the first frame.\<close>

theorem ws_write_behind_pending:
  assumes "tx_ready env w" "\<not> lwsi_role_client w" "wp_data wp1" "wp_data wp2" "buflist_out (ws_out w) \<noteq> []" "length (buflist_out (ws_out w)) < 1023"
    and "length p1 < 2 ^ 31 - 14" "length p2 < 2 ^ 31 - 14" "p2 \<noteq> []" "14 \<le> length room"
  shows "\<exists>w1 w2 mem1 mem2 f1. lws_write env [] Io_later (room @ p1) (length room) (length p1) wp1 w = Some (0, mem1, w1) \<and>
    lws_write env [] Io_later (room @ p2) (length room) (length p2) wp2 w1 = Some (0, mem2, w2) \<and>
    tx_frame False wp1 [] p1 = Some f1 \<and> out_bytes (ws_out w2) = out_bytes (ws_out w) @ frame_bytes f1 @ p2"
proof -
  have w: "\<not> inside_frame w" "ietf_spec_revision w = 13" "length (ws_mask w) = 4" and out: "out_inv (ws_out w)" "out_mem_ok (ws_out_env env)"
    and st: "lwsi_state w \<noteq> LRS_FLUSHING_BEFORE_CLOSE"
    using assms by (auto simp: tx_ready_def ws_out_env_def)
  have wp: "wp_frame wp1" using assms(3) by (auto simp: wp_data_def wp_frame_def)
  from wp_frame_opcode [OF wp] obtain f1 where f: "tx_frame (lwsi_role_client w) wp1 [] p1 = Some f1" by (auto simp: tx_frame_def)
  have p31: "length p1 < 2 ^ 31" using assms by simp
  obtain mem pre t k i where s: "lws_write env [] Io_later (room @ p1 @ []) (length room) (length p1) wp1 w =
      tx_send env Io_later wp1 mem (length room) (length p1) pre (w\<lparr>time_next_ping_check := t, ws_mask := k, mask_idx := i\<rparr>)"
    "rds mem (length room - pre) (length p1 + pre) = Some (frame_bytes f1)" "length k = 4"
    by (rule write_frame [OF w wp f p31 assms(10), where env = env and io = Io_later and rest = "[]"]) (use assms(2) in simp)
  have fb: "frame_bytes f1 \<noteq> []" "length (frame_bytes f1) < 2 ^ 31"
    using f assms(2,7) by (auto simp: tx_frame_def frame_bytes_def frame_hdr_def frame_len_def frame_data_def Let_def split: if_splits)
  have n: "length (buflist_out (ws_out w)) < 1024" using assms(6) by simp
  from issue_raw_later [OF out(1) assms(5) out(2) n fb] obtain out1 where
    o1: "lws_issue_raw (ws_out_env env) False Io_later (Some (frame_bytes f1)) (ws_out w) = Some (0, out1)"
      "issue_good (ws_out w) (Some (frame_bytes f1)) (0, out1)" "buflist_out out1 \<noteq> []" .
  define w1 where "w1 = w\<lparr>time_next_ping_check := t, ws_mask := k, mask_idx := i, ws_out := out1,
    socket_is_permanently_unusable := socket_is_permanently_unusable w \<or> out_unusable out1, inside_frame := True\<rparr>"
  have 1: "lws_write env [] Io_later (room @ p1) (length room) (length p1) wp1 w = Some (0, mem, w1)"
    using s(1) st o1(1) assms(3) by (simp add: tx_send_eq [OF s(2)] ws_issue_raw_def w1_def)
  have "length (buflist_out out1) < 1024" "out_inv out1" using o1(2) assms(6) by (auto simp: issue_good_def)
  moreover have "length p2 < 2 ^ 31" using assms(8) by simp
  ultimately obtain out2 where
    o2: "lws_issue_raw (ws_out_env env) False Io_later (Some p2) out1 = Some (0, out2)" "issue_good out1 (Some p2) (0, out2)"
    using issue_raw_later [OF _ o1(3) out(2) _ assms(9)] by metis
  have st1: "lwsi_state (lws_restart_ws_ping_pong_timer env w1) \<noteq> LRS_FLUSHING_BEFORE_CLOSE" "ws_out (lws_restart_ws_ping_pong_timer env w1) = out1"
    using st by (simp_all add: w1_def lws_restart_ws_ping_pong_timer_def)
  have "rds (room @ p2) (length room - 0) (length p2 + 0) = Some p2" by (simp add: rds_def)
  then have "\<exists>w2. lws_write env [] Io_later (room @ p2) (length room) (length p2) wp2 w1 = Some (0, room @ p2, w2) \<and> ws_out w2 = out2"
    using write_inside [of w1 wp2 p2 env "[]" Io_later room] o2(1) assms(2,4,8) st1 by (simp add: tx_send_eq ws_issue_raw_def w1_def)
  moreover have "out_bytes out2 = out_bytes (ws_out w) @ frame_bytes f1 @ p2" using o1(2) o2(2) by (simp add: issue_good_def given_def)
  ultimately show ?thesis using 1 f assms(2) by auto
qed

text \<open>A server with one byte waiting in its list.\<close>

definition ws_waiting :: ws_conn where
  "ws_waiting = (ws_start ws_quiet_env)
     \<lparr>ws_out := out_empty\<lparr>buflist_out := [\<lparr>seg_len = 1, seg_pos = 0, seg_buf = [0x7a]\<rparr>], out_on_writable := True\<rparr>\<rparr>"

lemma ws_waiting_ready: "tx_ready ws_quiet_env ws_waiting"
  by (simp add: tx_ready_def ws_waiting_def ws_start_def lws_server_init_wsi_for_ws_def lws_restart_ws_ping_pong_timer_def Let_def ws_zero_def
      ws_quiet_env_def ws_demo_env_def out_inv_def out_empty_def seg_inv_def)

lemma ws_waiting_server: "\<not> lwsi_role_client ws_waiting"
  by (simp add: ws_waiting_def ws_start_def lws_server_init_wsi_for_ws_def lws_restart_ws_ping_pong_timer_def Let_def ws_zero_def
      ws_quiet_env_def ws_demo_env_def)

theorem ws_write_behind_pending_witness:
  "\<exists>w1 w2 mem1 mem2 f1. lws_write ws_quiet_env [] Io_later (replicate 16 0 @ bytes_of ''A'') 16 1 LWS_WRITE_TEXT ws_waiting = Some (0, mem1, w1) \<and>
    lws_write ws_quiet_env [] Io_later (replicate 16 0 @ bytes_of ''B'') 16 1 LWS_WRITE_TEXT w1 = Some (0, mem2, w2) \<and>
    tx_frame False LWS_WRITE_TEXT [] (bytes_of ''A'') = Some f1 \<and>
    out_bytes (ws_out w2) = [0x7a] @ frame_bytes f1 @ bytes_of ''B''"
proof -
  have "out_bytes (ws_out ws_waiting) = [0x7a]" "length (buflist_out (ws_out ws_waiting)) = 1" "buflist_out (ws_out ws_waiting) \<noteq> []"
    by (simp_all add: ws_waiting_def out_bytes_def out_empty_def seg_bytes_def)
  then show ?thesis
    using ws_write_behind_pending [OF ws_waiting_ready ws_waiting_server, of LWS_WRITE_TEXT LWS_WRITE_TEXT "bytes_of ''A''" "bytes_of ''B''" "replicate 16 0"]
    by (simp add: wp_data_def)
qed


subsection \<open>A ping is answered\<close>

text \<open>What the event needs of a connection to get a pong out: no close is under way.\<close>

definition tx_calm :: "ws_conn \<Rightarrow> bool" where
  "tx_calm w \<longleftrightarrow> \<not> lwsi_role_client w \<and> \<not> payload_is_close w \<and> \<not> wsistate_pre_close w \<and>
     length (ping_payload_buf w) = 128 - 3 + LWS_PRE"

text \<open>The POLLOUT events of a connection; a result other than zero closes it.\<close>

fun ws_pollouts :: "ws_env \<Rightarrow> user_write list \<Rightarrow> io_write list \<Rightarrow> ws_conn \<Rightarrow> ws_conn option" where
  "ws_pollouts env us [] w = Some w"
| "ws_pollouts env us (io # ios) w =
     do { (r, w) \<leftarrow> lws_handle_POLLOUT_event env [] io us w; if r = 0 then ws_pollouts env us ios w else None }"

text \<open>An event while something is kept sends some of it and changes nothing else.\<close>

lemma pollout_flush:
  assumes rdy: "tx_ready env w" and ne: "buflist_out (ws_out w) \<noteq> []" and k: "io = Io_takes k" "0 < k" "0 < issue_raw_limit (ws_out_env env)"
  obtains w' where "lws_handle_POLLOUT_event env rnd io us w = Some (0, w')" "tx_ready env w'" "tx_kept w w'"
    "out_bytes (ws_out w') = out_bytes (ws_out w)" "out_unusable (ws_out w') = out_unusable (ws_out w)"
    "length (buflist_bytes (buflist_out (ws_out w'))) < length (buflist_bytes (buflist_out (ws_out w)))"
    "socket_is_permanently_unusable w' = (socket_is_permanently_unusable w \<or> out_unusable (ws_out w))"
proof -
  define o0 where "o0 = (ws_out w)\<lparr>could_have_pending := False\<rparr>"
  have o: "out_inv o0" "buflist_out o0 \<noteq> []" "buflist_out o0 = buflist_out (ws_out w)" "out_bytes o0 = out_bytes (ws_out w)"
    "out_unusable o0 = out_unusable (ws_out w)" and st: "lwsi_state w = LRS_ESTABLISHED"
    using rdy ne by (simp_all add: o0_def tx_ready_def out_inv_def out_bytes_def)
  from issue_raw_progress [OF o(1,2) k] obtain r out' where
    r: "lws_issue_raw (ws_out_env env) False io None o0 = Some (r, out')" "0 \<le> r" "out_inv out'" "out_on_writable out'"
      "out_bytes out' = out_bytes o0" "length (buflist_bytes (buflist_out out')) < length (buflist_bytes (buflist_out o0))"
      "out_unusable out' = out_unusable o0" .
  define w' where "w' = w\<lparr>ws_out := out', socket_is_permanently_unusable := socket_is_permanently_unusable w \<or> out_unusable out'\<rparr>"
  have "lws_handle_POLLOUT_event env rnd io us w = Some (0, w')"
    using r(1,2) st o(2) by (simp add: lws_handle_POLLOUT_event_def lws_has_buffered_out_def ws_issue_raw_def o0_def w'_def)
  moreover have "tx_kept w w'" by (simp add: w'_def tx_kept_def)
  moreover have "socket_is_permanently_unusable w' = (socket_is_permanently_unusable w \<or> out_unusable (ws_out w))"
    using r(7) o(5) by (simp add: w'_def)
  moreover have "tx_ready env w'" "ws_out w' = out'" using r rdy by (simp_all add: w'_def tx_ready_def)
  ultimately show ?thesis using r o by (intro that [of w']) simp_all
qed

text \<open>All that is kept is sent, one byte per event at the least.\<close>

lemma pollouts_flush:
  assumes "tx_ready env w" "\<forall>io \<in> set ios. \<exists>k > 0. io = Io_takes k" "0 < issue_raw_limit (ws_out_env env)"
    "length (buflist_bytes (buflist_out (ws_out w))) \<le> length ios"
  shows "\<exists>n w'. n \<le> length (buflist_bytes (buflist_out (ws_out w))) \<and> ws_pollouts env us (take n ios) w = Some w' \<and> tx_ready env w' \<and> tx_kept w w' \<and>
    buflist_out (ws_out w') = [] \<and> out_wire (ws_out w') = out_bytes (ws_out w) \<and> out_unusable (ws_out w') = out_unusable (ws_out w)"
  using assms
proof (induction ios arbitrary: w)
  case Nil
  then have "buflist_out (ws_out w) = []" using buflist_bytes_ne [of "buflist_out (ws_out w)"] by (simp add: tx_ready_def out_inv_def)
  with Nil tx_kept_refl show ?case by (intro exI [of _ 0]) (simp add: out_bytes_def)
next
  case (Cons io ios)
  show ?case
  proof (cases "buflist_out (ws_out w) = []")
    case True
    with Cons.prems tx_kept_refl show ?thesis by (intro exI [of _ 0]) (simp add: out_bytes_def)
  next
    case False
    from Cons.prems(2) obtain k where k: "io = Io_takes k" "0 < k" by auto
    obtain w1 where w1: "lws_handle_POLLOUT_event env [] io us w = Some (0, w1)" "tx_ready env w1" "tx_kept w w1"
      "out_bytes (ws_out w1) = out_bytes (ws_out w)" "out_unusable (ws_out w1) = out_unusable (ws_out w)"
      "length (buflist_bytes (buflist_out (ws_out w1))) < length (buflist_bytes (buflist_out (ws_out w)))"
      by (rule pollout_flush [OF Cons.prems(1) False k Cons.prems(3)])
    from Cons.IH [OF w1(2) _ Cons.prems(3)] Cons.prems(2,4) w1(6) obtain n w' where
      n: "n \<le> length (buflist_bytes (buflist_out (ws_out w1)))" "ws_pollouts env us (take n ios) w1 = Some w'" "tx_ready env w'" "tx_kept w1 w'"
        "buflist_out (ws_out w') = []" "out_wire (ws_out w') = out_bytes (ws_out w1)" "out_unusable (ws_out w') = out_unusable (ws_out w1)"
      by auto
    have "tx_kept w w'" by (rule tx_kept_trans [OF w1(3) n(4)])
    with n w1 show ?thesis by (intro exI [of _ "Suc n"] exI [of _ w']) simp
  qed
qed

end
