(* ===== verification/Ws_Link.thy ===== *)
theory Ws_Link
  imports Ws_Tx
begin

text \<open>
  The receiver and the sender together: a ping that arrives is answered, and what a client writes is what the callback of
  the server is told.
\<close>

subsection \<open>A ping is answered\<close>

definition pong_frame :: "u8 list \<Rightarrow> ws_frame" where
  "pong_frame p = \<lparr>fr_fin = True, fr_opcode = LWSWSOPC_PONG, fr_key = None, fr_payload = p\<rparr>"

lemma pong_frame_length: "length p \<le> 125 \<Longrightarrow> length (frame_bytes (pong_frame p)) = 2 + length p"
  by (simp add: pong_frame_def frame_bytes_def frame_hdr_def frame_len_def frame_data_def)

lemma ws_pollouts_append:
  "ws_pollouts env us (xs @ ys) w = do { w \<leftarrow> ws_pollouts env us xs w; ws_pollouts env us ys w }"
  by (induction xs arbitrary: w) (auto simp: bind_eq_Some_conv split: bind_splits)

text \<open>When nothing is kept, the event writes the pong.\<close>

lemma pollout_pong:
  assumes rdy: "tx_ready env w" and calm: "tx_calm w" and due: "ws_pong_due p w" and p: "length p \<le> 125"
    and free: "buflist_out (ws_out w) = []" and io: "io \<noteq> Io_fails"
  obtains w' where "lws_handle_POLLOUT_event env rnd io us w = Some (0, w')" "tx_ready env w'"
    "out_bytes (ws_out w') = out_bytes (ws_out w) @ frame_bytes (pong_frame p)" "\<not> ping_pending_flag w'"
    "out_unusable (ws_out w') = out_unusable (ws_out w)"
    "length (buflist_bytes (buflist_out (ws_out w'))) \<le> 2 + length p"
proof -
  define w0 where "w0 = w\<lparr>ws_out := (ws_out w)\<lparr>could_have_pending := False\<rparr>\<rparr>"
  have rdy0: "tx_ready env w0" and s0: "\<not> lwsi_role_client w0" "buflist_out (ws_out w0) = []" "out_bytes (ws_out w0) = out_bytes (ws_out w)"
    "out_unusable (ws_out w0) = out_unusable (ws_out w)" "ping_payload_buf w0 = ping_payload_buf w" "lwsi_state w0 = LRS_ESTABLISHED"
    "ping_pending_flag w0" "\<not> payload_is_close w0" "\<not> wsistate_pre_close w0" "ping_payload_len w0 = length p"
    using rdy calm due free by (auto simp: w0_def tx_ready_def out_inv_def out_bytes_def tx_calm_def ws_pong_due_def)
  let ?room = "take LWS_PRE (ping_payload_buf w)" and ?rest = "drop (LWS_PRE + length p) (ping_payload_buf w)"
  have l: "length (ping_payload_buf w) = 128 - 3 + LWS_PRE" using calm by (simp add: tx_calm_def)
  have "take (length p) (drop LWS_PRE (ping_payload_buf w)) = p" using due by (simp add: ws_pong_due_def)
  then have b: "ping_payload_buf w = ?room @ p @ ?rest"
    by (metis append_take_drop_id drop_drop add.commute)
  have r: "length ?room = LWS_PRE" using l by simp
  have f: "tx_frame (lwsi_role_client w0) LWS_WRITE_PONG rnd p = Some (pong_frame p)"
    using s0(1) by (simp add: tx_frame_def tx_opcode_def pong_frame_def)
  have wp: "wp_frame LWS_WRITE_PONG" by (simp add: wp_frame_def)
  obtain n mem w1 where w1: "lws_write env rnd io (?room @ p @ ?rest) (length ?room) (length p) LWS_WRITE_PONG w0 = Some (n, mem, w1)" "0 \<le> n"
    "tx_ready env w1" "out_bytes (ws_out w1) = out_bytes (ws_out w0) @ frame_bytes (pong_frame p)" "tx_kept w0 w1"
    "out_unusable (ws_out w1) = out_unusable (ws_out w0)"
    "length (buflist_bytes (buflist_out (ws_out w1))) \<le> length (buflist_bytes (buflist_out (ws_out w0))) + length (frame_bytes (pong_frame p))"
    by (rule write_frame_ok [OF rdy0 wp f, where room = ?room and io = io and rest = ?rest])
      (use p r io s0 in \<open>auto simp: LWS_PRE_def\<close>)
  define w' where "w' = w1\<lparr>ping_payload_buf := mem, ping_pending_flag := False\<rparr>"
  have "write_ping_buf env rnd io (length p) LWS_WRITE_PONG w0 = Some (n, w1\<lparr>ping_payload_buf := mem\<rparr>)"
    using w1(1) r b s0(5) by (simp add: write_ping_buf_def)
  moreover have "\<not> payload_is_close w1" using w1(5) s0(8) by (simp add: tx_kept_def)
  ultimately have "rops_handle_POLLOUT_ws env rnd io w0 = Some (LWS_HP_RET_BAIL_OK, w')"
    using s0 w1(2) by (simp add: rops_handle_POLLOUT_ws_def w'_def)
  then have "lws_handle_POLLOUT_event env rnd io us w = Some (0, w')"
    using s0(2,6) by (simp add: lws_handle_POLLOUT_event_def lws_has_buffered_out_def w0_def)
  moreover have "tx_ready env w'" "ws_out w' = ws_out w1" "\<not> ping_pending_flag w'" using w1(3) by (simp_all add: w'_def tx_ready_def)
  ultimately show ?thesis using w1(4,6,7) s0(2,3,4) pong_frame_length [OF p] by (intro that [of w']) simp_all
qed

text \<open>A pong that is due is sent.\<close>

lemma pong_sent:
  assumes rdy: "tx_ready env w" and calm: "tx_calm w" and due: "ws_pong_due p w" and p: "length p \<le> 125"
    and lim: "0 < issue_raw_limit (ws_out_env env)" and ios: "\<forall>io \<in> set ios. \<exists>k > 0. io = Io_takes k"
      "length (buflist_bytes (buflist_out (ws_out w))) + length p + 3 \<le> length ios"
  shows "\<exists>n w'. ws_pollouts env us (take n ios) w = Some w' \<and> n \<le> length (buflist_bytes (buflist_out (ws_out w))) + length p + 3 \<and>
    out_wire (ws_out w') = out_bytes (ws_out w) @ frame_bytes (pong_frame p) \<and> buflist_out (ws_out w') = [] \<and> \<not> ping_pending_flag w'"
proof -
  let ?k = "length (buflist_bytes (buflist_out (ws_out w)))"
  have lk: "?k \<le> length ios" using ios(2) by simp
  from pollouts_flush [OF rdy ios(1) lim lk, of us] obtain n w1 where
    w1: "n \<le> ?k" "ws_pollouts env us (take n ios) w = Some w1" "tx_ready env w1" "tx_kept w w1" "buflist_out (ws_out w1) = []"
      "out_wire (ws_out w1) = out_bytes (ws_out w)" by blast
  have n: "n < length ios" using w1(1) ios(2) by simp
  have w1': "tx_calm w1" "ws_pong_due p w1" using calm due w1(4) by (simp_all add: tx_kept_def tx_calm_def ws_pong_due_def)
  have io: "ios ! n \<noteq> Io_fails" using ios(1) n by (metis io_write.distinct(3) nth_mem)
  obtain w2 where w2: "lws_handle_POLLOUT_event env [] (ios ! n) us w1 = Some (0, w2)" "tx_ready env w2"
    "out_bytes (ws_out w2) = out_bytes (ws_out w1) @ frame_bytes (pong_frame p)" "\<not> ping_pending_flag w2"
    "length (buflist_bytes (buflist_out (ws_out w2))) \<le> 2 + length p"
    by (rule pollout_pong [OF w1(3) w1' p w1(5) io])
  have b1: "out_bytes (ws_out w1) = out_bytes (ws_out w)" using w1(5,6) by (simp add: out_bytes_def)
  let ?ios = "drop (Suc n) ios"
  have lk2: "length (buflist_bytes (buflist_out (ws_out w2))) \<le> length ?ios" using w2(5) w1(1) ios(2) by simp
  have ios2: "\<forall>io \<in> set ?ios. \<exists>k > 0. io = Io_takes k" using ios(1) by (meson in_set_dropD)
  from pollouts_flush [OF w2(2) ios2 lim lk2, of us] obtain m w3 where
    w3: "m \<le> length (buflist_bytes (buflist_out (ws_out w2)))" "ws_pollouts env us (take m ?ios) w2 = Some w3" "tx_kept w2 w3"
      "buflist_out (ws_out w3) = []" "out_wire (ws_out w3) = out_bytes (ws_out w2)" by blast
  have "take (Suc n + m) ios = take (Suc n) ios @ take m ?ios" by (rule take_add)
  also have "take (Suc n) ios = take n ios @ [ios ! n]" using n by (rule take_Suc_conv_app_nth)
  finally have "take (Suc n + m) ios = take n ios @ [ios ! n] @ take m ?ios" by simp
  then have "ws_pollouts env us (take (Suc n + m) ios) w = Some w3"
    using w1(2) w2(1) w3(2) by (simp add: ws_pollouts_append)
  then show ?thesis using w1(1) w2(3-5) w3 b1
    by (intro exI [of _ "Suc n + m"] exI [of _ w3]) (simp add: tx_kept_def)
qed

text \<open>C9: a ping is answered. When a ping frame has arrived, however the network has cut it, at a server that is not about to
  close and has no other ping to answer, then after finitely many events in which the socket takes at least a
  byte, no more than there are bytes to send and one, everything that was written before and then a pong
  with the payload of the ping is on the wire. This is so whatever the user's callback wants to write: it is not
  asked before.\<close>

theorem ws_ping_answered:
  assumes "ws_quiet env" "ws_idle env st w" "tx_ready env w" "tx_calm w" "\<not> ping_pending_flag w"
    and f: "frame_ok f" "fr_opcode f = LWSWSOPC_PING" "concat cs = frame_bytes f"
    and lim: "0 < issue_raw_limit (ws_out_env env)" and ios: "\<forall>io \<in> set ios. \<exists>k > 0. io = Io_takes k"
      "length (buflist_bytes (buflist_out (ws_out w))) + length (fr_payload f) + 3 \<le> length ios"
  shows "\<exists>w1 n w2. ws_feed env w cs = Some w1 \<and> ws_pollouts env us (take n ios) w1 = Some w2 \<and>
    out_wire (ws_out w2) = out_bytes (ws_out w) @ frame_bytes (pong_frame (fr_payload f)) \<and> buflist_out (ws_out w2) = [] \<and> \<not> ping_pending_flag w2"
proof -
  from ping_run [OF assms(1,2) f(1,2)] obtain w1 where
    w1: "hdr_run env w (frame_bytes f) = Some w1" "ws_idle env st w1" "ws_ping env (fr_payload f) w w1" by blast
  have "concat cs = frame_bytes f @ []" using f(3) by simp
  from hdr_run_feed [OF assms(1) w1(1) this] obtain cs1 where c: "ws_feed env w cs = ws_feed env w1 cs1" "concat cs1 = []" by blast
  from c(2) have "ws_feed env w1 cs1 = Some w1" by (induction cs1) auto
  moreover have "tx_ready env w1" using w1(2,3) assms(3) by (auto simp: tx_ready_def ws_idle_def ws_inv_def ws_ping_def ws_tx_same_def)
  moreover have "tx_calm w1" "ws_pong_due (fr_payload f) w1"
    using w1(2,3) assms(4,5) by (auto simp: tx_calm_def ws_idle_def ws_inv_def ws_ping_def ws_tx_same_def)
  moreover have "length (fr_payload f) \<le> 125" using f by (auto simp: frame_ok_def)
  moreover have "ws_out w1 = ws_out w" using w1(3) by (simp add: ws_ping_def ws_tx_same_def)
  ultimately show ?thesis using pong_sent [of env w1 "fr_payload f" ios us] lim ios c(1) by auto
qed

definition demo_ping :: ws_frame where
  "demo_ping = \<lparr>fr_fin = True, fr_opcode = LWSWSOPC_PING, fr_key = Some [1, 2, 3, 4], fr_payload = bytes_of ''abc''\<rparr>"

lemma ws_start_tx: "tx_ready ws_quiet_env (ws_start ws_quiet_env)" "tx_calm (ws_start ws_quiet_env)"
    "\<not> ping_pending_flag (ws_start ws_quiet_env)" "ws_out (ws_start ws_quiet_env) = out_empty"
    "0 < issue_raw_limit (ws_out_env ws_quiet_env)"
  by (simp_all add: tx_ready_def tx_calm_def ws_start_def lws_server_init_wsi_for_ws_def lws_restart_ws_ping_pong_timer_def Let_def ws_zero_def
      ws_quiet_env_def ws_demo_env_def out_inv_def out_empty_def issue_raw_limit_def ws_out_env_def add32_def)

theorem ws_ping_answered_witness:
  "\<exists>w1 n w2. ws_feed ws_quiet_env (ws_start ws_quiet_env) [frame_bytes demo_ping] = Some w1 \<and>
     ws_pollouts ws_quiet_env [] (take n (replicate 6 (Io_takes 1))) w1 = Some w2 \<and>
     out_wire (ws_out w2) = frame_bytes (pong_frame (bytes_of ''abc'')) \<and> buflist_out (ws_out w2) = [] \<and> \<not> ping_pending_flag w2"
proof -
  have "frame_ok demo_ping" "fr_opcode demo_ping = LWSWSOPC_PING" "concat [frame_bytes demo_ping] = frame_bytes demo_ping"
    by (simp_all add: demo_ping_def frame_ok_def)
  from ws_ping_answered [OF ws_quiet_env(1) ws_start_idle ws_start_tx(1-3) this ws_start_tx(5), of "replicate 6 (Io_takes 1)" "[]"] show ?thesis
    by (simp add: ws_start_tx(4) out_bytes_def out_empty_def demo_ping_def)
qed


subsection \<open>From the client to the server\<close>

text \<open>The user of a client has a queue of data to send and writes one item of it each time its callback is told that the
  connection is writable, as the documentation of \<open>lws_write\<close> asks for.\<close>

fun ws_writables :: "ws_env \<Rightarrow> io_write list \<Rightarrow> user_write list \<Rightarrow> ws_conn \<Rightarrow> (user_write list \<times> ws_conn) option" where
  "ws_writables env [] q w = Some (q, w)"
| "ws_writables env (io # ios) q w =
     do { (r, w') \<leftarrow> lws_handle_POLLOUT_event env [] io (take 1 q) w;
          if r = 0 then ws_writables env ios (drop (length (ws_events w') - length (ws_events w)) q) w' else None }"

definition uw_ok :: "user_write \<Rightarrow> bool" where
  "uw_ok u \<longleftrightarrow> wp_data (uw_wp u) \<and> uw_io u \<noteq> Io_fails \<and> 14 \<le> length (uw_room u) \<and> length (uw_buf u) < 2 ^ 31 - 14 \<and> length (uw_rnd u) = 4"

definition uw_frame :: "user_write \<Rightarrow> ws_frame" where
  "uw_frame u = \<lparr>fr_fin = uw_wp u AND LWS_WRITE_NO_FIN = 0, fr_opcode = case tx_opcode (uw_wp u) of None \<Rightarrow> 0 | Some opc \<Rightarrow> opc,
     fr_key = Some (uw_rnd u), fr_payload = uw_buf u\<rparr>"

definition tx_client :: "ws_env \<Rightarrow> ws_conn \<Rightarrow> bool" where
  "tx_client env w \<longleftrightarrow> tx_ready env w \<and> lwsi_role_client w \<and> hdr_parsing_completed w \<and> \<not> ping_pending_flag w \<and> \<not> payload_is_close w \<and>
     \<not> send_check_ping w \<and> (\<forall>es. cb_result env es = 0)"

lemma tx_client_kept: "tx_client env w \<Longrightarrow> tx_ready env w' \<Longrightarrow> tx_kept w w' \<Longrightarrow> tx_client env w'"
  by (simp add: tx_client_def tx_kept_def)

text \<open>An event while nothing is kept lets the user write.\<close>

lemma writable_user:
  assumes c: "tx_client env w" and free: "buflist_out (ws_out w) = []" and q: "list_all uw_ok (take 1 q)"
  obtains w' where "lws_handle_POLLOUT_event env rnd io (take 1 q) w = Some (0, w')" "tx_client env w'"
    "length (ws_events w') = Suc (length (ws_events w))"
    "out_bytes (ws_out w') = out_bytes (ws_out w) @ concat (map (frame_bytes \<circ> uw_frame) (take 1 q))"
    "length (buflist_bytes (buflist_out (ws_out w'))) \<le> length (concat (map (frame_bytes \<circ> uw_frame) (take 1 q)))"
proof -
  define w0 where "w0 = (ws_pollout_off (w\<lparr>ws_out := (ws_out w)\<lparr>could_have_pending := False\<rparr>\<rparr>))\<lparr>ws_events := ws_events w @ [LWS_CALLBACK_CLIENT_WRITEABLE]\<rparr>"
  have c0: "tx_client env w0" "ws_events w0 = ws_events w @ [LWS_CALLBACK_CLIENT_WRITEABLE]" "out_bytes (ws_out w0) = out_bytes (ws_out w)"
    "buflist_out (ws_out w0) = []"
    using c free by (auto simp: w0_def ws_pollout_off_def tx_client_def tx_ready_def out_inv_def out_bytes_def)
  have ev: "lws_handle_POLLOUT_event env rnd io us w = do { w \<leftarrow> user_writes env us w0; Some (0, w) }" for us
    using c free by (simp add: lws_handle_POLLOUT_event_def lws_has_buffered_out_def rops_handle_POLLOUT_ws_def tx_client_def tx_ready_def
        ws_pollout_off_def lws_callback_as_writeable_def w0_def Let_def)
  show ?thesis
  proof (cases q)
    case Nil
    with ev [of "take 1 q"] c0 show ?thesis by (intro that [of w0]) simp_all
  next
    case (Cons u r)
    have u: "uw_ok u" using q Cons by simp
    have rdy: "tx_ready env w0" and cl: "lwsi_role_client w0" using c0(1) by (simp_all add: tx_client_def)
    have wp: "wp_frame (uw_wp u)" using u by (auto simp: uw_ok_def wp_data_def wp_frame_def)
    have f: "tx_frame (lwsi_role_client w0) (uw_wp u) (uw_rnd u) (uw_buf u) = Some (uw_frame u)"
      using wp_frame_opcode [OF wp] cl u by (auto simp: tx_frame_def uw_frame_def uw_ok_def)
    obtain n mem w1 where w1: "lws_write env (uw_rnd u) (uw_io u) (uw_room u @ uw_buf u @ []) (length (uw_room u)) (length (uw_buf u)) (uw_wp u) w0 = Some (n, mem, w1)"
      "tx_ready env w1" "out_bytes (ws_out w1) = out_bytes (ws_out w0) @ frame_bytes (uw_frame u)" "tx_kept w0 w1"
      "length (buflist_bytes (buflist_out (ws_out w1))) \<le> length (buflist_bytes (buflist_out (ws_out w0))) + length (frame_bytes (uw_frame u))"
      by (rule write_frame_ok [OF rdy wp f, where room = "uw_room u" and io = "uw_io u" and rest = "[]"])
        (use u c0(4) in \<open>auto simp: uw_ok_def\<close>)
    then have "lws_handle_POLLOUT_event env rnd io (take 1 q) w = Some (0, w1)" using ev [of "take 1 q"] Cons by simp
    moreover have "tx_client env w1" by (rule tx_client_kept [OF c0(1) w1(2,4)])
    moreover have "ws_events w1 = ws_events w0" using w1(4) by (simp add: tx_kept_def)
    ultimately show ?thesis using w1(3,5) c0 Cons by (intro that [of w1]) simp_all
  qed
qed

text \<open>How many events it takes at most: one for each item of the queue and one for each byte.\<close>

definition tx_todo :: "user_write list \<Rightarrow> ws_conn \<Rightarrow> nat" where
  "tx_todo q w = length (buflist_bytes (buflist_out (ws_out w))) + length q + length (concat (map (frame_bytes \<circ> uw_frame) q))"

lemma writables_send:
  assumes "tx_client env w" "0 < issue_raw_limit (ws_out_env env)" "list_all uw_ok q" "\<forall>io \<in> set ios. \<exists>k > 0. io = Io_takes k"
    "tx_todo q w \<le> length ios"
  shows "\<exists>w'. ws_writables env ios q w = Some ([], w') \<and> tx_client env w' \<and>
    out_wire (ws_out w') = out_bytes (ws_out w) @ concat (map (frame_bytes \<circ> uw_frame) q)"
  using assms
proof (induction ios arbitrary: q w)
  case Nil
  then have "buflist_out (ws_out w) = []"
    using buflist_bytes_ne [of "buflist_out (ws_out w)"] by (simp add: tx_client_def tx_ready_def out_inv_def tx_todo_def)
  with Nil show ?case by (simp add: tx_todo_def out_bytes_def)
next
  case (Cons io ios)
  have ios: "\<forall>io \<in> set ios. \<exists>k > 0. io = Io_takes k" using Cons.prems(4) by simp
  show ?case
  proof (cases "buflist_out (ws_out w) = []")
    case False
    from Cons.prems(4) obtain k where k: "io = Io_takes k" "0 < k" by auto
    have rdy: "tx_ready env w" using Cons.prems(1) by (simp add: tx_client_def)
    obtain w1 where w1: "lws_handle_POLLOUT_event env [] io (take 1 q) w = Some (0, w1)" "tx_ready env w1" "tx_kept w w1"
      "out_bytes (ws_out w1) = out_bytes (ws_out w)"
      "length (buflist_bytes (buflist_out (ws_out w1))) < length (buflist_bytes (buflist_out (ws_out w)))"
      by (rule pollout_flush [OF rdy False k Cons.prems(2)])
    have "tx_todo q w1 \<le> length ios" using Cons.prems(5) w1(5) by (simp add: tx_todo_def)
    from Cons.IH [OF tx_client_kept [OF Cons.prems(1) w1(2,3)] Cons.prems(2,3) ios this] w1(1,3,4) show ?thesis
      by (simp add: tx_kept_def)
  next
    case True
    have "list_all uw_ok (take 1 q)" using Cons.prems(3) by (cases q) auto
    from writable_user [OF Cons.prems(1) True this] obtain w1 where
      w1: "lws_handle_POLLOUT_event env [] io (take 1 q) w = Some (0, w1)" "tx_client env w1" "length (ws_events w1) = Suc (length (ws_events w))"
        "out_bytes (ws_out w1) = out_bytes (ws_out w) @ concat (map (frame_bytes \<circ> uw_frame) (take 1 q))"
        "length (buflist_bytes (buflist_out (ws_out w1))) \<le> length (concat (map (frame_bytes \<circ> uw_frame) (take 1 q)))" by blast
    have "tx_todo (drop 1 q) w1 \<le> length ios" using Cons.prems(5) w1(5) True by (cases q) (auto simp: tx_todo_def)
    moreover have "list_all uw_ok (drop 1 q)" using Cons.prems(3) by (cases q) auto
    ultimately obtain w' where "ws_writables env ios (drop 1 q) w1 = Some ([], w')" "tx_client env w'"
      "out_wire (ws_out w') = out_bytes (ws_out w1) @ concat (map (frame_bytes \<circ> uw_frame) (drop 1 q))"
      using Cons.IH [OF w1(2) Cons.prems(2) _ ios] by blast
    then show ?thesis using w1 by (cases q) (simp_all add: comp_def)
  qed
qed

text \<open>C2: what a client writes is what the server is told. The client's user writes texts and binary data, whole or
  in fragments, in items that are not empty and follow each other as the protocol wants it, the texts in UTF-8 when the
  server checks that. One item is written each time the connection is writable; the socket takes as little as a byte at a time; the network cuts
  the stream into any buffers. Then after finitely many events all is on the wire, and the server's
  callback is told the messages that were written, unchanged and in order.\<close>

theorem ws_client_to_server:
  assumes "tx_client envc wc" "out_bytes (ws_out wc) = []" "0 < issue_raw_limit (ws_out_env envc)" "list_all uw_ok q"
    and ios: "\<forall>io \<in> set ios. \<exists>k > 0. io = Io_takes k" "length q + length (concat (map (frame_bytes \<circ> uw_frame) q)) \<le> length ios"
    and srv: "ws_quiet env" "ws_idle env None w" and q: "\<forall>u \<in> set q. uw_buf u \<noteq> []" "assemble None (map uw_frame q) = Some (ms, None)"
      "\<forall>(binary, m) \<in> set ms. opt_validate_utf8 env \<and> \<not> binary \<longrightarrow> utf8_text m"
  shows "\<exists>wc'. ws_writables envc ios q wc = Some ([], wc') \<and>
    (\<forall>cs. concat cs = out_wire (ws_out wc') \<and> (\<forall>c \<in> set cs. length c < 2 ^ 31) \<longrightarrow>
      (\<exists>w'. ws_feed env w cs = Some w' \<and> ws_idle env None w' \<and> fst (ws_view (ws_events w')) = fst (ws_view (ws_events w)) @ ms))"
proof -
  have "tx_todo q wc \<le> length ios" using ios(2) assms(2) by (simp add: tx_todo_def out_bytes_def)
  from writables_send [OF assms(1,3,4) ios(1) this] assms(2) obtain wc' where
    wc': "ws_writables envc ios q wc = Some ([], wc')" "out_wire (ws_out wc') = concat (map frame_bytes (map uw_frame q))"
    by (auto simp: comp_def)
  have ok: "list_all frame_ok (map uw_frame q)"
  proof -
    have "frame_ok (uw_frame u)" if "u \<in> set q" for u
    proof -
      have u: "uw_ok u" "uw_buf u \<noteq> []" using that assms(4) q(1) by (auto simp: list_all_iff)
      then have "tx_opcode (uw_wp u) \<in> {Some 0, Some 1, Some 2}"
        using wp_low [of "uw_wp u"] by (auto simp: uw_ok_def wp_data_def tx_opcode_def Let_def)
      with u show ?thesis by (auto simp: frame_ok_def uw_frame_def uw_ok_def)
    qed
    then show ?thesis by (simp add: list_all_iff)
  qed
  have tx: "texts_ok env ms None" using q(3) by (auto simp: texts_ok_def text_state_def utf8_text_run)
  show ?thesis using wc' ws_frames_feed [OF srv ok q(2) tx] by auto
qed

definition demo_client :: ws_conn where
  "demo_client = (ws_start ws_quiet_env)\<lparr>lwsi_role_client := True\<rparr>"

definition demo_queue :: "user_write list" where
  "demo_queue =
     [\<lparr>uw_wp = LWS_WRITE_TEXT OR LWS_WRITE_NO_FIN, uw_room = replicate 16 0, uw_buf = bytes_of ''Hel'', uw_rnd = [1, 2, 3, 4], uw_io = Io_later\<rparr>,
      \<lparr>uw_wp = LWS_WRITE_CONTINUATION, uw_room = replicate 16 0, uw_buf = bytes_of ''lo'', uw_rnd = [5, 6, 7, 8], uw_io = Io_takes 1\<rparr>]"

theorem ws_client_to_server_witness:
  "\<exists>wc'. ws_writables ws_quiet_env (replicate 30 (Io_takes 1)) demo_queue demo_client = Some ([], wc') \<and>
    (\<forall>cs. concat cs = out_wire (ws_out wc') \<and> (\<forall>c \<in> set cs. length c < 2 ^ 31) \<longrightarrow>
      (\<exists>w'. ws_feed ws_quiet_env (ws_start ws_quiet_env) cs = Some w' \<and> fst (ws_view (ws_events w')) = [(False, bytes_of ''Hello'')]))"
proof -
  have c: "tx_client ws_quiet_env demo_client" "out_bytes (ws_out demo_client) = []"
    by (simp_all add: tx_client_def tx_ready_def demo_client_def ws_start_def lws_server_init_wsi_for_ws_def lws_restart_ws_ping_pong_timer_def
        Let_def ws_zero_def ws_quiet_env_def ws_demo_env_def out_inv_def out_empty_def out_bytes_def)
  have q: "list_all uw_ok demo_queue" "\<forall>u \<in> set demo_queue. uw_buf u \<noteq> []"
    "assemble None (map uw_frame demo_queue) = Some ([(False, bytes_of ''Hello'')], None)"
    by (simp_all add: demo_queue_def uw_ok_def wp_data_def uw_frame_def tx_opcode_def frame_joins_def Let_def)
  have n: "length demo_queue + length (concat (map (frame_bytes \<circ> uw_frame) demo_queue)) \<le> length (replicate 30 (Io_takes 1))"
    by (simp add: demo_queue_def uw_frame_def tx_opcode_def frame_bytes_def frame_hdr_def frame_len_def frame_data_def Let_def)
  have io: "\<forall>io \<in> set (replicate 30 (Io_takes 1)). \<exists>k > 0. io = Io_takes k" by simp
  have tx: "\<forall>(binary, m) \<in> set [(False, bytes_of ''Hello'')]. opt_validate_utf8 ws_quiet_env \<and> \<not> binary \<longrightarrow> utf8_text m"
    using demo_text by simp
  from ws_client_to_server [OF c ws_start_tx(5) q(1) io n ws_quiet_env(1) ws_start_idle q(2,3) tx] ws_start_view show ?thesis by simp blast
qed

end
