(* ===== verification/Ws_Flow.thy ===== *)
theory Ws_Flow
  imports Ws_Rx
begin

text \<open>
  The POLLIN event of a websocket connection of a server: the reading part of \<open>rops_handle_POLLIN_ws\<close> of
  \<open>lib/roles/ws/ops-ws.c\<close> and the websocket part of \<open>lws_read_h1\<close> of \<open>lib/roles/h1/ops-h1.c\<close>, which hand a segment of the
  buffered input or what the socket has to the receiver and account for it. The socket is the argument \<open>io\<close>; TLS with
  bytes that are decrypted already is left out.

  Shown is exactly when an assertion fails: when the callback stops the input while a buffered segment is parsed.
\<close>

datatype lws_hpi_ret = LWS_HPI_RET_WSI_ALREADY_DIED | LWS_HPI_RET_HANDLED | LWS_HPI_RET_PLEASE_CLOSE_ME

definition read_h1_ws :: "ws_env \<Rightarrow> bool \<Rightarrow> u8 list \<Rightarrow> ws_conn \<Rightarrow> (int \<times> ws_conn) option" where
  "read_h1_ws env inside buf w =
     (if lwsi_state w \<in> {LRS_ESTABLISHED, LRS_RETURNED_CLOSE, LRS_AWAITING_CLOSE_ACK, LRS_WAITING_TO_SEND_CLOSE, LRS_SHUTDOWN} then
        do { (m, rest, w) \<leftarrow> lws_parse_ws env inside buf w; Some (if m < 0 then - 1 else int (length buf - length rest), w) }
      else None)"

definition pollin_drain :: "ws_env \<Rightarrow> bool \<Rightarrow> u8 list \<Rightarrow> ws_conn \<Rightarrow> (lws_hpi_ret \<times> ws_conn) option" where
  "pollin_drain env buffered token w =
     do { (n, w) \<leftarrow> read_h1_ws env buffered token w;
          if n < 0 then Some (LWS_HPI_RET_WSI_ALREADY_DIED, w)
          else do {
            (r, rx) \<leftarrow> lws_buflist_aware_consume (mem_ok env) (ws_in w) token (nat n) (if buffered then 1 else 0);
            Some (if r \<noteq> 0 then LWS_HPI_RET_PLEASE_CLOSE_ME else LWS_HPI_RET_HANDLED, w\<lparr>ws_in := rx\<rparr>) } }"

text \<open>\<open>pollin\<close> says whether the event has \<open>LWS_POLLIN\<close>, \<open>has_ah\<close> whether the connection still has a header table. A
  connection that is about to close or has answered a close is not held up by flow control. The result of taking
  \<open>LWS_POLLIN\<close> out of the events that are waited for is not looked at.\<close>

definition pollin_read :: "ws_env \<Rightarrow> bool \<Rightarrow> bool \<Rightarrow> io_read \<Rightarrow> ws_conn \<Rightarrow> (lws_hpi_ret \<times> ws_conn) option" where
  "pollin_read env pollin has_ah io w =
     (if lwsi_state w \<noteq> LRS_RETURNED_CLOSE \<and> lwsi_state w \<noteq> LRS_WAITING_TO_SEND_CLOSE \<and> cb_rxflow env (ws_events w) then
        Some (LWS_HPI_RET_HANDLED, w)
      else do {
        (len, token, bl) \<leftarrow> lws_buflist_next_segment_len (rx_buflist (ws_in w));
        let w = w\<lparr>ws_in := (ws_in w)\<lparr>rx_buflist := bl\<rparr>\<rparr>;
        if len \<noteq> 0 then pollin_drain env True token w
        else if \<not> pollin \<and> \<not> has_ah then Some (LWS_HPI_RET_HANDLED, w)
        else if io_len io = 0 then Some (LWS_HPI_RET_PLEASE_CLOSE_ME, w)
        else if io_len io = LWS_SSL_CAPABLE_MORE_SERVICE then Some (LWS_HPI_RET_HANDLED, w)
        else if io_len io = LWS_SSL_CAPABLE_ERROR then Some (LWS_HPI_RET_PLEASE_CLOSE_ME, w)
        else pollin_drain env False (io_data io) (lws_restart_ws_ping_pong_timer env w) })"


subsection \<open>Stopping the input\<close>

text \<open>When the input is stopped while a buffered segment is parsed, the cache leaves the rest of it at the head of the list.\<close>

lemma rxflow_cache_inside:
  assumes "buflist_inv (s # bl)" "rx_buflist rx = s # bl" "buf \<noteq> []" "length buf < length (seg_bytes s)"
  shows "\<exists>s'. lws_rxflow_cache mem True rx buf = Some (LWSRXFC_TRIMMED, rx\<lparr>rx_buflist := s' # bl\<rparr>) \<and> length (seg_bytes s') = length buf \<and> seg_inv s'"
proof -
  let ?n = "length (seg_bytes s) - length buf"
  let ?s = "s\<lparr>seg_pos := seg_pos s + ?n\<rparr>"
  have s: "seg_inv s" using assms by simp
  have "0 < length buf" using assms(3) by simp
  then have n: "0 < ?n" "seg_pos s + ?n < seg_len s" using assms(4) seg_bytes_length [OF s] by linarith+
  then have "lws_buflist_use_segment (s # bl) ?n = Some (int_of32 (seg_len s - (seg_pos s + ?n)), ?s # bl)"
    by (simp add: lws_buflist_use_segment_def)
  moreover have "seg_inv ?s" using n(2) s by (simp add: seg_inv_def)
  moreover have "length (seg_bytes ?s) = length buf" using n assms(4) s by (simp add: seg_bytes_def seg_inv_def)
  ultimately show ?thesis using assms s seg_bytes_ne [OF s] by (auto simp: lws_rxflow_cache_def next_segment_len_ok)
qed

lemma parse_ws_in:
  assumes "ws_inv env w" "buflist_inv (rx_buflist (ws_in w))" "ws_inside env inside buf w" "length buf < 2 ^ 31"
    "lws_parse_ws env inside buf w = Some (m, buf', w')"
  shows "(m = 1 \<longrightarrow> inside \<longrightarrow> (\<exists>s s' bl. rx_buflist (ws_in w) = s # bl \<and> rx_buflist (ws_in w') = s' # bl \<and> seg_inv s' \<and>
      length (seg_bytes s') < length (seg_bytes s))) \<and> (m = 0 \<longrightarrow> ws_in w' = ws_in w)"
  using assms
proof (induction "2 * length buf + of_bool (ws_bulk_state w)" arbitrary: buf w rule: less_induct)
  case less
  show ?case
  proof (cases "buf = []")
    case True
    with less.prems show ?thesis by (simp add: lws_parse_ws.simps)
  next
    case False
    from less.prems(1-3) False less.prems(4) show ?thesis
    proof (cases rule: parse_ws_step)
      case (finish m1 buf1 w1)
      with less.prems(5) have e: "m1 = m" "w1 = w'" by auto
      have "\<exists>s s' bl. rx_buflist (ws_in w) = s # bl \<and> rx_buflist (ws_in w') = s' # bl \<and> seg_inv s' \<and> length (seg_bytes s') < length (seg_bytes s)"
        if m: "m = 1" and i: inside
      proof -
        from finish(5) m e obtain r where f: "cb_rxflow env (ws_events w)" "lws_rxflow_cache (mem_ok env) True (ws_in w) buf = Some (r, ws_in w')"
          using i by auto
        with less.prems(3) i obtain s bl where s: "rx_buflist (ws_in w) = s # bl" "length buf < length (seg_bytes s)" by (auto simp: ws_inside_def)
        from rxflow_cache_inside [OF _ s(1) False s(2), of "mem_ok env"] less.prems(2) s f(2) show ?thesis by auto
      qed
      with finish(4) e show ?thesis by auto
    next
      case (more buf1 w1)
      have lt: "2 * length buf1 + of_bool (ws_bulk_state w1) < 2 * length buf + of_bool (ws_bulk_state w)"
        using more(5) by (cases "ws_bulk_state w1"; cases "ws_bulk_state w") auto
      have l: "length buf1 < 2 ^ 31" using more(5) less.prems(4) by auto
      have "buflist_inv (rx_buflist (ws_in w1))" using more(3) less.prems(2) by simp
      from less.hyps [OF lt more(2) this more(4) l] less.prems(5) more(1,3) show ?thesis by simp
    qed
  qed
qed

text \<open>Draining the first segment of the list, and taking what the socket has.\<close>

lemma pollin_drain_buffered:
  assumes inv: "ws_inv env w" "buflist_inv (s # bl)" "rx_buflist (ws_in w) = s # bl" "lwsi_state w = LRS_ESTABLISHED" "\<not> cb_rxflow env (ws_events w)"
  obtains (stopped) rest w1 where "lws_parse_ws env True (seg_bytes s) w = Some (1, rest, w1)" "pollin_drain env True (seg_bytes s) w = None"
    | (fine) m rest w1 r w' where "lws_parse_ws env True (seg_bytes s) w = Some (m, rest, w1)" "m \<noteq> 1"
      "pollin_drain env True (seg_bytes s) w = Some (r, w')" "ws_inv env w'" "buflist_inv (rx_buflist (ws_in w'))"
proof -
  have s: "seg_inv s" using inv(2) by simp
  then have len: "length (seg_bytes s) < 2 ^ 31" "0 < length (seg_bytes s)" using seg_bytes_length [OF s] by (auto simp: seg_inv_def)
  have bl: "buflist_inv (rx_buflist (ws_in w))" and ins: "ws_inside env True (seg_bytes s) w" using inv by (auto simp: ws_inside_def)
  from parse_ws_total [OF inv(1) bl ins len(1)] obtain m rest w1 where
    p: "lws_parse_ws env True (seg_bytes s) w = Some (m, rest, w1)" "ws_inv env w1" "buflist_inv (rx_buflist (ws_in w1))"
      "m = - 1 \<or> (m = 0 \<or> m = 1) \<and> rest = []" by blast
  note q = parse_ws_in [OF inv(1) bl ins len(1) p(1)]
  have rd: "read_h1_ws env True (seg_bytes s) w = Some (if m < 0 then - 1 else int (length (seg_bytes s)), w1)"
    using p(1,4) inv(4) by (auto simp: read_h1_ws_def)
  consider "m = - 1" | "m = 0" | "m = 1" using p(4) by blast
  then show ?thesis
  proof cases
    case 1
    then show ?thesis using p rd by (intro fine [of m rest w1]) (simp_all add: pollin_drain_def)
  next
    case 2
    then have b1: "rx_buflist (ws_in w1) = s # bl" using q inv(3) by simp
    from use_segment_ok [OF inv(2) len(2), of] obtain bl' where
      u: "lws_buflist_use_segment (s # bl) (length (seg_bytes s)) = Some (case bl' of [] \<Rightarrow> 0 | s # _ \<Rightarrow> int (length (seg_bytes s)), bl')" "buflist_inv bl'"
      by auto
    have "\<exists>rx. lws_buflist_aware_consume (mem_ok env) (ws_in w1) (seg_bytes s) (length (seg_bytes s)) 1 = Some (0, rx) \<and> rx_buflist rx = bl'"
      using u(1) b1 len(2) by (auto simp: lws_buflist_aware_consume_def Let_def)
    then obtain rx where "lws_buflist_aware_consume (mem_ok env) (ws_in w1) (seg_bytes s) (length (seg_bytes s)) 1 = Some (0, rx)" "rx_buflist rx = bl'" by blast
    with 2 rd p(1,2) u(2) show ?thesis
      by (intro fine [of m rest w1 LWS_HPI_RET_HANDLED "w1\<lparr>ws_in := rx\<rparr>"]) (simp_all add: pollin_drain_def ws_inv_upd)
  next
    case 3
    with q inv(3) obtain s' where s': "rx_buflist (ws_in w1) = s' # bl" "seg_inv s'" "length (seg_bytes s') < length (seg_bytes s)" by auto
    then have "lws_buflist_use_segment (s' # bl) (length (seg_bytes s)) = None"
      using seg_bytes_length [OF s'(2)] by (auto simp: lws_buflist_use_segment_def seg_inv_def)
    with 3 rd s'(1) len(2) p(1) show ?thesis
      by (intro stopped [of rest w1]) (simp_all add: pollin_drain_def lws_buflist_aware_consume_def)
  qed
qed

lemma pollin_drain_fresh:
  assumes inv: "ws_inv env w" "buflist_inv (rx_buflist (ws_in w))" "lwsi_state w = LRS_ESTABLISHED" and b: "b \<noteq> []" "length b < 2 ^ 31"
  obtains r w' where "pollin_drain env False b w = Some (r, w')" "ws_inv env w'" "buflist_inv (rx_buflist (ws_in w'))"
proof -
  have "ws_inside env False b w" by (simp add: ws_inside_def)
  from parse_ws_total [OF inv(1,2) this b(2)] obtain m rest w1 where
    p: "lws_parse_ws env False b w = Some (m, rest, w1)" "ws_inv env w1" "buflist_inv (rx_buflist (ws_in w1))"
      "m = - 1 \<or> (m = 0 \<or> m = 1) \<and> rest = []" by blast
  have rd: "read_h1_ws env False b w = Some (if m < 0 then - 1 else int (length b), w1)"
    using p(1,4) inv(3) by (auto simp: read_h1_ws_def)
  show ?thesis
  proof (cases "m = - 1")
    case True
    with rd p show ?thesis by (intro that [of LWS_HPI_RET_WSI_ALREADY_DIED w1]) (simp_all add: pollin_drain_def)
  next
    case False
    with p(4) have "\<not> m < 0" by auto
    with rd p(2,3) b(1) show ?thesis
      by (intro that [of LWS_HPI_RET_HANDLED "w1\<lparr>ws_in := ws_in w1\<rparr>"]) (simp_all add: pollin_drain_def lws_buflist_aware_consume_def)
  qed
qed

text \<open>C33: what an event does with buffered input. From a connection that keeps its invariant an assertion fails exactly
  when the user's callback stops the input while a segment of the list is parsed: \<open>lws_parse_ws\<close> then answers 1
  (it does not when the callback stops the input at the last byte of the segment),
  \<open>lws_rxflow_cache\<close> has cut the segment to what is not parsed yet, and \<open>lws_buflist_aware_consume\<close> takes the
  length of the whole segment off once more. In all other cases the event returns and the invariant holds again.\<close>

theorem pollin_assertion:
  assumes "ws_inv env w" "buflist_inv (rx_buflist (ws_in w))" "lwsi_state w = LRS_ESTABLISHED" "length (io_data io) < 2 ^ 31"
  shows "if \<not> cb_rxflow env (ws_events w) \<and> (\<exists>s bl rest w1. rx_buflist (ws_in w) = s # bl \<and> lws_parse_ws env True (seg_bytes s) w = Some (1, rest, w1))
    then pollin_read env pollin has_ah io w = None
    else \<exists>r w'. pollin_read env pollin has_ah io w = Some (r, w') \<and> ws_inv env w' \<and> buflist_inv (rx_buflist (ws_in w'))"
proof (cases "cb_rxflow env (ws_events w)")
  case True
  with assms show ?thesis by (simp add: pollin_read_def)
next
  case no_flow: False
  show ?thesis
  proof (cases "rx_buflist (ws_in w)")
    case (Cons s bl)
    have bl: "buflist_inv (s # bl)" using assms(2) Cons by simp
    have "(ws_in w)\<lparr>rx_buflist := s # bl\<rparr> = ws_in w" using Cons by simp
    then have w: "w\<lparr>ws_in := (ws_in w)\<lparr>rx_buflist := s # bl\<rparr>\<rparr> = w" by simp
    have "length (seg_bytes s) \<noteq> 0" using seg_bytes_ne bl by simp
    then have e: "pollin_read env pollin has_ah io w = pollin_drain env True (seg_bytes s) w"
      using no_flow Cons by (simp add: pollin_read_def next_segment_len_ok [OF bl] w)
    from assms(1) bl Cons assms(3) no_flow show ?thesis
      by (cases rule: pollin_drain_buffered) (use no_flow Cons in \<open>auto simp: e\<close>)
  next
    case Nil
    let ?w = "lws_restart_ws_ping_pong_timer env w"
    have "(ws_in w)\<lparr>rx_buflist := []\<rparr> = ws_in w" using Nil by simp
    then have w: "w\<lparr>ws_in := (ws_in w)\<lparr>rx_buflist := []\<rparr>\<rparr> = w" by simp
    have i: "ws_inv env ?w" "buflist_inv (rx_buflist (ws_in ?w))" "lwsi_state ?w = LRS_ESTABLISHED"
      using assms by (simp_all add: lws_restart_ws_ping_pong_timer_def ws_inv_def)
    have e: "pollin_read env pollin has_ah io w =
      (if \<not> pollin \<and> \<not> has_ah then Some (LWS_HPI_RET_HANDLED, w)
       else if io_len io = 0 then Some (LWS_HPI_RET_PLEASE_CLOSE_ME, w)
       else if io_len io = LWS_SSL_CAPABLE_MORE_SERVICE then Some (LWS_HPI_RET_HANDLED, w)
       else if io_len io = LWS_SSL_CAPABLE_ERROR then Some (LWS_HPI_RET_PLEASE_CLOSE_ME, w)
       else pollin_drain env False (io_data io) ?w)"
      using no_flow Nil by (simp add: pollin_read_def lws_buflist_next_segment_len_def w)
    show ?thesis
    proof (cases "\<exists>b bs. io = Io_bytes (b # bs)")
      case True
      then have b: "io_data io \<noteq> []" "io_len io > 0" by auto
      show ?thesis by (rule pollin_drain_fresh [OF i b(1) assms(4)]) (use b Nil assms(1,2) in \<open>auto simp: e\<close>)
    next
      case False
      then show ?thesis using e Nil assms by (cases io) (auto simp: neq_Nil_conv)
    qed
  qed
qed

text \<open>A connection that has read the header of an unmasked binary frame of one byte, with that byte and the first of the next frame
  in its list; the callback stops the input when it is told the message.\<close>

definition flow_env :: ws_env where
  "flow_env = ws_demo_env\<lparr>cb_rxflow := (\<lambda>es. length es = 2)\<rparr>"

definition flow_demo_seg :: lws_buflist where
  "flow_demo_seg = \<lparr>seg_len = 2, seg_pos = 0, seg_buf = [0x61, 0x82]\<rparr>"

definition flow_demo :: ws_conn where
  "flow_demo = (ws_start flow_env)\<lparr>ws_in := \<lparr>rx_buflist = [flow_demo_seg], rx_listed = True\<rparr>, lws_rx_parse_state := LWS_RXPS_WS_FRAME_PAYLOAD,
     ws_opcode := LWSWSOPC_BINARY_FRAME, rx_packet_length := 1, ws_final := True, frame_is_binary := True, all_zero_nonce := True\<rparr>"

lemmas flow_simps = flow_demo_def flow_env_def ws_start_def lws_server_init_wsi_for_ws_def lws_restart_ws_ping_pong_timer_def Let_def ws_zero_def
  ws_demo_env_def flow_demo_seg_def

lemma flow_demo_stops: "\<exists>rest w1. lws_parse_ws flow_env True [0x61, 0x82] flow_demo = Some (1, rest, w1)"
proof -
  define w1 where "w1 = flow_demo\<lparr>rx_packet_length := 0,
    ws_events := [LWS_CALLBACK_ESTABLISHED, LWS_CALLBACK_RECEIVE [0x61] False True True], first_fragment := False\<rparr>"
  have d: "rest_avail flow_env (Suc (Suc 0)) flow_demo = 1" "rest_avail flow_env (Suc 0) w1 = 0"
    by (simp_all add: flow_simps w1_def rest_avail_def nat32_def)
  have s: "lws_rx_parse_state w1 = LWS_RXPS_WS_FRAME_PAYLOAD" "ws_opcode w1 = LWSWSOPC_BINARY_FRAME"
    "lws_rx_parse_state flow_demo = LWS_RXPS_WS_FRAME_PAYLOAD" "ws_opcode flow_demo = LWSWSOPC_BINARY_FRAME"
    by (simp_all add: flow_simps w1_def)
  have "lws_ws_frame_rest_is_payload flow_env [0x61, 0x82] flow_demo = Some (1, [0x82], w1)"
    unfolding lws_ws_frame_rest_is_payload_def
    by (simp add: d(1) rest_unmask_def rds_def rx_check_text_def int_of32_def)
      (simp add: flow_simps w1_def user_callback_handle_rxflow_def ws_receive_def lws_is_first_fragment_def lws_is_final_fragment_def lws_frame_is_binary_def
        int_of32_def)
  then have "parse_ws_bulk flow_env [0x61, 0x82] False flow_demo = parse_ws_bulk flow_env [0x82] True w1"
    using s by (subst parse_ws_bulk.simps) (simp add: int_of32_def)
  also have "\<dots> = Some (0, [0x82], True, w1)"
    using s d(2) by (subst parse_ws_bulk.simps) (simp add: lws_ws_frame_rest_is_payload_def int_of32_def)
  finally have b: "parse_ws_bulk flow_env [0x61, 0x82] False flow_demo = Some (0, [0x82], True, w1)" .
  have sm: "\<exists>w2. lws_ws_rx_sm flow_env True True 0 w1 = Some (0, w2) \<and> ws_events w2 = ws_events w1 \<and> ws_in w2 = ws_in w1"
    by (simp add: lws_ws_rx_sm_def rx_frame_payload_def rx_spill_def rx_deliver_def flow_simps w1_def add32_def LWS_PRE_def)
  then obtain w2 where w2: "lws_ws_rx_sm flow_env True True 0 w1 = Some (0, w2)" "ws_events w2 = ws_events w1" "ws_in w2 = ws_in w1" by blast
  have "\<not> cb_rxflow flow_env (ws_events flow_demo)" by (simp add: flow_simps)
  with b w2(1) have "lws_parse_ws flow_env True [0x61, 0x82] flow_demo = lws_parse_ws flow_env True [0x82] w2"
    by (subst lws_parse_ws.simps) simp
  moreover have "cb_rxflow flow_env (ws_events w2)" by (simp add: w2(2) w1_def flow_env_def)
  moreover have "ws_in w2 = \<lparr>rx_buflist = [flow_demo_seg], rx_listed = True\<rparr>" by (simp add: w2(3) w1_def flow_demo_def)
  ultimately show ?thesis
    by (subst (asm) (2) lws_parse_ws.simps)
      (simp add: lws_rxflow_cache_def lws_buflist_next_segment_len_def lws_buflist_use_segment_def flow_demo_seg_def)
qed

theorem pollin_assertion_witness: "pollin_read flow_env True False Io_more flow_demo = None"
proof -
  have "ws_inv flow_env (ws_start flow_env)"
    by (rule ws_start_inv) (simp_all add: flow_env_def ws_demo_env_def ws_bufsize_def LWS_PRE_def)
  then have i: "ws_inv flow_env flow_demo" by (simp add: flow_demo_def ws_inv_def)
  have d: "buflist_inv (rx_buflist (ws_in flow_demo))" "rx_buflist (ws_in flow_demo) = [flow_demo_seg]" "seg_bytes flow_demo_seg = [0x61, 0x82]"
    by (simp_all add: flow_demo_def flow_demo_seg_def seg_inv_def seg_bytes_def)
  have st: "lwsi_state flow_demo = LRS_ESTABLISHED" "\<not> cb_rxflow flow_env (ws_events flow_demo)" by (simp_all add: flow_simps)
  from pollin_assertion [OF i d(1) st(1), where io = Io_more and pollin = True and has_ah = False] flow_demo_stops st(2) d(2,3) show ?thesis by auto
qed

end
