(* ===== verification/Sha1.thy ===== *)
theory Sha1
  imports Lws_Prelude
begin

text \<open>
  The hash of the websocket handshake: \<open>lib/misc/sha-1.c\<close>, for a little-endian machine. The three unions of the C structure
  are the bytes \<open>sha_m\<close> of the block, the bit count \<open>sha_c\<close> and the words \<open>sha_h\<close>; where the code goes from one view of a
  union to another, so does the model (\<open>le_words\<close>, \<open>le_bytes\<close>).

  Shown is that the function is the SHA-1 of FIPS 180-1, which is defined here without buffers, counters or bytes
  that are swapped: padding, blocks, a message schedule as a recursive function, and a fold over the rounds.
\<close>

type_synonym sha1_words = "u32 \<times> u32 \<times> u32 \<times> u32 \<times> u32"

record sha1_ctxt =
  sha_h :: sha1_words
  sha_c :: u64
  sha_m :: "u8 list"
  sha_count :: nat

subsection \<open>The code\<close>

definition sha1_K :: "nat \<Rightarrow> u32" where
  "sha1_K t = [0x5a827999, 0x6ed9eba1, 0x8f1bbcdc, 0xca62c1d6] ! (t div 20)"

definition sha1_F0 :: "u32 \<Rightarrow> u32 \<Rightarrow> u32 \<Rightarrow> u32" where
  "sha1_F0 b c d = (b AND c) OR (NOT b AND d)"

definition sha1_F1 :: "u32 \<Rightarrow> u32 \<Rightarrow> u32 \<Rightarrow> u32" where
  "sha1_F1 b c d = (b XOR c) XOR d"

definition sha1_F2 :: "u32 \<Rightarrow> u32 \<Rightarrow> u32 \<Rightarrow> u32" where
  "sha1_F2 b c d = ((b AND c) OR (b AND d)) OR (c AND d)"

definition sha1_F3 :: "u32 \<Rightarrow> u32 \<Rightarrow> u32 \<Rightarrow> u32" where
  "sha1_F3 b c d = (b XOR c) XOR d"

definition sha1_S :: "nat \<Rightarrow> u32 \<Rightarrow> u32" where
  "sha1_S n x = push_bit n x OR drop_bit (32 - n) x"

text \<open>The bytes of a block in the order that a little-endian machine wants, and its view as words.\<close>

definition sha1_swap :: "u8 list \<Rightarrow> u8 list" where
  "sha1_swap m = map (\<lambda>i. m ! (4 * (i div 4) + (3 - i mod 4))) [0..<64]"

definition le32 :: "u8 list \<Rightarrow> nat \<Rightarrow> u32" where
  "le32 m n = ((ucast (m ! (4 * n)) OR push_bit 8 (ucast (m ! (4 * n + 1)))) OR push_bit 16 (ucast (m ! (4 * n + 2)))) OR
     push_bit 24 (ucast (m ! (4 * n + 3)))"

definition le_words :: "u8 list \<Rightarrow> u32 list" where
  "le_words m = map (le32 m) [0..<16]"

definition sha1_round :: "(u32 \<Rightarrow> u32 \<Rightarrow> u32 \<Rightarrow> u32) \<Rightarrow> nat \<Rightarrow> u32 list \<times> sha1_words \<Rightarrow> u32 list \<times> sha1_words" where
  "sha1_round F t st =
     (case st of (w, a, b, c, d, e) \<Rightarrow>
        let s = t mod 16;
            w = (if t \<ge> 16 then w[s := sha1_S 1 (((w ! ((s + 13) mod 16) XOR w ! ((s + 8) mod 16)) XOR w ! ((s + 2) mod 16)) XOR w ! s)] else w);
            tmp = sha1_S 5 a + F b c d + e + w ! s + sha1_K t
        in (w, tmp, a, sha1_S 30 b, c, d))"

definition sha1_for :: "(u32 \<Rightarrow> u32 \<Rightarrow> u32 \<Rightarrow> u32) \<Rightarrow> nat \<Rightarrow> nat \<Rightarrow> u32 list \<times> sha1_words \<Rightarrow> u32 list \<times> sha1_words" where
  "sha1_for F t0 t1 st = foldl (\<lambda>st t. sha1_round F t st) st [t0..<t1]"

fun sha1_add :: "sha1_words \<Rightarrow> sha1_words \<Rightarrow> sha1_words" where
  "sha1_add (h0, h1, h2, h3, h4) (a, b, c, d, e) = (h0 + a, h1 + b, h2 + c, h3 + d, h4 + e)"

definition sha1_step :: "sha1_ctxt \<Rightarrow> sha1_ctxt" where
  "sha1_step ctxt =
     (let st = (le_words (sha1_swap (sha_m ctxt)), sha_h ctxt);
          st = sha1_for sha1_F0 0 20 st;
          st = sha1_for sha1_F1 20 40 st;
          st = sha1_for sha1_F2 40 60 st;
          st = sha1_for sha1_F3 60 80 st
      in ctxt\<lparr>sha_h := sha1_add (sha_h ctxt) (snd st), sha_m := replicate 64 0\<rparr>)"

definition sha1_init :: sha1_ctxt where
  "sha1_init = \<lparr>sha_h = (0x67452301, 0xefcdab89, 0x98badcfe, 0x10325476, 0xc3d2e1f0), sha_c = 0, sha_m = replicate 64 0, sha_count = 0\<rparr>"

definition PUTPAD :: "u8 \<Rightarrow> sha1_ctxt \<Rightarrow> sha1_ctxt option" where
  "PUTPAD x ctxt =
     do { m \<leftarrow> wr (sha_m ctxt) (sha_count ctxt mod 64) x;
          let ctxt = ctxt\<lparr>sha_m := m, sha_count := ((sha_count ctxt + 1) mod 256) mod 64\<rparr>;
          Some (if sha_count ctxt mod 64 = 0 then sha1_step ctxt else ctxt) }"

fun putpads :: "u8 list \<Rightarrow> sha1_ctxt \<Rightarrow> sha1_ctxt option" where
  "putpads [] ctxt = Some ctxt"
| "putpads (x # xs) ctxt = do { ctxt \<leftarrow> PUTPAD x ctxt; putpads xs ctxt }"

text \<open>The view of a word as bytes.\<close>

definition le_bytes64 :: "u64 \<Rightarrow> u8 list" where
  "le_bytes64 c = map (\<lambda>i. ucast (drop_bit (8 * i) c)) [0..<8]"

definition bzero :: "u8 list \<Rightarrow> nat \<Rightarrow> nat \<Rightarrow> u8 list option" where
  "bzero m i n = memcpy_to m i (replicate n 0) 0 n"

definition sha1_pad_step :: "sha1_ctxt \<Rightarrow> sha1_ctxt option" where
  "sha1_pad_step ctxt =
     (let padstart = sha_count ctxt mod 64; padlen = 64 - padstart
      in if padlen < 8 then
           do { m \<leftarrow> bzero (sha_m ctxt) padstart padlen;
                Some (sha1_step (ctxt\<lparr>sha_m := m, sha_count := ((sha_count ctxt + padlen) mod 256) mod 64\<rparr>)) }
         else Some ctxt)"

definition sha1_pad :: "sha1_ctxt \<Rightarrow> sha1_ctxt option" where
  "sha1_pad ctxt =
     do { ctxt \<leftarrow> PUTPAD 0x80 ctxt;
          ctxt \<leftarrow> sha1_pad_step ctxt;
          let padstart = sha_count ctxt mod 64;
          let padlen = 64 - padstart;
          m \<leftarrow> bzero (sha_m ctxt) padstart (padlen - 8);
          let ctxt = ctxt\<lparr>sha_m := m, sha_count := ((sha_count ctxt + (padlen - 8)) mod 256) mod 64\<rparr>;
          putpads (rev (le_bytes64 (sha_c ctxt))) ctxt }"

function sha1_loop :: "sha1_ctxt \<Rightarrow> u8 list \<Rightarrow> sha1_ctxt option" where
  "sha1_loop ctxt input =
     (if input = [] then Some ctxt
      else
        let gapstart = sha_count ctxt mod 64; gaplen = 64 - gapstart; copysiz = min gaplen (length input)
        in do {
          m \<leftarrow> memcpy_to (sha_m ctxt) gapstart input 0 copysiz;
          let ctxt = ctxt\<lparr>sha_m := m, sha_count := ((sha_count ctxt + copysiz) mod 256) mod 64, sha_c := sha_c ctxt + of_nat copysiz * 8\<rparr>;
          sha1_loop (if sha_count ctxt mod 64 = 0 then sha1_step ctxt else ctxt) (drop copysiz input) })"
  by pat_completeness auto
termination
  by (relation "measure (\<lambda>(ctxt, input). length input)") (auto simp: min_def)

declare sha1_loop.simps [simp del]

definition le_bytes32 :: "u32 \<Rightarrow> u8 list" where
  "le_bytes32 c = map (\<lambda>i. ucast (drop_bit (8 * i) c)) [0..<4]"

definition sha1_result :: "sha1_ctxt \<Rightarrow> u8 list option" where
  "sha1_result ctxt =
     do { ctxt \<leftarrow> sha1_pad ctxt;
          let b8 = (case sha_h ctxt of (h0, h1, h2, h3, h4) \<Rightarrow> concat (map le_bytes32 [h0, h1, h2, h3, h4]));
          Some (map (\<lambda>i. b8 ! (4 * (i div 4) + (3 - i mod 4))) [0..<20]) }"

definition lws_SHA1 :: "u8 list \<Rightarrow> u8 list option" where
  "lws_SHA1 d = do { ctx \<leftarrow> sha1_loop sha1_init d; sha1_result ctx }"


subsection \<open>The standard\<close>

definition sha1_padding :: "nat \<Rightarrow> u8 list" where
  "sha1_padding n = [0x80] @ replicate ((119 - n mod 64) mod 64) 0 @ rev (le_bytes64 (of_nat (8 * n)))"

definition be32 :: "u8 list \<Rightarrow> u32" where
  "be32 bs = foldl (\<lambda>x b. push_bit 8 x OR ucast b) 0 bs"

fun sha1_schedule :: "u8 list \<Rightarrow> nat \<Rightarrow> u32" where
  "sha1_schedule block t =
     (if t < 16 then be32 (take 4 (drop (4 * t) block))
      else word_rotl 1 (((sha1_schedule block (t - 3) XOR sha1_schedule block (t - 8)) XOR sha1_schedule block (t - 14)) XOR sha1_schedule block (t - 16)))"

declare sha1_schedule.simps [simp del]

definition fips_f :: "nat \<Rightarrow> u32 \<Rightarrow> u32 \<Rightarrow> u32 \<Rightarrow> u32" where
  "fips_f t b c d =
     (if t < 20 then (b AND c) OR (NOT b AND d)
      else if t < 40 then b XOR c XOR d
      else if t < 60 then (b AND c) OR (b AND d) OR (c AND d)
      else b XOR c XOR d)"

definition fips_K :: "nat \<Rightarrow> u32" where
  "fips_K t = (if t < 20 then 0x5a827999 else if t < 40 then 0x6ed9eba1 else if t < 60 then 0x8f1bbcdc else 0xca62c1d6)"

definition fips_round :: "u8 list \<Rightarrow> sha1_words \<Rightarrow> nat \<Rightarrow> sha1_words" where
  "fips_round block st t =
     (case st of (a, b, c, d, e) \<Rightarrow>
        (word_rotl 5 a + fips_f t b c d + e + sha1_schedule block t + fips_K t, a, word_rotl 30 b, c, d))"

definition sha1_compress :: "sha1_words \<Rightarrow> u8 list \<Rightarrow> sha1_words" where
  "sha1_compress h block = sha1_add h (foldl (fips_round block) h [0..<80])"

fun blocks :: "u8 list \<Rightarrow> u8 list list" where
  "blocks bs = (if length bs < 64 then [] else take 64 bs # blocks (drop 64 bs))"

declare blocks.simps [simp del]

definition sha1_reference :: "u8 list \<Rightarrow> u8 list" where
  "sha1_reference msg =
     (case foldl sha1_compress (0x67452301, 0xefcdab89, 0x98badcfe, 0x10325476, 0xc3d2e1f0) (blocks (msg @ sha1_padding (length msg))) of
        (h0, h1, h2, h3, h4) \<Rightarrow> concat (map (rev \<circ> le_bytes32) [h0, h1, h2, h3, h4]))"


subsection \<open>The rounds\<close>

lemma rotl_bit: "bit (word_rotl n (x :: u32)) k \<longleftrightarrow> k < 32 \<and> bit x ((k + (32 - n mod 32)) mod 32)"
  by (simp add: bit_word_rotl_iff nat_of_num_numeral)

lemma sha1_S_rotl: "0 < n \<Longrightarrow> n < 32 \<Longrightarrow> sha1_S n x = word_rotl n x"
proof (rule bit_word_eqI)
  fix k assume n: "0 < n" "n < 32" and "k < LENGTH(32)"
  then have k: "k < 32" by simp
  show "bit (sha1_S n x) k = bit (word_rotl n x) k"
  proof (cases "k < n")
    case True
    then have "(k + (32 - n mod 32)) mod 32 = 32 - n + k" using n by (subst mod_less) auto
    with True k n show ?thesis by (simp add: sha1_S_def rotl_bit bit_or_iff bit_push_bit_iff bit_drop_bit_eq)
  next
    case False
    then have e: "k + (32 - n mod 32) = k - n + 32" using n by simp
    have "(k + (32 - n mod 32)) mod 32 = k - n" unfolding e using k by simp
    moreover have "\<not> bit x (32 - n + k)" using False n by (intro notI) (drule bit_imp_le_length, simp)
    ultimately show ?thesis using False k n by (simp add: sha1_S_def rotl_bit bit_or_iff bit_push_bit_iff bit_drop_bit_eq)
  qed
qed

lemma be32_four: "be32 [a, b, c, d] = ((ucast d OR push_bit 8 (ucast c)) OR push_bit 16 (ucast b)) OR push_bit 24 (ucast a)"
  by (simp add: be32_def push_bit_or or.commute or.left_commute or.assoc)

lemma take4: "n + 4 \<le> length xs \<Longrightarrow> take 4 (drop n xs) = [xs ! n, xs ! (n + 1), xs ! (n + 2), xs ! (n + 3)]"
  by (rule nth_equalityI) (auto simp: nth_Cons less_Suc_eq numeral_eq_Suc)

lemma le_words_swap: "length m = 64 \<Longrightarrow> n < 16 \<Longrightarrow> le_words (sha1_swap m) ! n = be32 (take 4 (drop (4 * n) m))"
proof -
  assume m: "length m = 64" and n: "n < 16"
  have s: "sha1_swap m ! (4 * n + i) = m ! (4 * n + (3 - i))" if "i < 4" for i
    using that n by (simp add: sha1_swap_def)
  show ?thesis using n m s [of 0] s [of 1] s [of 2] s [of 3]
    by (simp add: le_words_def le32_def take4 be32_four)
qed

text \<open>The words in the circular buffer before round \<open>t\<close>.\<close>

definition sched :: "u8 list \<Rightarrow> nat \<Rightarrow> u32 list \<Rightarrow> bool" where
  "sched block t w \<longleftrightarrow> length w = 16 \<and> (\<forall>j. t - 16 \<le> j \<and> j < max t 16 \<longrightarrow> w ! (j mod 16) = sha1_schedule block j)"

lemma schedule_first: "t < 16 \<Longrightarrow> sha1_schedule block t = be32 (take 4 (drop (4 * t) block))"
  by (subst sha1_schedule.simps) simp

lemma schedule_next: "16 \<le> t \<Longrightarrow> sha1_schedule block t =
    word_rotl 1 (((sha1_schedule block (t - 3) XOR sha1_schedule block (t - 8)) XOR sha1_schedule block (t - 14)) XOR sha1_schedule block (t - 16))"
  by (subst sha1_schedule.simps) simp

lemma sched_init: "length m = 64 \<Longrightarrow> sched m 0 (le_words (sha1_swap m))"
  by (simp add: sched_def le_words_swap schedule_first) (simp add: le_words_def)

lemma sched_next:
  assumes "sched block t w" "16 \<le> t"
  shows "sched block (Suc t) (w[t mod 16 := sha1_S 1 (((w ! ((t mod 16 + 13) mod 16) XOR w ! ((t mod 16 + 8) mod 16)) XOR
    w ! ((t mod 16 + 2) mod 16)) XOR w ! (t mod 16))])"
proof -
  obtain u where t: "t = u + 16" using assms(2) by (metis le_add_diff_inverse2)
  have w: "w ! (j mod 16) = sha1_schedule block j" if "u \<le> j" "j < u + 16" for j
    using assms(1) that t by (auto simp: sched_def)
  have lw: "length w = 16" using assms(1) by (simp add: sched_def)
  have m: "(t mod 16 + 13) mod 16 = (u + 13) mod 16" "(t mod 16 + 8) mod 16 = (u + 8) mod 16" "(t mod 16 + 2) mod 16 = (u + 2) mod 16"
    "t mod 16 = u mod 16" unfolding t by (simp_all only: mod_add_self2 mod_add_left_eq)
  have sc: "sha1_schedule block t = word_rotl 1 (((sha1_schedule block (u + 13) XOR sha1_schedule block (u + 8)) XOR sha1_schedule block (u + 2)) XOR
      sha1_schedule block u)"
    using schedule_next [OF assms(2), of block] by (simp add: t add.commute)
  have "sha1_S 1 (((w ! ((t mod 16 + 13) mod 16) XOR w ! ((t mod 16 + 8) mod 16)) XOR w ! ((t mod 16 + 2) mod 16)) XOR w ! (t mod 16)) =
      sha1_schedule block t"
    unfolding m(1-3) unfolding m(4) sc using w [of "u + 13"] w [of "u + 8"] w [of "u + 2"] w [of u] by (simp add: sha1_S_rotl)
  then have new: "w[t mod 16 := sha1_S 1 (((w ! ((t mod 16 + 13) mod 16) XOR w ! ((t mod 16 + 8) mod 16)) XOR w ! ((t mod 16 + 2) mod 16)) XOR w ! (t mod 16))] =
      w[t mod 16 := sha1_schedule block t]" by simp
  have "w[t mod 16 := sha1_schedule block t] ! (j mod 16) = sha1_schedule block j" if "Suc t - 16 \<le> j" "j < max (Suc t) 16" for j
  proof (cases "j = t")
    case False
    with that t have l: "u < j" "j < u + 16" by auto
    then have "\<not> 16 dvd j - u" by (intro nat_dvd_not_less) simp_all
    then have "j mod 16 \<noteq> u mod 16" using l(1) mod_eq_dvd_iff_nat [of u j 16] by simp
    then have "j mod 16 \<noteq> t mod 16" unfolding m(4) .
    with w [of j] l show ?thesis by simp
  qed (simp add: lw)
  then show ?thesis unfolding new by (simp add: sched_def lw)
qed

lemma sha1_K: "t < 80 \<Longrightarrow> sha1_K t = fips_K t"
proof -
  assume "t < 80"
  then consider "t < 20" | "20 \<le> t" "t < 40" | "40 \<le> t" "t < 60" | "60 \<le> t" "t < 80" by linarith
  then show ?thesis
  proof cases
    case 2
    then have "t div 20 = 1" by simp
    with 2 show ?thesis by (simp add: sha1_K_def fips_K_def)
  next
    case 3
    then have "t div 20 = 2" by simp
    with 3 show ?thesis by (simp add: sha1_K_def fips_K_def)
  next
    case 4
    then have "t div 20 = 3" by simp
    with 4 show ?thesis by (simp add: sha1_K_def fips_K_def)
  qed (simp add: sha1_K_def fips_K_def)
qed

lemma sha1_round_ok:
  assumes "sched block t w" "t < 80" "F = fips_f t"
  shows "\<exists>w'. sha1_round F t (w, v) = (w', fips_round block v t) \<and> sched block (Suc t) w'"
proof (cases "16 \<le> t")
  case True
  let ?w = "w[t mod 16 := sha1_S 1 (((w ! ((t mod 16 + 13) mod 16) XOR w ! ((t mod 16 + 8) mod 16)) XOR
    w ! ((t mod 16 + 2) mod 16)) XOR w ! (t mod 16))]"
  have s: "sched block (Suc t) ?w" by (rule sched_next [OF assms(1) True])
  have "?w ! (t mod 16) = sha1_schedule block t"
    by (rule s [unfolded sched_def, THEN conjunct2, rule_format]) (use True in simp)
  with s True assms(2,3) show ?thesis
    by (cases v) (simp add: sha1_round_def fips_round_def Let_def sha1_S_rotl sha1_K del: nth_list_update_eq)
next
  case False
  with assms(1) have "sched block (Suc t) w" "w ! (t mod 16) = sha1_schedule block t" by (auto simp: sched_def)
  with False assms(2,3) show ?thesis by (cases v) (simp add: sha1_round_def fips_round_def Let_def sha1_S_rotl sha1_K)
qed

lemma sha1_for_ok:
  assumes "sched block t0 w" "t0 \<le> t1" "t1 \<le> 80" "\<And>t. t0 \<le> t \<Longrightarrow> t < t1 \<Longrightarrow> F = fips_f t"
  shows "\<exists>w'. sha1_for F t0 t1 (w, v) = (w', foldl (fips_round block) v [t0..<t1]) \<and> sched block t1 w'"
  using assms(2-)
proof (induction t1 rule: dec_induct)
  case base
  with assms(1) show ?case by (simp add: sha1_for_def)
next
  case (step t)
  then obtain w1 where w1: "sha1_for F t0 t (w, v) = (w1, foldl (fips_round block) v [t0..<t])" "sched block t w1" by auto
  have c: "t < 80" "F = fips_f t" using step.prems step.hyps by auto
  obtain w2 where "sha1_round F t (w1, foldl (fips_round block) v [t0..<t]) = (w2, fips_round block (foldl (fips_round block) v [t0..<t]) t)"
    "sched block (Suc t) w2"
    using sha1_round_ok [OF w1(2) c, of "foldl (fips_round block) v [t0..<t]"] by blast
  with w1(1) step.hyps show ?case by (simp add: sha1_for_def)
qed

lemma fips_f_cases:
  "t < 20 \<Longrightarrow> fips_f t = sha1_F0" "20 \<le> t \<Longrightarrow> t < 40 \<Longrightarrow> fips_f t = sha1_F1" "40 \<le> t \<Longrightarrow> t < 60 \<Longrightarrow> fips_f t = sha1_F2"
  "60 \<le> t \<Longrightarrow> fips_f t = sha1_F3"
  by (simp_all add: fun_eq_iff fips_f_def sha1_F0_def sha1_F1_def sha1_F2_def sha1_F3_def xor.assoc or.assoc)

lemma sha1_step_ok:
  assumes "length (sha_m ctxt) = 64"
  shows "sha1_step ctxt = ctxt\<lparr>sha_h := sha1_compress (sha_h ctxt) (sha_m ctxt), sha_m := replicate 64 0\<rparr>"
proof -
  let ?m = "sha_m ctxt"
  define r where "r t = foldl (fips_round (sha_m ctxt)) (sha_h ctxt) [0..<t]" for t
  have up: "foldl (fips_round ?m) (r t0) [t0..<t1] = r t1" if "t0 \<le> t1" for t0 t1
    using that upt_add_eq_append [of 0 t0 "t1 - t0"] by (simp add: r_def)
  have rounds: "\<exists>w'. sha1_for F t0 t1 (w, r t0) = (w', r t1) \<and> sched ?m t1 w'"
    if "sched ?m t0 w" "t0 \<le> t1" "t1 \<le> 80" "\<And>t. t0 \<le> t \<Longrightarrow> t < t1 \<Longrightarrow> F = fips_f t" for F t0 t1 w
    using sha1_for_ok [OF that, of "r t0"] unfolding up [OF that(2)] .
  obtain w1 where 1: "sha1_for sha1_F0 0 20 (le_words (sha1_swap ?m), r 0) = (w1, r 20)" "sched ?m 20 w1"
    using rounds [OF sched_init [OF assms], of 20 sha1_F0] by (auto simp: fips_f_cases)
  obtain w2 where 2: "sha1_for sha1_F1 20 40 (w1, r 20) = (w2, r 40)" "sched ?m 40 w2"
    using rounds [OF 1(2), of 40 sha1_F1] by (auto simp: fips_f_cases)
  obtain w3 where 3: "sha1_for sha1_F2 40 60 (w2, r 40) = (w3, r 60)" "sched ?m 60 w3"
    using rounds [OF 2(2), of 60 sha1_F2] by (auto simp: fips_f_cases)
  obtain w4 where 4: "sha1_for sha1_F3 60 80 (w3, r 60) = (w4, r 80)"
    using rounds [OF 3(2), of 80 sha1_F3] by (auto simp: fips_f_cases)
  have "r 0 = sha_h ctxt" by (simp add: r_def)
  with 1 2 3 4 have "sha1_step ctxt = ctxt\<lparr>sha_h := sha1_add (sha_h ctxt) (r 80), sha_m := replicate 64 0\<rparr>"
    by (simp add: sha1_step_def Let_def)
  then show ?thesis by (simp only: sha1_compress_def r_def)
qed


subsection \<open>The blocks\<close>

definition rest_block :: "u8 list \<Rightarrow> u8 list" where
  "rest_block bs = drop (64 * (length bs div 64)) bs"

lemma rest_block_length: "length (rest_block bs) = length bs mod 64"
  by (simp add: rest_block_def minus_mult_div_eq_mod)

lemma blocks_append: "blocks (a @ b) = blocks a @ blocks (rest_block a @ b)"
proof (induction a rule: blocks.induct)
  case (1 a)
  show ?case
  proof (cases "length a < 64")
    case True
    then show ?thesis by (simp add: rest_block_def blocks.simps [of a])
  next
    case False
    have "length a div 64 = Suc (length (drop 64 a) div 64)" using False by (simp add: le_div_geq)
    then have "rest_block (drop 64 a) = rest_block a" by (simp add: rest_block_def add.commute)
    with 1 [OF False] False show ?thesis by (simp add: blocks.simps [of "a @ b"] blocks.simps [of a])
  qed
qed

lemma blocks_short: "length bs < 64 \<Longrightarrow> blocks bs = []"
  by (simp add: blocks.simps)

lemma blocks_one: "length bs = 64 \<Longrightarrow> blocks bs = [bs]"
  by (simp add: blocks.simps [of bs] blocks_short)

text \<open>The context after the bytes \<open>bs\<close>.\<close>

definition sha_at :: "u8 list \<Rightarrow> sha1_ctxt \<Rightarrow> bool" where
  "sha_at bs ctxt \<longleftrightarrow> sha_h ctxt = foldl sha1_compress (sha_h sha1_init) (blocks bs) \<and> sha_count ctxt = length bs mod 64 \<and>
     sha_m ctxt = rest_block bs @ replicate (64 - length bs mod 64) 0"

lemma sha_at_init: "sha_at [] sha1_init"
  by (simp add: sha_at_def sha1_init_def blocks_short rest_block_def)

text \<open>Bytes that fit into the block are put behind those that are there, and a full block is hashed.\<close>

lemma absorb:
  assumes at: "sha_at bs ctxt" and x: "x \<noteq> []" "length x \<le> 64 - length bs mod 64"
  defines "c1 \<equiv> ctxt\<lparr>sha_m := take (length bs mod 64) (sha_m ctxt) @ x @ drop (length bs mod 64 + length x) (sha_m ctxt),
    sha_count := ((sha_count ctxt + length x) mod 256) mod 64\<rparr>"
  shows "sha_at (bs @ x) (if sha_count c1 mod 64 = 0 then sha1_step c1 else c1)"
proof -
  let ?g = "length bs mod 64"
  have g: "?g < 64" by simp
  have m: "sha_m c1 = (rest_block bs @ x) @ replicate (64 - (?g + length x)) 0"
    using at x(2) by (simp add: c1_def sha_at_def rest_block_length)
  have "((?g + length x) mod 256) mod 64 = (?g + length x) mod 64" by (simp add: mod_mod_cancel)
  then have cnt: "sha_count c1 = length (bs @ x) mod 64" using at by (simp add: c1_def sha_at_def mod_add_left_eq)
  have h: "sha_h c1 = foldl sha1_compress (sha_h sha1_init) (blocks bs)" using at by (simp add: c1_def sha_at_def)
  show ?thesis
  proof (cases "?g + length x = 64")
    case True
    then have z: "length (bs @ x) mod 64 = 0" by (metis length_append mod_add_left_eq mod_self)
    have l: "length (rest_block bs @ x) = 64" using True by (simp add: rest_block_length)
    have m2: "sha_m c1 = rest_block bs @ x" using m unfolding True by simp
    then have "length (sha_m c1) = 64" using l by simp
    from sha1_step_ok [OF this] have "sha1_step c1 = c1\<lparr>sha_h := sha1_compress (sha_h c1) (rest_block bs @ x), sha_m := replicate 64 0\<rparr>"
      by (simp only: m2)
    moreover have "blocks (bs @ x) = blocks bs @ [rest_block bs @ x]" using blocks_append [of bs x] blocks_one [OF l] by simp
    moreover have "rest_block (bs @ x) = []" using rest_block_length [of "bs @ x"] z by simp
    ultimately show ?thesis using cnt h z by (simp add: sha_at_def)
  next
    case False
    then have lt: "?g + length x < 64" using x(2) g by linarith
    have z: "length (bs @ x) mod 64 = ?g + length x" using lt by (metis length_append mod_add_left_eq mod_less)
    have nz: "sha_count c1 mod 64 \<noteq> 0" unfolding cnt z using lt x(1) by simp
    have "length (bs @ x) = 64 * (length bs div 64) + (?g + length x)"
      using mult_div_mod_eq [of 64 "length bs"] by (simp only: length_append add.assoc [symmetric])
    then have "length (bs @ x) div 64 = length bs div 64" using lt by (metis add_cancel_right_right div_less div_mult_self4 zero_neq_numeral)
    then have "rest_block (bs @ x) = rest_block bs @ x" by (simp add: rest_block_def)
    moreover have "blocks (bs @ x) = blocks bs" using lt blocks_append [of bs x] by (simp add: blocks_short rest_block_length)
    ultimately have "sha_at (bs @ x) c1" using cnt h m unfolding sha_at_def z by simp
    with nz show ?thesis by simp
  qed
qed

lemma sha_at_c [simp]: "sha_at bs (ctxt\<lparr>sha_c := v\<rparr>) = sha_at bs ctxt"
  by (simp add: sha_at_def)

lemma sha1_step_c [simp]: "sha_c (sha1_step ctxt) = sha_c ctxt"
  by (simp add: sha1_step_def Let_def)

lemma sha_at_length: "sha_at bs ctxt \<Longrightarrow> length (sha_m ctxt) = 64"
  by (simp add: sha_at_def rest_block_length)

lemma sha_at_count: "sha_at bs ctxt \<Longrightarrow> sha_count ctxt = length bs mod 64"
  by (simp add: sha_at_def)

lemma sha1_loop_ok:
  "sha_at bs ctxt \<Longrightarrow> \<exists>c'. sha1_loop ctxt input = Some c' \<and> sha_at (bs @ input) c' \<and> sha_c c' = sha_c ctxt + of_nat (length input) * 8"
proof (induction "length input" arbitrary: input ctxt bs rule: less_induct)
  case less
  show ?case
  proof (cases "input = []")
    case True
    with less.prems show ?thesis by (simp add: sha1_loop.simps)
  next
    case False
    define n where "n = min (64 - length bs mod 64) (length input)"
    define x where "x = take n input"
    have g: "length bs mod 64 < 64" by simp
    have n: "0 < n" "n \<le> length input" "length x = n" using False g by (auto simp: n_def x_def)
    define c0 where "c0 = ctxt\<lparr>sha_c := sha_c ctxt + of_nat n * 8\<rparr>"
    define c1 where "c1 = c0\<lparr>sha_m := take (length bs mod 64) (sha_m c0) @ x @ drop (length bs mod 64 + length x) (sha_m c0),
      sha_count := ((sha_count c0 + length x) mod 256) mod 64\<rparr>"
    define c2 where "c2 = (if sha_count c1 mod 64 = 0 then sha1_step c1 else c1)"
    have at0: "sha_at bs c0" using less.prems by (simp add: c0_def)
    have "x \<noteq> []" using n(1,3) by auto
    moreover have "length x \<le> 64 - length bs mod 64" unfolding n(3) by (simp add: n_def)
    ultimately have x: "x \<noteq> []" "length x \<le> 64 - length bs mod 64" .
    from absorb [OF at0 x] have at2: "sha_at (bs @ x) c2" unfolding c2_def c1_def .
    have c2: "sha_c c2 = sha_c ctxt + of_nat n * 8" by (simp add: c2_def c1_def c0_def)
    have cp: "memcpy_to (sha_m ctxt) (length bs mod 64) input 0 n = Some (sha_m c1)"
      using n sha_at_length [OF less.prems] by (subst memcpy_to_Some) (auto simp: c1_def c0_def x_def n_def)
    have "ctxt\<lparr>sha_m := sha_m c1, sha_count := ((sha_count ctxt + n) mod 256) mod 64, sha_c := sha_c ctxt + of_nat n * 8\<rparr> = c1"
      by (simp add: c1_def c0_def n(3))
    moreover have "sha_count c1 mod 64 = (length bs mod 64 + n) mod 64"
      using sha_at_count [OF less.prems] by (simp add: c1_def c0_def n(3) mod_mod_cancel)
    ultimately have "sha1_loop ctxt input = sha1_loop c2 (drop n input)"
      using False cp sha_at_count [OF less.prems] by (subst sha1_loop.simps) (simp add: Let_def n_def [symmetric] c2_def)
    moreover have lt: "length (drop n input) < length input" using n False by simp
    obtain c' where "sha1_loop c2 (drop n input) = Some c'" "sha_at ((bs @ x) @ drop n input) c'"
      "sha_c c' = sha_c c2 + of_nat (length (drop n input)) * 8"
      using less.hyps [OF lt at2] by blast
    moreover have "of_nat n * 8 + of_nat (length input - n) * 8 = (of_nat (length input) * 8 :: u64)"
      using n(2) by (simp add: of_nat_diff algebra_simps)
    ultimately show ?thesis using c2 by (simp add: x_def add.assoc)
  qed
qed

text \<open>Padding.\<close>

lemma PUTPAD_ok:
  assumes "sha_at bs ctxt"
  shows "\<exists>c'. PUTPAD x ctxt = Some c' \<and> sha_at (bs @ [x]) c' \<and> sha_c c' = sha_c ctxt"
proof -
  let ?g = "length bs mod 64"
  have g: "?g < 64" by simp
  have l: "length (sha_m ctxt) = 64" by (rule sha_at_length [OF assms])
  have "wr (sha_m ctxt) ?g x = Some (take ?g (sha_m ctxt) @ [x] @ drop (?g + length [x]) (sha_m ctxt))"
    using g l by (simp add: wr_Some upd_conv_take_nth_drop)
  moreover have "sha_at (bs @ [x]) (let c1 = ctxt\<lparr>sha_m := take ?g (sha_m ctxt) @ [x] @ drop (?g + length [x]) (sha_m ctxt),
      sha_count := ((sha_count ctxt + length [x]) mod 256) mod 64\<rparr> in if sha_count c1 mod 64 = 0 then sha1_step c1 else c1)"
    unfolding Let_def by (rule absorb [OF assms]) (use g in auto)
  ultimately show ?thesis using sha_at_count [OF assms] by (auto simp: PUTPAD_def Let_def)
qed

lemma putpads_ok: "sha_at bs ctxt \<Longrightarrow> \<exists>c'. putpads xs ctxt = Some c' \<and> sha_at (bs @ xs) c' \<and> sha_c c' = sha_c ctxt"
proof (induction xs arbitrary: bs ctxt)
  case (Cons x xs)
  from PUTPAD_ok [OF Cons.prems, of x] obtain c1 where c1: "PUTPAD x ctxt = Some c1" "sha_at (bs @ [x]) c1" "sha_c c1 = sha_c ctxt" by blast
  from Cons.IH [OF c1(2)] c1 show ?case by auto
qed auto

text \<open>Zeros that fit.\<close>

lemma bzero_ok:
  assumes "sha_at bs ctxt" "n \<le> 64 - length bs mod 64"
  shows "bzero (sha_m ctxt) (length bs mod 64) n =
    Some (take (length bs mod 64) (sha_m ctxt) @ replicate n 0 @ drop (length bs mod 64 + length (replicate n (0 :: u8))) (sha_m ctxt))"
  using assms sha_at_length [OF assms(1)] by (auto simp: bzero_def memcpy_to_def)

lemma absorb_zeros:
  assumes "sha_at bs ctxt" "n \<le> 64 - length bs mod 64" "0 < n"
  shows "\<exists>m. bzero (sha_m ctxt) (length bs mod 64) n = Some m \<and>
    (let c1 = ctxt\<lparr>sha_m := m, sha_count := ((sha_count ctxt + n) mod 256) mod 64\<rparr>
     in sha_at (bs @ replicate n 0) (if (length bs + n) mod 64 = 0 then sha1_step c1 else c1))"
proof -
  define m where "m = take (length bs mod 64) (sha_m ctxt) @ replicate n 0 @ drop (length bs mod 64 + n) (sha_m ctxt)"
  define c1 where "c1 = ctxt\<lparr>sha_m := m, sha_count := ((sha_count ctxt + n) mod 256) mod 64\<rparr>"
  have r: "replicate n (0 :: u8) \<noteq> []" "length (replicate n (0 :: u8)) \<le> 64 - length bs mod 64" using assms(2,3) by auto
  have at: "sha_at (bs @ replicate n 0) (if sha_count c1 mod 64 = 0 then sha1_step c1 else c1)"
    unfolding c1_def m_def by (rule absorb [OF assms(1) r, unfolded length_replicate])
  have "sha_count c1 mod 64 = (length bs + n) mod 64"
    using sha_at_count [OF assms(1)] by (simp add: c1_def mod_mod_cancel mod_add_left_eq)
  moreover have "bzero (sha_m ctxt) (length bs mod 64) n = Some m" using bzero_ok [OF assms(1,2)] by (simp add: m_def)
  ultimately show ?thesis using at by (intro exI [of _ m]) (simp only: Let_def flip: c1_def)
qed

lemma zeros_ok:
  assumes "sha_at bs ctxt" "n \<le> 64 - length bs mod 64" "(length bs + n) mod 64 \<noteq> 0"
  shows "\<exists>m. bzero (sha_m ctxt) (length bs mod 64) n = Some m \<and>
    sha_at (bs @ replicate n 0) (ctxt\<lparr>sha_m := m, sha_count := ((sha_count ctxt + n) mod 256) mod 64\<rparr>)"
proof (cases "n = 0")
  case True
  have "sha_count ctxt mod 256 mod 64 = sha_count ctxt" using sha_at_count [OF assms(1)] by simp
  with True assms(1) bzero_ok [OF assms(1,2)] show ?thesis by simp
next
  case False
  with absorb_zeros [OF assms(1,2)] assms(3) show ?thesis by (simp add: Let_def)
qed

text \<open>After the first byte of padding there is a block to fill up when fewer than eight bytes are left in it.\<close>

lemma sha1_pad_step_ok:
  assumes "sha_at bs ctxt"
  defines "z \<equiv> (if 64 - length bs mod 64 < 8 then 64 - length bs mod 64 else 0)"
  shows "\<exists>c'. sha1_pad_step ctxt = Some c' \<and> sha_at (bs @ replicate z 0) c' \<and> sha_c c' = sha_c ctxt"
proof (cases "64 - length bs mod 64 < 8")
  case True
  have cnt: "sha_count ctxt mod 64 = length bs mod 64" using sha_at_count [OF assms(1)] by simp
  have "length bs mod 64 + (64 - length bs mod 64) = 64" by simp
  then have "(length bs + (64 - length bs mod 64)) mod 64 = 0" by (metis mod_add_left_eq mod_self)
  moreover have "0 < 64 - length bs mod 64" by simp
  ultimately obtain m where "bzero (sha_m ctxt) (length bs mod 64) (64 - length bs mod 64) = Some m"
    "sha_at (bs @ replicate (64 - length bs mod 64) 0)
       (sha1_step (ctxt\<lparr>sha_m := m, sha_count := ((sha_count ctxt + (64 - length bs mod 64)) mod 256) mod 64\<rparr>))"
    using absorb_zeros [OF assms(1), of "64 - length bs mod 64"] by (auto simp: Let_def)
  with True show ?thesis by (simp add: sha1_pad_step_def Let_def cnt z_def)
next
  case False
  then show ?thesis using assms(1) sha_at_count [OF assms(1)] by (simp add: sha1_pad_step_def Let_def z_def)
qed

lemma pad_zeros:
  fixes r :: nat
  assumes "r < 64"
  defines "k \<equiv> (r + 1) mod 64"
  defines "z \<equiv> (if 64 - k < 8 then 64 - k else 0)"
  shows "(k + z) mod 64 \<le> 56 \<and> z + (56 - (k + z) mod 64) = (119 - r) mod 64"
proof -
  consider "r = 63" | "56 \<le> r" "r < 63" | "r < 56" using assms(1) by linarith
  then show ?thesis
  proof cases
    case 1
    then show ?thesis by (simp add: k_def z_def)
  next
    case 2
    then have k: "k = r + 1" by (simp add: k_def)
    then have "z = 63 - r" using 2 by (simp add: z_def)
    with k 2 show ?thesis by (simp add: mod_if)
  next
    case 3
    then have k: "k = r + 1" by (simp add: k_def)
    then have z: "z = 0" using 3 by (simp add: z_def)
    have e: "119 - r = 55 - r + 64" using 3 by simp
    have "(119 - r) mod 64 = 55 - r" unfolding e mod_add_self2 by simp
    with k z 3 show ?thesis by simp
  qed
qed

lemma sha1_pad_ok:
  assumes "sha_at bs ctxt" "sha_c ctxt = of_nat (8 * length bs)"
  shows "\<exists>c'. sha1_pad ctxt = Some c' \<and> sha_at (bs @ sha1_padding (length bs)) c'"
proof -
  define r where "r = length bs mod 64"
  define z where "z = (if 64 - (r + 1) mod 64 < 8 then 64 - (r + 1) mod 64 else 0)"
  define bs2 where "bs2 = (bs @ [0x80]) @ replicate z (0 :: u8)"
  define k2 where "k2 = ((r + 1) mod 64 + z) mod 64"
  have k: "length (bs @ [0x80 :: u8]) mod 64 = (r + 1) mod 64" by (simp add: r_def mod_Suc_eq)
  have "length bs2 mod 64 = (length (bs @ [0x80 :: u8]) mod 64 + z) mod 64" by (simp only: bs2_def length_append length_replicate mod_add_left_eq)
  then have k2: "length bs2 mod 64 = k2" unfolding k by (simp only: k2_def)
  have "r < 64" by (simp add: r_def)
  from pad_zeros [OF this] have z: "k2 \<le> 56" "z + (56 - k2) = (119 - r) mod 64" unfolding k2_def z_def by blast+
  from PUTPAD_ok [OF assms(1), of "0x80"] obtain c1 where c1: "PUTPAD 0x80 ctxt = Some c1" "sha_at (bs @ [0x80]) c1" "sha_c c1 = sha_c ctxt" by blast
  from sha1_pad_step_ok [OF c1(2)] obtain c2 where c2: "sha1_pad_step c1 = Some c2" "sha_at bs2 c2" "sha_c c2 = sha_c c1"
    unfolding k z_def [symmetric] bs2_def [symmetric] by blast
  have cnt: "sha_count c2 mod 64 = k2" using sha_at_count [OF c2(2)] k2 by simp
  define n where "n = 64 - k2 - 8"
  have n: "n \<le> 64 - length bs2 mod 64" "n = 56 - k2" "k2 + n = 56" using z(1) k2 by (simp_all add: n_def)
  have "(length bs2 + n) mod 64 = (k2 + n) mod 64" unfolding k2 [symmetric] by (simp only: mod_add_left_eq)
  then have "(length bs2 + n) mod 64 \<noteq> 0" unfolding n(3) by simp
  from zeros_ok [OF c2(2) n(1) this] obtain m where
    m: "bzero (sha_m c2) k2 n = Some m" "sha_at (bs2 @ replicate n 0) (c2\<lparr>sha_m := m, sha_count := ((sha_count c2 + n) mod 256) mod 64\<rparr>)"
    unfolding k2 by blast
  from putpads_ok [OF m(2), of "rev (le_bytes64 (sha_c c2))"] obtain c' where
    c': "putpads (rev (le_bytes64 (sha_c c2))) (c2\<lparr>sha_m := m, sha_count := ((sha_count c2 + n) mod 256) mod 64\<rparr>) = Some c'"
      "sha_at ((bs2 @ replicate n 0) @ rev (le_bytes64 (sha_c c2))) c'" by blast
  have "replicate z (0 :: u8) @ replicate n 0 = replicate ((119 - r) mod 64) 0" using z(2) n(2) by (simp only: replicate_add [symmetric])
  then have "(bs2 @ replicate n 0) @ rev (le_bytes64 (sha_c c2)) = bs @ sha1_padding (length bs)"
    using c1(3) c2(3) assms(2) by (simp add: bs2_def sha1_padding_def r_def)
  moreover have "sha1_pad ctxt = Some c'"
    using c1(1) c2(1) m(1) c'(1) by (simp add: sha1_pad_def Let_def cnt n_def)
  ultimately show ?thesis using c'(2) by simp
qed

text \<open>C12: \<open>lws_SHA1\<close> is SHA-1: for every input it returns the digest that FIPS 180-1 defines. No access leaves the block, and the
  circular buffer of sixteen words holds the message schedule of eighty.\<close>

theorem lws_SHA1_correct: "lws_SHA1 d = Some (sha1_reference d)"
proof -
  from sha1_loop_ok [OF sha_at_init, of d] obtain c1 where
    c1: "sha1_loop sha1_init d = Some c1" "sha_at d c1" "sha_c c1 = of_nat (8 * length d)" by (auto simp: sha1_init_def mult.commute)
  from sha1_pad_ok [OF c1(2,3)] obtain c2 where
    c2: "sha1_pad c1 = Some c2" "sha_h c2 = foldl sha1_compress (sha_h sha1_init) (blocks (d @ sha1_padding (length d)))" by (auto simp: sha_at_def)
  obtain h0 h1 h2 h3 h4 where h: "sha_h c2 = (h0, h1, h2, h3, h4)" by (cases "sha_h c2")
  have "sha1_reference d = concat (map (rev \<circ> le_bytes32) [h0, h1, h2, h3, h4])"
    using c2(2) [symmetric] h by (simp add: sha1_reference_def sha1_init_def)
  moreover have "map (\<lambda>i. concat (map le_bytes32 [h0, h1, h2, h3, h4]) ! (4 * (i div 4) + (3 - i mod 4))) [0..<20] =
      concat (map (rev \<circ> le_bytes32) [h0, h1, h2, h3, h4])"
    by (simp add: le_bytes32_def upt_conv_Cons)
  ultimately show ?thesis using c1(1) c2(1) h by (simp add: lws_SHA1_def sha1_result_def)
qed

end
