(* ===== verification/Llist.thy ===== *)
theory Llist
  imports Lws_Prelude
begin

text \<open>
  Singly linked lists as the C code keeps them: the head is a pointer of its owner, every element has a pointer to
  the next one, and the loops walk with a pointer to the pointer that leads to the current element
  (\<open>lws_start_foreach_llp\<close> of \<open>lib/core/private.h\<close>, and the \<open>while (*pwsi)\<close> loops of \<open>parsers.c\<close>). Elements are
  addresses, and \<open>loc\<close> is the address of such a pointer. A walk along a chain without an end is \<open>None\<close>.
\<close>

datatype loc = Head | Next nat

record llist =
  ll_head :: "nat option"
  ll_next :: "nat \<Rightarrow> nat option"

fun ll_at :: "llist \<Rightarrow> loc \<Rightarrow> nat option" where
  "ll_at l Head = ll_head l"
| "ll_at l (Next x) = ll_next l x"

fun ll_set :: "loc \<Rightarrow> nat option \<Rightarrow> llist \<Rightarrow> llist" where
  "ll_set Head v l = l\<lparr>ll_head := v\<rparr>"
| "ll_set (Next x) v l = l\<lparr>ll_next := (ll_next l)(x := v)\<rparr>"

text \<open>The pointer that leads to \<open>x\<close>, searched from \<open>p\<close> on; and the last element from \<open>p\<close> on with the pointer to it.\<close>

partial_function (option) ll_find :: "llist \<Rightarrow> nat \<Rightarrow> loc \<Rightarrow> loc option option" where
  "ll_find l x p =
     (case ll_at l p of
        None \<Rightarrow> Some None
      | Some y \<Rightarrow> if y = x then Some (Some p) else ll_find l x (Next y))"

declare ll_find.simps [code]

partial_function (option) ll_last :: "llist \<Rightarrow> loc \<Rightarrow> (nat \<times> loc) option \<Rightarrow> (nat \<times> loc) option option" where
  "ll_last l p e =
     (case ll_at l p of
        None \<Rightarrow> Some e
      | Some y \<Rightarrow> ll_last l (Next y) (Some (y, p)))"

declare ll_last.simps [code]

definition ll_push :: "nat \<Rightarrow> llist \<Rightarrow> llist" where
  "ll_push x l = l\<lparr>ll_next := (ll_next l)(x := ll_head l), ll_head := Some x\<rparr>"

text \<open>\<open>*p = x->next; x->next = NULL;\<close>\<close>

definition ll_unlink :: "loc \<Rightarrow> nat \<Rightarrow> llist \<Rightarrow> llist" where
  "ll_unlink p x l = ll_set (Next x) None (ll_set p (ll_next l x) l)"


subsection \<open>The list a chain stands for\<close>

primrec ll_chain :: "(nat \<Rightarrow> nat option) \<Rightarrow> nat option \<Rightarrow> nat list \<Rightarrow> bool" where
  "ll_chain nx p [] \<longleftrightarrow> p = None"
| "ll_chain nx p (x # xs) \<longleftrightarrow> p = Some x \<and> ll_chain nx (nx x) xs"

definition ll_list :: "llist \<Rightarrow> nat list \<Rightarrow> bool" where
  "ll_list l xs \<longleftrightarrow> ll_chain (ll_next l) (ll_head l) xs \<and> distinct xs"

text \<open>The pointer that leads to what follows \<open>ys\<close>.\<close>

definition ll_after :: "nat list \<Rightarrow> loc" where
  "ll_after ys = (if ys = [] then Head else Next (last ys))"

lemma ll_after_simps [simp]: "ll_after [] = Head" "ll_after (ys @ [y]) = Next y"
  by (simp_all add: ll_after_def)

lemma ll_chain_upd [simp]: "x \<notin> set xs \<Longrightarrow> ll_chain (nx(x := v)) p xs = ll_chain nx p xs"
  by (induction xs arbitrary: p) auto

lemma ll_chain_at:
  "ll_chain (ll_next l) (ll_head l) (ys @ zs) \<Longrightarrow> ll_chain (ll_next l) (ll_at l (ll_after ys)) zs"
proof (induction ys arbitrary: zs rule: rev_induct)
  case (snoc y ys)
  from snoc.prems have "ll_chain (ll_next l) (ll_head l) (ys @ y # zs)" by simp
  from snoc.IH [OF this] show ?case by simp
qed simp

lemma ll_chain_cut:
  "ll_chain (ll_next l) (ll_head l) (ys @ zs) \<Longrightarrow> distinct ys \<Longrightarrow> set ys \<inter> set us = {} \<Longrightarrow>
   ll_chain (ll_next l) q us \<Longrightarrow>
   ll_chain (ll_next (ll_set (ll_after ys) q l)) (ll_head (ll_set (ll_after ys) q l)) (ys @ us)"
proof (induction ys arbitrary: zs q us rule: rev_induct)
  case (snoc y ys)
  have 1: "ll_chain nx p (ys @ y # zs) \<Longrightarrow> ll_chain (nx(y := q)) q us \<Longrightarrow> y \<notin> set ys \<Longrightarrow> ll_chain (nx(y := q)) p (ys @ y # us)" for nx p
    by (induction ys arbitrary: p) auto
  have "ll_chain ((ll_next l)(y := q)) (ll_head l) (ys @ y # us)"
    using 1 [of "ll_next l" "ll_head l"] snoc.prems by auto
  then show ?case by (simp add: fun_upd_def)
qed auto

lemma ll_find_chain:
  "ll_chain (ll_next l) (ll_at l p) xs \<Longrightarrow> x \<notin> set xs \<Longrightarrow> ll_find l x p = Some None"
  by (induction xs arbitrary: p) (subst ll_find.simps; simp)+

lemma ll_find_in:
  "ll_chain (ll_next l) (ll_at l (ll_after ys)) (zs @ x # us) \<Longrightarrow> x \<notin> set zs \<Longrightarrow>
   ll_find l x (ll_after ys) = Some (Some (ll_after (ys @ zs)))"
proof (induction zs arbitrary: ys)
  case Nil
  then show ?case by (subst ll_find.simps) simp
next
  case (Cons z zs)
  from Cons.IH [of "ys @ [z]"] Cons.prems show ?case by (subst ll_find.simps) simp
qed

lemma ll_last_chain:
  "ll_chain (ll_next l) (ll_at l (ll_after ys)) zs \<Longrightarrow>
   ll_last l (ll_after ys) e = Some (if zs = [] then e else Some (last zs, ll_after (ys @ butlast zs)))"
proof (induction zs arbitrary: ys e)
  case Nil
  then show ?case by (subst ll_last.simps) simp
next
  case (Cons z zs)
  from Cons.IH [of "ys @ [z]"] Cons.prems show ?case by (subst ll_last.simps) simp
qed


subsection \<open>The operations on that list\<close>

lemma ll_list_empty [simp]: "ll_list \<lparr>ll_head = None, ll_next = nx\<rparr> []"
  by (simp add: ll_list_def)

lemma ll_list_unique: "ll_list l xs \<Longrightarrow> ll_list l ys \<Longrightarrow> xs = ys"
proof -
  have "ll_chain nx p xs \<Longrightarrow> ll_chain nx p ys \<Longrightarrow> xs = ys" for nx p
    by (induction xs arbitrary: p ys; case_tac ys) auto
  then show "ll_list l xs \<Longrightarrow> ll_list l ys \<Longrightarrow> xs = ys" by (auto simp: ll_list_def)
qed

lemma ll_list_distinct: "ll_list l xs \<Longrightarrow> distinct xs"
  by (simp add: ll_list_def)

lemma ll_list_head: "ll_list l xs \<Longrightarrow> ll_head l = None \<longleftrightarrow> xs = []"
  by (cases xs) (auto simp: ll_list_def)

lemma ll_list_push: "ll_list l xs \<Longrightarrow> x \<notin> set xs \<Longrightarrow> ll_list (ll_push x l) (x # xs)"
  by (simp add: ll_list_def ll_push_def)

lemma ll_list_find_none: "ll_list l xs \<Longrightarrow> x \<notin> set xs \<Longrightarrow> ll_find l x Head = Some None"
  using ll_find_chain [of l Head xs x] by (simp add: ll_list_def)

lemma ll_list_find: "ll_list l (ys @ x # zs) \<Longrightarrow> ll_find l x Head = Some (Some (ll_after ys))"
  using ll_find_in [of l "[]" ys x zs] by (simp add: ll_list_def)

lemma ll_list_last: "ll_list l xs \<Longrightarrow> ll_last l Head None = Some (if xs = [] then None else Some (last xs, ll_after (butlast xs)))"
  using ll_last_chain [of l "[]" xs None] by (simp add: ll_list_def)

text \<open>\<open>*p = x->next\<close> takes \<open>x\<close> off the list.\<close>

lemma ll_list_skip:
  assumes "ll_list l (ys @ x # zs)"
  shows "ll_list (ll_set (ll_after ys) (ll_next l x) l) (ys @ zs)"
proof -
  have "ll_chain (ll_next l) (ll_next l x) zs" using ll_chain_at [of l "ys @ [x]" zs] assms by (simp add: ll_list_def)
  with assms show ?thesis using ll_chain_cut [of l ys "x # zs" zs "ll_next l x"] by (auto simp: ll_list_def)
qed

lemma ll_list_unlink:
  assumes "ll_list l (ys @ x # zs)"
  shows "ll_list (ll_unlink (ll_after ys) x l) (ys @ zs)"
  using ll_list_skip [OF assms] assms by (auto simp: ll_list_def ll_unlink_def)

end
