(* ===== verification/Ah_Pool.thy ===== *)
theory Ah_Pool
  imports Llist Http_Headers
begin

text \<open>
  The pool of header tables (\<open>lib/roles/http/server/parsers.c\<close>, with the members of \<open>struct
  lws_context_per_thread\<close> that \<open>lib/roles/http/private.h\<close> keeps for it): at most \<open>max_http_header_pool\<close>
  connections hold a table, the others are on a list of waiting connections with their input turned off.

  The build is the default one without \<open>LWS_WITH_PEER_LIMITS\<close>, and without a client (\<open>LWS_NO_CLIENT\<close>).
  Connections and tables are addresses. \<open>service\<close> stands for the call of \<open>lws_service_fd_tsi\<close>, which reads and handles
  a request and ends in the callbacks of the user; \<open>alloc\<close> is the address a new table gets, or \<open>None\<close> when memory
  has run out. \<open>None\<close> as a result is a failed assertion or undefined behaviour. The member \<open>assigned\<close> of a table only
  serves a log message and is left out.
\<close>

record ah_pool =
  ah_list :: llist
  ah_pool_length :: nat
  ah_count_in_use :: int
  ah_wait_list :: llist
  ah_wait_list_length :: int
  ah_wsi :: "nat \<Rightarrow> nat option"
  ah_in_use :: "nat \<Rightarrow> bool"
  ah_table :: "nat \<Rightarrow> allocated_headers"
  http_ah :: "nat \<Rightarrow> nat option"
  wsi_parsing_completed :: "nat \<Rightarrow> bool"
  wsi_holding_ah :: "nat \<Rightarrow> bool"
  wsi_pollin :: "nat \<Rightarrow> bool"

text \<open>\<open>in_fds\<close> says whether a connection has a place in the table of descriptors, \<open>has_input\<close> whether it has buffered
  input, and \<open>malloc_data\<close> what fresh memory holds.\<close>

record pool_env =
  max_http_header_pool :: int
  pool_hdr :: hdr_env
  in_fds :: "nat \<Rightarrow> bool"
  has_input :: "nat \<Rightarrow> bool"
  malloc_data :: "nat \<Rightarrow> u8"

definition ah_zalloc :: "pool_env \<Rightarrow> allocated_headers" where
  "ah_zalloc env =
     \<lparr>ah_data = map (malloc_data env) [0..<max_http_header_data (pool_hdr env)], ah_frags = replicate WSI_TOKEN_COUNT frag_zero,
      ah_frag_index = replicate WSI_TOKEN_COUNT 0, ah_pos = 0, ah_http_response = 0, ah_current_token_limit = 0,
      ah_hdr_token_idx = 0, ah_lextable_pos = 0, ah_nfrag = 0, ah_ups = URIPS_IDLE, ah_ues = URIES_IDLE,
      ah_esc_stash = 0, ah_post_literal_equal = False, ah_parser_state = 0\<rparr>"

definition lws_create_ah :: "pool_env \<Rightarrow> nat option \<Rightarrow> ah_pool \<Rightarrow> nat option \<times> ah_pool" where
  "lws_create_ah env alloc pt =
     (case alloc of
        None \<Rightarrow> (None, pt)
      | Some ah \<Rightarrow>
          (Some ah, pt\<lparr>ah_table := (ah_table pt)(ah := ah_zalloc env), ah_in_use := (ah_in_use pt)(ah := False),
             ah_wsi := (ah_wsi pt)(ah := None), ah_list := ll_push ah (ah_list pt), ah_pool_length := add32 (ah_pool_length pt) 1\<rparr>))"

definition lws_destroy_ah :: "nat \<Rightarrow> ah_pool \<Rightarrow> (int \<times> ah_pool) option" where
  "lws_destroy_ah ah pt = do {
     a \<leftarrow> ll_find (ah_list pt) ah Head;
     case a of
       Some a \<Rightarrow> Some (0, pt\<lparr>ah_list := ll_set a (ll_next (ah_list pt) ah) (ah_list pt), ah_pool_length := sub32 (ah_pool_length pt) 1\<rparr>)
     | None \<Rightarrow> Some (1, pt) }"

definition lws_header_table_reset ::
    "pool_env \<Rightarrow> (nat \<Rightarrow> ah_pool \<Rightarrow> ah_pool option) \<Rightarrow> nat \<Rightarrow> bool \<Rightarrow> ah_pool \<Rightarrow> ah_pool option" where
  "lws_header_table_reset env service wsi autoservice pt =
     (case http_ah pt wsi of
        None \<Rightarrow> None
      | Some ah \<Rightarrow>
          if ah_wsi pt ah \<noteq> Some wsi then None
          else
            let pt = pt\<lparr>ah_table := (ah_table pt)(ah := lws_header_table_reset_ah (ah_table pt ah)),
                  wsi_parsing_completed := (wsi_parsing_completed pt)(wsi := False),
                  wsi_holding_ah := (wsi_holding_ah pt)(wsi := True)\<rparr>
            in if in_fds env wsi \<and> has_input env wsi \<and> autoservice then service wsi pt else Some pt)"

text \<open>What \<open>_lws_change_pollfd\<close> does to the bit \<open>LWS_POLLIN\<close> of a connection.\<close>

definition lws_change_pollin :: "pool_env \<Rightarrow> nat \<Rightarrow> bool \<Rightarrow> ah_pool \<Rightarrow> ah_pool" where
  "lws_change_pollin env wsi b pt = (if in_fds env wsi then pt\<lparr>wsi_pollin := (wsi_pollin pt)(wsi := b)\<rparr> else pt)"

definition lws_header_ensure_we_are_on_waiting_list :: "pool_env \<Rightarrow> nat \<Rightarrow> ah_pool \<Rightarrow> ah_pool option" where
  "lws_header_ensure_we_are_on_waiting_list env wsi pt = do {
     p \<leftarrow> ll_find (ah_wait_list pt) wsi Head;
     case p of
       Some _ \<Rightarrow> Some pt
     | None \<Rightarrow> Some (lws_change_pollin env wsi False
         (pt\<lparr>ah_wait_list := ll_push wsi (ah_wait_list pt), ah_wait_list_length := ah_wait_list_length pt + 1\<rparr>)) }"

definition lws_remove_from_ah_waiting_list :: "nat \<Rightarrow> ah_pool \<Rightarrow> (int \<times> ah_pool) option" where
  "lws_remove_from_ah_waiting_list wsi pt = do {
     p \<leftarrow> ll_find (ah_wait_list pt) wsi Head;
     case p of
       Some p \<Rightarrow> Some (1, pt\<lparr>ah_wait_list := ll_unlink p wsi (ah_wait_list pt), ah_wait_list_length := ah_wait_list_length pt - 1\<rparr>)
     | None \<Rightarrow> Some (0, pt) }"

text \<open>What \<open>lws_header_table_attach\<close> does once it has made a table.\<close>

definition attach_created ::
    "pool_env \<Rightarrow> (nat \<Rightarrow> ah_pool \<Rightarrow> ah_pool option) \<Rightarrow> nat \<Rightarrow> bool \<Rightarrow> nat \<Rightarrow> ah_pool \<Rightarrow> (int \<times> ah_pool) option" where
  "attach_created env service wsi autoservice ah pt = do {
     let pt = pt\<lparr>http_ah := (http_ah pt)(wsi := Some ah), ah_in_use := (ah_in_use pt)(ah := True), ah_wsi := (ah_wsi pt)(ah := Some wsi),
       ah_count_in_use := ah_count_in_use pt + 1\<rparr>;
     let pt = lws_change_pollin env wsi True pt;
     pt \<leftarrow> lws_header_table_reset env service wsi autoservice pt;
     Some (0, pt) }"

definition lws_header_table_attach ::
    "pool_env \<Rightarrow> (nat \<Rightarrow> ah_pool \<Rightarrow> ah_pool option) \<Rightarrow> nat option \<Rightarrow> nat \<Rightarrow> bool \<Rightarrow> ah_pool \<Rightarrow> (int \<times> ah_pool) option" where
  "lws_header_table_attach env service alloc wsi autoservice pt =
     (if http_ah pt wsi \<noteq> None then do { pt \<leftarrow> lws_header_table_reset env service wsi autoservice pt; Some (0, pt) }
      else if ah_count_in_use pt = max_http_header_pool env then
        do { pt \<leftarrow> lws_header_ensure_we_are_on_waiting_list env wsi pt; Some (1, pt) }
      else do {
        (_, pt) \<leftarrow> lws_remove_from_ah_waiting_list wsi pt;
        let (r, pt) = lws_create_ah env alloc pt;
        case r of
          None \<Rightarrow> do { pt \<leftarrow> lws_header_ensure_we_are_on_waiting_list env wsi (pt\<lparr>http_ah := (http_ah pt)(wsi := None)\<rparr>); Some (1, pt) }
        | Some ah \<Rightarrow> attach_created env service wsi autoservice ah pt })"

text \<open>\<open>lws_header_table_detach\<close>. Without peer limits every waiting connection is eligible, and the loop keeps the last of
  them with the pointer that leads to it. The table goes to that connection before it is taken off the list.\<close>

definition detach_transfer ::
    "pool_env \<Rightarrow> (nat \<Rightarrow> ah_pool \<Rightarrow> ah_pool option) \<Rightarrow> nat \<Rightarrow> bool \<Rightarrow> nat \<Rightarrow> loc \<Rightarrow> ah_pool \<Rightarrow> (int \<times> ah_pool) option" where
  "detach_transfer env service ah autoservice wsi pwsi_eligible pt = do {
     let pt = pt\<lparr>http_ah := (http_ah pt)(wsi := Some ah), ah_wsi := (ah_wsi pt)(ah := Some wsi)\<rparr>;
     pt \<leftarrow> lws_header_table_reset env service wsi autoservice pt;
     let pt = lws_change_pollin env wsi True pt;
     let pt = pt\<lparr>ah_wait_list := ll_unlink pwsi_eligible wsi (ah_wait_list pt), ah_wait_list_length := ah_wait_list_length pt - 1\<rparr>;
     if (ah_wait_list_length pt \<noteq> 0) \<noteq> (ll_head (ah_wait_list pt) \<noteq> None) then None
     else Some (0, pt) }"

definition lws_header_table_detach ::
    "pool_env \<Rightarrow> (nat \<Rightarrow> ah_pool \<Rightarrow> ah_pool option) \<Rightarrow> nat \<Rightarrow> bool \<Rightarrow> ah_pool \<Rightarrow> (int \<times> ah_pool) option" where
  "lws_header_table_detach env service wsi autoservice pt = do {
     (_, pt) \<leftarrow> lws_remove_from_ah_waiting_list wsi pt;
     case http_ah pt wsi of
       None \<Rightarrow> Some (0, pt)
     | Some ah \<Rightarrow>
         if ah_count_in_use pt \<le> 0 \<or> \<not> ah_in_use pt ah then None
         else do {
           let pt = pt\<lparr>http_ah := (http_ah pt)(wsi := None), ah_wsi := (ah_wsi pt)(ah := None)\<rparr>;
           e \<leftarrow> ll_last (ah_wait_list pt) Head None;
           case e of
             None \<Rightarrow> do {
               (_, pt) \<leftarrow> lws_destroy_ah ah pt;
               Some (0, pt\<lparr>ah_count_in_use := ah_count_in_use pt - 1\<rparr>) }
           | Some (w, p) \<Rightarrow> detach_transfer env service ah autoservice w p pt } }"


subsection \<open>What the pool promises\<close>

text \<open>A counting semaphore with a queue: the set of connections that hold a table, and the waiting ones, the oldest first.
  \<open>got\<close> is the connection that has a table now because of the operation; \<open>ok\<close> says that memory was left.\<close>

type_synonym sem = "nat set \<times> nat list"

fun sem_enqueue :: "nat \<Rightarrow> nat list \<Rightarrow> nat list" where
  "sem_enqueue w Q = (if w \<in> set Q then Q else Q @ [w])"

fun sem_attach :: "nat \<Rightarrow> bool \<Rightarrow> nat \<Rightarrow> sem \<Rightarrow> nat option \<times> sem" where
  "sem_attach k ok w (H, Q) =
     (if w \<in> H then (Some w, H, Q)
      else if card H = k then (None, H, sem_enqueue w Q)
      else if ok then (Some w, insert w H, filter (\<lambda>v. v \<noteq> w) Q)
      else (None, H, filter (\<lambda>v. v \<noteq> w) Q @ [w]))"

fun sem_detach :: "nat \<Rightarrow> sem \<Rightarrow> nat option \<times> sem" where
  "sem_detach w (H, Q) =
     (if w \<notin> H then (None, H, filter (\<lambda>v. v \<noteq> w) Q)
      else case Q of [] \<Rightarrow> (None, H - {w}, []) | v # Q' \<Rightarrow> (Some v, insert v (H - {w}), Q'))"

text \<open>A history of the pool: connections ask for a table, write to the one they hold, and give it back. The first
  component is who got a table in a step, and what was in it. \<open>alloc\<close> is the allocator, here one that has memory left.\<close>

datatype pool_cmd = PAttach nat | PUse nat allocated_headers | PDetach nat

definition ah_sized :: "pool_env \<Rightarrow> allocated_headers \<Rightarrow> bool" where
  "ah_sized env ah \<longleftrightarrow> length (ah_data ah) = max_http_header_data (pool_hdr env) \<and> length (ah_frags ah) = WSI_TOKEN_COUNT \<and>
     length (ah_frag_index ah) = WSI_TOKEN_COUNT"

definition pool_table :: "ah_pool \<Rightarrow> nat \<Rightarrow> (nat \<times> allocated_headers) option" where
  "pool_table pt w = map_option (\<lambda>a. (w, ah_table pt a)) (http_ah pt w)"

fun pool_step :: "pool_env \<Rightarrow> bool \<Rightarrow> (ah_pool \<Rightarrow> nat) \<Rightarrow> pool_cmd \<Rightarrow> ah_pool \<Rightarrow> ((nat \<times> allocated_headers) option \<times> ah_pool) option" where
  "pool_step env auto alloc (PAttach w) pt = do {
     (r, pt) \<leftarrow> lws_header_table_attach env (\<lambda>_ _. None) (Some (alloc pt)) w auto pt;
     Some (if r = 0 then pool_table pt w else None, pt) }"
| "pool_step env auto alloc (PUse w t) pt =
     Some (None, case http_ah pt w of None \<Rightarrow> pt | Some a \<Rightarrow> if ah_sized env t then pt\<lparr>ah_table := (ah_table pt)(a := t)\<rparr> else pt)"
| "pool_step env auto alloc (PDetach w) pt = do {
     (_, pt') \<leftarrow> lws_header_table_detach env (\<lambda>_ _. None) w auto pt;
     Some (case http_ah pt w of None \<Rightarrow> None | Some a \<Rightarrow> Option.bind (ah_wsi pt' a) (pool_table pt'), pt') }"

fun pool_run :: "pool_env \<Rightarrow> bool \<Rightarrow> (ah_pool \<Rightarrow> nat) \<Rightarrow> pool_cmd list \<Rightarrow> ah_pool \<Rightarrow> ((nat \<times> allocated_headers) option list \<times> ah_pool) option" where
  "pool_run env auto alloc [] pt = Some ([], pt)"
| "pool_run env auto alloc (c # cs) pt = do {
     (g, pt) \<leftarrow> pool_step env auto alloc c pt;
     (gs, pt) \<leftarrow> pool_run env auto alloc cs pt;
     Some (g # gs, pt) }"

fun sem_step :: "nat \<Rightarrow> bool \<Rightarrow> pool_cmd \<Rightarrow> sem \<Rightarrow> nat option \<times> sem" where
  "sem_step k ok (PAttach w) s = sem_attach k ok w s"
| "sem_step k ok (PUse w t) s = (None, s)"
| "sem_step k ok (PDetach w) s = sem_detach w s"

fun sem_run :: "nat \<Rightarrow> pool_cmd list \<Rightarrow> sem \<Rightarrow> nat option list \<times> sem" where
  "sem_run k [] s = ([], s)"
| "sem_run k (c # cs) s = (let (g, s) = sem_step k True c s; (gs, s) = sem_run k cs s in (g # gs, s))"


subsection \<open>The invariant\<close>

definition owned :: "nat set \<Rightarrow> (nat \<Rightarrow> nat option) \<Rightarrow> (nat \<Rightarrow> nat option) \<Rightarrow> bool" where
  "owned A h ow \<longleftrightarrow> (\<forall>w a. h w = Some a \<longrightarrow> a \<in> A \<and> ow a = Some w) \<and> (\<forall>a \<in> A. \<exists>w. h w = Some a)"

lemma ownedD: "owned A h ow \<Longrightarrow> h w = Some a \<Longrightarrow> a \<in> A" "owned A h ow \<Longrightarrow> h w = Some a \<Longrightarrow> ow a = Some w"
  unfolding owned_def by blast+

lemma ownedE:
  assumes "owned A h ow" "a \<in> A"
  obtains w where "h w = Some a"
  using assms unfolding owned_def by blast

lemma owned_inj: "owned A h ow \<Longrightarrow> h v = Some a \<Longrightarrow> h w = Some a \<Longrightarrow> v = w"
  by (frule (1) ownedD(2) [where w = v], drule (1) ownedD(2) [where w = w]) simp

lemma owned_grant:
  assumes "owned A h ow" "h w = None" "a \<notin> A"
  shows "owned (insert a A) (h(w := Some a)) (ow(a := Some w))"
  unfolding owned_def
proof (intro conjI allI ballI impI)
  fix v b assume "(h(w := Some a)) v = Some b"
  then have "v = w \<and> b = a \<or> v \<noteq> w \<and> h v = Some b" by (auto split: if_splits)
  with assms(3) ownedD [OF assms(1)] show "b \<in> insert a A" "(ow(a := Some w)) b = Some v" by auto
next
  fix b assume b: "b \<in> insert a A"
  show "\<exists>v. (h(w := Some a)) v = Some b"
  proof (cases "b = a")
    case False
    with b obtain v where v: "h v = Some b" using ownedE [OF assms(1)] by blast
    with assms(2) have "v \<noteq> w" by auto
    with v show ?thesis by (intro exI [of _ v]) simp
  qed (simp add: exI [of _ w])
qed

lemma owned_move:
  assumes "owned A h ow" "h w = Some a" "h v = None"
  shows "owned A (h(w := None, v := Some a)) (ow(a := Some v))"
  unfolding owned_def
proof (intro conjI allI ballI impI)
  fix u b assume "(h(w := None, v := Some a)) u = Some b"
  then have "u = v \<and> b = a \<or> u \<noteq> w \<and> h u = Some b" by (auto split: if_splits)
  moreover have "b \<in> A \<and> b \<noteq> a \<and> ow b = Some u" if "u \<noteq> w" "h u = Some b"
    using ownedD [OF assms(1) that(2)] owned_inj [OF assms(1,2), of u] that by (cases "b = a") auto
  ultimately show "b \<in> A" "(ow(a := Some v)) b = Some u" using ownedD(1) [OF assms(1,2)] by (elim disjE; simp)+
next
  fix b assume "b \<in> A"
  then obtain u where u: "h u = Some b" by (rule ownedE [OF assms(1)])
  show "\<exists>u. (h(w := None, v := Some a)) u = Some b"
  proof (cases "b = a")
    case False
    with u assms(2,3) have "u \<noteq> w" "u \<noteq> v" by auto
    with u show ?thesis by (intro exI [of _ u]) simp
  qed (simp add: exI [of _ v])
qed

lemma owned_drop:
  assumes "owned A h ow" "h w = Some a"
  shows "owned (A - {a}) (h(w := None)) (ow(a := None))"
  unfolding owned_def
proof (intro conjI allI ballI impI)
  fix u b assume "(h(w := None)) u = Some b"
  then have u: "u \<noteq> w" "h u = Some b" by (auto split: if_splits)
  then have "b \<noteq> a" using owned_inj [OF assms, of u] by (cases "b = a") auto
  with ownedD [OF assms(1) u(2)] show "b \<in> A - {a}" "(ow(a := None)) b = Some u" by simp_all
next
  fix b assume b: "b \<in> A - {a}"
  then obtain u where u: "h u = Some b" using ownedE [OF assms(1)] by blast
  with b assms(2) have "u \<noteq> w" by auto
  with u show "\<exists>u. (h(w := None)) u = Some b" by (intro exI [of _ u]) simp
qed

definition pool_inv :: "pool_env \<Rightarrow> nat list \<Rightarrow> nat list \<Rightarrow> ah_pool \<Rightarrow> bool" where
  "pool_inv env as ws pt \<longleftrightarrow>
     ll_list (ah_list pt) as \<and> ll_list (ah_wait_list pt) ws \<and> ah_pool_length pt = length as \<and>
     ah_count_in_use pt = int (length as) \<and> ah_wait_list_length pt = int (length ws) \<and>
     int (length as) \<le> max_http_header_pool env \<and> max_http_header_pool env < 2 ^ 31 \<and>
     owned (set as) (http_ah pt) (ah_wsi pt) \<and> (\<forall>a \<in> set as. ah_in_use pt a \<and> ah_sized env (ah_table pt a)) \<and>
     (\<forall>w \<in> set ws. http_ah pt w = None)"

lemma pool_card:
  assumes "ll_list l as" "owned (set as) h ow"
  shows "card (dom h) = length as" "finite (dom h)"
proof -
  have "bij_betw (\<lambda>w. the (h w)) (dom h) (set as)"
    unfolding bij_betw_def
  proof
    show "inj_on (\<lambda>w. the (h w)) (dom h)"
      by (rule inj_onI) (auto intro: owned_inj [OF assms(2)])
    show "(\<lambda>w. the (h w)) ` dom h = set as"
      using assms(2) unfolding owned_def by (force simp: image_iff dom_def)
  qed
  with ll_list_distinct [OF assms(1)] show "card (dom h) = length as" "finite (dom h)"
    by (auto dest: bij_betw_same_card bij_betw_finite simp: distinct_card)
qed

definition pool_quiet :: "pool_env \<Rightarrow> bool \<Rightarrow> bool" where
  "pool_quiet env auto \<longleftrightarrow> \<not> auto \<or> (\<forall>w. \<not> (in_fds env w \<and> has_input env w))"

definition pool_reset :: "nat \<Rightarrow> nat \<Rightarrow> ah_pool \<Rightarrow> ah_pool" where
  "pool_reset wsi ah pt = pt\<lparr>ah_table := (ah_table pt)(ah := lws_header_table_reset_ah (ah_table pt ah)),
     wsi_parsing_completed := (wsi_parsing_completed pt)(wsi := False), wsi_holding_ah := (wsi_holding_ah pt)(wsi := True)\<rparr>"

lemma reset_quiet:
  "http_ah pt w = Some a \<Longrightarrow> ah_wsi pt a = Some w \<Longrightarrow> pool_quiet env auto \<Longrightarrow>
   lws_header_table_reset env service w auto pt = Some (pool_reset w a pt)"
  by (auto simp: lws_header_table_reset_def pool_reset_def pool_quiet_def Let_def)

lemma pool_reset_sel [simp]:
  "ah_list (pool_reset w a pt) = ah_list pt" "ah_wait_list (pool_reset w a pt) = ah_wait_list pt"
  "ah_pool_length (pool_reset w a pt) = ah_pool_length pt" "ah_count_in_use (pool_reset w a pt) = ah_count_in_use pt"
  "ah_wait_list_length (pool_reset w a pt) = ah_wait_list_length pt" "ah_wsi (pool_reset w a pt) = ah_wsi pt"
  "ah_in_use (pool_reset w a pt) = ah_in_use pt" "http_ah (pool_reset w a pt) = http_ah pt"
  "ah_table (pool_reset w a pt) = (ah_table pt)(a := lws_header_table_reset_ah (ah_table pt a))"
  by (simp_all add: pool_reset_def)

lemma change_pollin_sel [simp]:
  "ah_list (lws_change_pollin env w b pt) = ah_list pt" "ah_wait_list (lws_change_pollin env w b pt) = ah_wait_list pt"
  "ah_pool_length (lws_change_pollin env w b pt) = ah_pool_length pt"
  "ah_count_in_use (lws_change_pollin env w b pt) = ah_count_in_use pt"
  "ah_wait_list_length (lws_change_pollin env w b pt) = ah_wait_list_length pt"
  "ah_wsi (lws_change_pollin env w b pt) = ah_wsi pt" "ah_in_use (lws_change_pollin env w b pt) = ah_in_use pt"
  "ah_table (lws_change_pollin env w b pt) = ah_table pt" "http_ah (lws_change_pollin env w b pt) = http_ah pt"
  by (simp_all add: lws_change_pollin_def)

lemma ah_sized_reset: "ah_sized env t \<Longrightarrow> ah_sized env (lws_header_table_reset_ah t)"
  by (simp add: ah_sized_def lws_header_table_reset_ah_def)

lemma ah_sized_zalloc: "ah_sized env (ah_zalloc env)"
  by (simp add: ah_sized_def ah_zalloc_def)

text \<open>A table that was reset has no header at all, whatever was stored in it before.\<close>

definition ah_blank :: "allocated_headers \<Rightarrow> bool" where
  "ah_blank t \<longleftrightarrow> (\<forall>h < WSI_TOKEN_COUNT. lws_hdr_total_length (Some t) h = Some 0 \<and> lws_hdr_simple_ptr (Some t) h = Some None)"

lemma ah_blank_reset: "ah_sized env t \<Longrightarrow> ah_blank (lws_header_table_reset_ah t)"
  by (simp add: ah_blank_def lws_hdr_total_length_def lws_hdr_simple_ptr_def lws_header_table_reset_ah_def rd_Some ah_sized_def)


subsection \<open>The operations keep it\<close>

lemma remove_waiting:
  assumes "ll_list (ah_wait_list pt) ws"
  shows "\<exists>r l n. lws_remove_from_ah_waiting_list w pt = Some (r, pt\<lparr>ah_wait_list := l, ah_wait_list_length := n\<rparr>) \<and>
     ll_list l (filter (\<lambda>v. v \<noteq> w) ws) \<and> n = ah_wait_list_length pt - int (length ws) + int (length (filter (\<lambda>v. v \<noteq> w) ws))"
proof (cases "w \<in> set ws")
  case True
  then obtain ys zs where ws: "ws = ys @ w # zs" by (auto simp: in_set_conv_decomp)
  with ll_list_distinct [OF assms] have "filter (\<lambda>v. v \<noteq> w) ys = ys" "filter (\<lambda>v. v \<noteq> w) zs = zs" by (auto simp: filter_id_conv)
  moreover note ll_list_find [OF assms [unfolded ws]] ll_list_unlink [OF assms [unfolded ws]]
  ultimately show ?thesis unfolding ws by (auto simp: lws_remove_from_ah_waiting_list_def)
next
  case False
  then have "filter (\<lambda>v. v \<noteq> w) ws = ws" by (auto simp: filter_id_conv)
  with ll_list_find_none [OF assms False] assms show ?thesis
    by (intro exI [of _ 0] exI [of _ "ah_wait_list pt"] exI [of _ "ah_wait_list_length pt"]) (simp add: lws_remove_from_ah_waiting_list_def)
qed

lemma pool_inv_wait:
  assumes "pool_inv env as ws pt" "ll_list l us" "set us \<subseteq> set ws"
  shows "pool_inv env as us (pt\<lparr>ah_wait_list := l, ah_wait_list_length := int (length us)\<rparr>)"
  using assms by (auto simp: pool_inv_def)

lemma pool_remove:
  assumes "pool_inv env as ws pt"
  shows "\<exists>r pt'. lws_remove_from_ah_waiting_list w pt = Some (r, pt') \<and> pool_inv env as (filter (\<lambda>v. v \<noteq> w) ws) pt' \<and>
     http_ah pt' = http_ah pt \<and> ah_wsi pt' = ah_wsi pt"
proof -
  have l: "ll_list (ah_wait_list pt) ws" "ah_wait_list_length pt = int (length ws)" using assms by (simp_all add: pool_inv_def)
  from remove_waiting [OF l(1), of w] obtain r li where
    "lws_remove_from_ah_waiting_list w pt = Some (r, pt\<lparr>ah_wait_list := li, ah_wait_list_length := int (length (filter (\<lambda>v. v \<noteq> w) ws))\<rparr>)"
    "ll_list li (filter (\<lambda>v. v \<noteq> w) ws)" using l(2) by auto
  with pool_inv_wait [OF assms] show ?thesis by fastforce
qed

lemma pool_ensure:
  assumes "pool_inv env as ws pt" "http_ah pt w = None"
  shows "\<exists>pt'. lws_header_ensure_we_are_on_waiting_list env w pt = Some pt' \<and>
     pool_inv env as (if w \<in> set ws then ws else w # ws) pt' \<and> http_ah pt' = http_ah pt"
proof (cases "w \<in> set ws")
  case True
  then obtain ys zs where "ws = ys @ w # zs" by (auto simp: in_set_conv_decomp)
  with ll_list_find [of "ah_wait_list pt" ys w zs] assms True show ?thesis
    by (simp add: lws_header_ensure_we_are_on_waiting_list_def pool_inv_def)
next
  case False
  have "ll_list (ah_wait_list pt) ws" using assms by (simp add: pool_inv_def)
  with ll_list_find_none [OF this False] ll_list_push [OF this False] assms False show ?thesis
    by (auto simp: lws_header_ensure_we_are_on_waiting_list_def pool_inv_def)
qed

lemma pool_grant:
  assumes inv: "pool_inv env as us pt" and w: "http_ah pt w = None" "w \<notin> set us"
    and a: "a \<notin> set as" and room: "int (length as) < max_http_header_pool env" and quiet: "pool_quiet env auto"
  shows "\<exists>pt'. attach_created env service w auto a (snd (lws_create_ah env (Some a) pt)) = Some (0, pt') \<and>
     pool_inv env (a # as) us pt' \<and> http_ah pt' = (http_ah pt)(w := Some a) \<and> ah_blank (ah_table pt' a)"
proof -
  define p1 where "p1 = snd (lws_create_ah env (Some a) pt)"
  define p2 where "p2 = lws_change_pollin env w True (p1\<lparr>http_ah := (http_ah p1)(w := Some a), ah_in_use := (ah_in_use p1)(a := True),
    ah_wsi := (ah_wsi p1)(a := Some w), ah_count_in_use := ah_count_in_use p1 + 1\<rparr>)"
  have p2: "http_ah p2 = (http_ah pt)(w := Some a)" "ah_wsi p2 = (ah_wsi pt)(a := Some w)" "ah_in_use p2 = (ah_in_use pt)(a := True)"
    "ah_list p2 = ll_push a (ah_list pt)" "ah_wait_list p2 = ah_wait_list pt" "ah_wait_list_length p2 = ah_wait_list_length pt"
    "ah_count_in_use p2 = ah_count_in_use pt + 1" "ah_table p2 = (ah_table pt)(a := ah_zalloc env)"
    "ah_pool_length p2 = add32 (ah_pool_length pt) 1"
    by (simp_all add: p2_def p1_def lws_create_ah_def)
  have "owned (set (a # as)) (http_ah p2) (ah_wsi p2)"
    using owned_grant [of "set as" "http_ah pt" "ah_wsi pt" w a] inv w a by (simp add: pool_inv_def p2)
  moreover have "ll_list (ll_push a (ah_list pt)) (a # as)" using inv a by (simp add: pool_inv_def ll_list_push)
  moreover have "add32 (length as) 1 = Suc (length as)" using inv by (simp add: pool_inv_def add32_small)
  ultimately have "pool_inv env (a # as) us (pool_reset w a p2)"
    using inv w room by (auto simp: pool_inv_def p2 ah_sized_reset ah_sized_zalloc)
  moreover have "lws_header_table_reset env service w auto p2 = Some (pool_reset w a p2)"
    using quiet by (intro reset_quiet) (simp_all add: p2)
  moreover have "ah_blank (ah_table (pool_reset w a p2) a)" by (simp add: p2 ah_blank_reset [OF ah_sized_zalloc])
  moreover have "attach_created env service w auto a p1 = (lws_header_table_reset env service w auto p2 \<bind> (\<lambda>pt. Some (0, pt)))"
    by (simp add: attach_created_def p2_def)
  ultimately show ?thesis unfolding p1_def [symmetric] by (simp add: p2)
qed

lemma pool_attach:
  assumes inv: "pool_inv env as ws pt" and quiet: "pool_quiet env auto" and fresh: "\<forall>a. alloc = Some a \<longrightarrow> a \<notin> set as"
  shows "\<exists>r pt' as'. lws_header_table_attach env service alloc w auto pt = Some (r, pt') \<and>
     pool_inv env as' (rev (snd (snd (sem_attach (nat (max_http_header_pool env)) (alloc \<noteq> None) w (dom (http_ah pt), rev ws))))) pt' \<and>
     dom (http_ah pt') = fst (snd (sem_attach (nat (max_http_header_pool env)) (alloc \<noteq> None) w (dom (http_ah pt), rev ws))) \<and>
     (fst (sem_attach (nat (max_http_header_pool env)) (alloc \<noteq> None) w (dom (http_ah pt), rev ws)) = (if r = 0 then Some w else None)) \<and>
     (r = 0 \<longrightarrow> (\<exists>a. http_ah pt' w = Some a \<and> ah_blank (ah_table pt' a)))"
proof -
  let ?k = "nat (max_http_header_pool env)"
  have card: "card (dom (http_ah pt)) = length as" using pool_card inv by (auto simp: pool_inv_def)
  consider (held) a where "http_ah pt w = Some a" | (full) "http_ah pt w = None" "ah_count_in_use pt = max_http_header_pool env"
    | (free) "http_ah pt w = None" "ah_count_in_use pt \<noteq> max_http_header_pool env" by (cases "http_ah pt w") auto
  then show ?thesis
  proof cases
    case held
    with inv have a: "ah_wsi pt a = Some w" "a \<in> set as" unfolding pool_inv_def using ownedD by blast+
    have "pool_inv env as ws (pool_reset w a pt)"
      using inv a by (auto simp: pool_inv_def ah_sized_reset)
    moreover have "ah_blank (lws_header_table_reset_ah (ah_table pt a))"
      using inv a ah_blank_reset by (auto simp: pool_inv_def)
    ultimately show ?thesis using held reset_quiet [OF held a(1) quiet]
      by (intro exI [of _ 0] exI [of _ "pool_reset w a pt"] exI [of _ as]) (auto simp: lws_header_table_attach_def)
  next
    case full
    from pool_ensure [OF inv full(1)] obtain pt' where
      p: "lws_header_ensure_we_are_on_waiting_list env w pt = Some pt'" "pool_inv env as (if w \<in> set ws then ws else w # ws) pt'"
        "http_ah pt' = http_ah pt" by blast
    have "card (dom (http_ah pt)) = ?k" using card full(2) inv by (auto simp: pool_inv_def)
    with p full show ?thesis
      by (intro exI [of _ 1] exI [of _ pt'] exI [of _ as]) (auto simp: lws_header_table_attach_def)
  next
    case free
    from pool_remove [OF inv, of w] obtain r p1 where
      p1: "lws_remove_from_ah_waiting_list w pt = Some (r, p1)" "pool_inv env as (filter (\<lambda>v. v \<noteq> w) ws) p1" "http_ah p1 = http_ah pt"
      by blast
    have room: "int (length as) < max_http_header_pool env" using inv free(2) by (auto simp: pool_inv_def)
    then have k: "card (dom (http_ah pt)) \<noteq> ?k" using card by auto
    show ?thesis
    proof (cases alloc)
      case None
      have e: "p1\<lparr>http_ah := http_ah pt\<rparr> = p1" unfolding p1(3) [symmetric] by simp
      from pool_ensure [OF p1(2), of w] free(1) p1(3) obtain p2 where
        "lws_header_ensure_we_are_on_waiting_list env w p1 = Some p2" "pool_inv env as (w # filter (\<lambda>v. v \<noteq> w) ws) p2" "http_ah p2 = http_ah pt"
        by auto
      then show ?thesis using None p1 free k
        by (intro exI [of _ 1] exI [of _ p2] exI [of _ as]) (simp add: lws_header_table_attach_def lws_create_ah_def rev_filter domIff e del: fun_upd_apply)
    next
      case (Some a)
      have h: "http_ah p1 w = None" "w \<notin> set (filter (\<lambda>v. v \<noteq> w) ws)" using free(1) p1(3) by simp_all
      from pool_grant [OF p1(2) h fresh [rule_format, OF Some] room quiet, of service] obtain p2 where
        "attach_created env service w auto a (snd (lws_create_ah env (Some a) p1)) = Some (0, p2)"
        "pool_inv env (a # as) (filter (\<lambda>v. v \<noteq> w) ws) p2" "http_ah p2 = (http_ah p1)(w := Some a)" "ah_blank (ah_table p2 a)"
        by blast
      moreover have "fst (lws_create_ah env (Some a) p1) = Some a" by (simp add: lws_create_ah_def)
      ultimately show ?thesis using Some p1 free k
        by (intro exI [of _ 0] exI [of _ p2] exI [of _ "a # as"]) (simp add: lws_header_table_attach_def rev_filter split_beta domIff)
    qed
  qed
qed

text \<open>The table goes to the connection at the end of the list, which has waited longest. \<open>pool_moved\<close> is the pool with the new
  owner, whose wait has ended.\<close>

definition pool_moved :: "nat \<Rightarrow> nat \<Rightarrow> nat \<Rightarrow> ah_pool \<Rightarrow> ah_pool" where
  "pool_moved w a v pt = pool_reset v a (pt\<lparr>http_ah := (http_ah pt)(w := None, v := Some a), ah_wsi := (ah_wsi pt)(a := Some v)\<rparr>)"

definition pool_woken :: "nat list \<Rightarrow> nat \<Rightarrow> nat \<Rightarrow> nat \<Rightarrow> ah_pool \<Rightarrow> ah_pool" where
  "pool_woken ws w a v pt = (pool_moved w a v pt)\<lparr>ah_wait_list := ll_unlink (ll_after ws) v (ah_wait_list pt), ah_wait_list_length := int (length ws)\<rparr>"

lemma pool_woken_inv:
  assumes inv: "pool_inv env as (ws @ [v]) pt" and w: "http_ah pt w = Some a"
  shows "pool_inv env as ws (pool_woken ws w a v pt)" "ah_blank (ah_table (pool_woken ws w a v pt) a)"
proof -
  let ?p = "pool_woken ws w a v pt"
  have v: "http_ah pt v = None" using inv by (auto simp: pool_inv_def)
  have a: "a \<in> set as" using inv w ownedD(1) unfolding pool_inv_def by blast
  have l: "ll_list (ah_wait_list pt) (ws @ [v])" using inv by (simp add: pool_inv_def)
  have p: "http_ah ?p = (http_ah pt)(w := None, v := Some a)" "ah_wsi ?p = (ah_wsi pt)(a := Some v)" "ah_in_use ?p = ah_in_use pt"
    "ah_list ?p = ah_list pt" "ah_wait_list_length ?p = int (length ws)" "ah_count_in_use ?p = ah_count_in_use pt"
    "ah_table ?p = (ah_table pt)(a := lws_header_table_reset_ah (ah_table pt a))" "ah_pool_length ?p = ah_pool_length pt"
    by (simp_all add: pool_woken_def pool_moved_def)
  have "owned (set as) (http_ah ?p) (ah_wsi ?p)"
    using owned_move [of "set as" "http_ah pt" "ah_wsi pt" w a v] inv w v by (simp add: pool_inv_def p)
  moreover have "\<forall>u \<in> set ws. http_ah ?p u = None" using inv v ll_list_distinct [OF l] by (auto simp: pool_inv_def p)
  moreover have "ll_list (ah_wait_list ?p) ws" using ll_list_unlink [of "ah_wait_list pt" ws v "[]"] l by (simp add: pool_woken_def)
  ultimately show "pool_inv env as ws ?p" using inv by (simp add: pool_inv_def p ah_sized_reset)
  show "ah_blank (ah_table ?p a)" using inv a ah_blank_reset [of env "ah_table pt a"] by (simp add: p pool_inv_def)
qed

lemma pool_inv_pollin [simp]: "pool_inv env as ws (lws_change_pollin env w b pt) = pool_inv env as ws pt"
  by (simp add: pool_inv_def)

lemma detach_transfer_eq:
  "detach_transfer env service a auto v p (pt\<lparr>http_ah := (http_ah pt)(w := None), ah_wsi := (ah_wsi pt)(a := None)\<rparr>) =
     (if in_fds env v \<and> has_input env v \<and> auto then service v (pool_moved w a v pt) else Some (pool_moved w a v pt)) \<bind> (\<lambda>q.
       let q = lws_change_pollin env v True q;
           q = q\<lparr>ah_wait_list := ll_unlink p v (ah_wait_list q), ah_wait_list_length := ah_wait_list_length q - 1\<rparr>
       in if (ah_wait_list_length q \<noteq> 0) \<noteq> (ll_head (ah_wait_list q) \<noteq> None) then None else Some (0, q))"
  by (simp add: detach_transfer_def lws_header_table_reset_def pool_moved_def pool_reset_def Let_def del: not_None_eq)

lemma pool_transfer:
  assumes inv: "pool_inv env as (ws @ [v]) pt" and w: "http_ah pt w = Some a" and quiet: "pool_quiet env auto"
  shows "\<exists>pt'. detach_transfer env service a auto v (ll_after ws) (pt\<lparr>http_ah := (http_ah pt)(w := None), ah_wsi := (ah_wsi pt)(a := None)\<rparr>) =
       Some (0, pt') \<and>
     pool_inv env as ws pt' \<and> http_ah pt' = (http_ah pt)(w := None, v := Some a) \<and> ah_wsi pt' a = Some v \<and> ah_blank (ah_table pt' a)"
proof -
  define p2 where "p2 = lws_change_pollin env v True (pool_woken ws w a v pt)"
  have "\<not> (in_fds env v \<and> has_input env v \<and> auto)" using quiet by (auto simp: pool_quiet_def)
  moreover have "(lws_change_pollin env v True (pool_moved w a v pt))\<lparr>ah_wait_list := ll_unlink (ll_after ws) v (ah_wait_list pt),
      ah_wait_list_length := int (length ws)\<rparr> = p2"
    by (simp add: p2_def pool_woken_def lws_change_pollin_def)
  moreover have "ah_wait_list (pool_moved w a v pt) = ah_wait_list pt" "ah_wait_list_length (pool_moved w a v pt) = int (length ws) + 1"
    using inv by (simp_all add: pool_moved_def pool_inv_def)
  moreover have "ll_head (ll_unlink (ll_after ws) v (ah_wait_list pt)) = None \<longleftrightarrow> ws = []"
    using pool_woken_inv(1) [OF inv w] by (intro ll_list_head) (simp add: pool_inv_def pool_woken_def)
  ultimately have "detach_transfer env service a auto v (ll_after ws) (pt\<lparr>http_ah := (http_ah pt)(w := None), ah_wsi := (ah_wsi pt)(a := None)\<rparr>) =
      Some (0, p2)"
    by (auto simp: detach_transfer_eq Let_def)
  with pool_woken_inv [OF inv w] show ?thesis
    by (intro exI [of _ p2]) (simp add: p2_def, simp add: pool_woken_def pool_moved_def)
qed

lemma pool_destroy:
  assumes inv: "pool_inv env as [] pt" and w: "http_ah pt w = Some a"
  shows "\<exists>pt' as'. (lws_destroy_ah a (pt\<lparr>http_ah := (http_ah pt)(w := None), ah_wsi := (ah_wsi pt)(a := None)\<rparr>) \<bind>
       (\<lambda>(_, pt). Some (0::int, pt\<lparr>ah_count_in_use := ah_count_in_use pt - 1\<rparr>))) = Some (0, pt') \<and>
     pool_inv env as' [] pt' \<and> http_ah pt' = (http_ah pt)(w := None) \<and> ah_wsi pt' a = None \<and> ah_wait_list pt' = ah_wait_list pt"
proof -
  have a: "a \<in> set as" "owned (set as) (http_ah pt) (ah_wsi pt)" using inv w ownedD(1) unfolding pool_inv_def by blast+
  then obtain ys zs where as: "as = ys @ a # zs" by (auto simp: in_set_conv_decomp)
  have l: "ll_list (ah_list pt) (ys @ a # zs)" using inv as by (simp add: pool_inv_def)
  then have d: "set (ys @ zs) = set as - {a}" using ll_list_distinct [OF l] as by auto
  define p1 where "p1 = pt\<lparr>http_ah := (http_ah pt)(w := None), ah_wsi := (ah_wsi pt)(a := None),
    ah_list := ll_set (ll_after ys) (ll_next (ah_list pt) a) (ah_list pt), ah_pool_length := sub32 (ah_pool_length pt) 1,
    ah_count_in_use := ah_count_in_use pt - 1\<rparr>"
  have "sub32 (length as) 1 = length (ys @ zs)" using inv as by (simp add: pool_inv_def sub32_small)
  moreover have "owned (set (ys @ zs)) ((http_ah pt)(w := None)) ((ah_wsi pt)(a := None))" unfolding d by (rule owned_drop [OF a(2) w])
  ultimately have "pool_inv env (ys @ zs) [] p1"
    using inv ll_list_skip [OF l] as by (simp add: pool_inv_def p1_def)
  with ll_list_find [OF l] show ?thesis
    by (intro exI [of _ p1] exI [of _ "ys @ zs"]) (simp add: lws_destroy_ah_def p1_def)
qed

lemma pool_detach:
  assumes inv: "pool_inv env as ws pt" and quiet: "pool_quiet env auto"
  shows "\<exists>r pt' as'. lws_header_table_detach env service w auto pt = Some (r, pt') \<and>
     pool_inv env as' (rev (snd (snd (sem_detach w (dom (http_ah pt), rev ws))))) pt' \<and>
     dom (http_ah pt') = fst (snd (sem_detach w (dom (http_ah pt), rev ws))) \<and>
     (case http_ah pt w of
        None \<Rightarrow> fst (sem_detach w (dom (http_ah pt), rev ws)) = None
      | Some a \<Rightarrow> ah_wsi pt' a = fst (sem_detach w (dom (http_ah pt), rev ws)) \<and>
          (\<forall>v. ah_wsi pt' a = Some v \<longrightarrow> http_ah pt' v = Some a \<and> ah_blank (ah_table pt' a)))"
proof -
  from pool_remove [OF inv, of w] obtain r p1 where
    p1: "lws_remove_from_ah_waiting_list w pt = Some (r, p1)" "pool_inv env as (filter (\<lambda>v. v \<noteq> w) ws) p1" "http_ah p1 = http_ah pt"
      "ah_wsi p1 = ah_wsi pt" by blast
  show ?thesis
  proof (cases "http_ah pt w")
    case None
    with p1 show ?thesis by (intro exI [of _ 0] exI [of _ p1] exI [of _ as]) (simp add: lws_header_table_detach_def domIff rev_filter)
  next
    case (Some a)
    have "a \<in> set as" using inv Some ownedD(1) unfolding pool_inv_def by blast
    moreover have "length as > 0" using \<open>a \<in> set as\<close> by (cases as) auto
    ultimately have use: "\<not> ah_count_in_use p1 \<le> 0" "ah_in_use p1 a" using p1(2) unfolding pool_inv_def by auto
    have ws: "filter (\<lambda>v. v \<noteq> w) ws = ws" using inv Some by (auto simp: pool_inv_def filter_id_conv)
    have l: "ll_last (ah_wait_list p1) Head None = Some (if ws = [] then None else Some (last ws, ll_after (butlast ws)))"
      using p1(2) ll_list_last unfolding ws pool_inv_def by blast
    note d = lws_header_table_detach_def p1 Some use l
    show ?thesis
    proof (cases ws rule: rev_cases)
      case Nil
      from pool_destroy [of env as p1 w a] p1(2,3) Some Nil obtain p2 as' where
        "(lws_destroy_ah a (p1\<lparr>http_ah := (http_ah p1)(w := None), ah_wsi := (ah_wsi p1)(a := None)\<rparr>) \<bind>
          (\<lambda>(_, pt). Some (0::int, pt\<lparr>ah_count_in_use := ah_count_in_use pt - 1\<rparr>))) = Some (0, p2)"
        "pool_inv env as' [] p2" "http_ah p2 = (http_ah p1)(w := None)" "ah_wsi p2 a = None" by auto
      with use Nil show ?thesis by (intro exI [of _ 0] exI [of _ p2] exI [of _ as']) (simp add: d domIff)
    next
      case (snoc us v)
      from pool_transfer [of env as us v p1 w a auto service] p1(2,3) Some quiet ws snoc obtain p2 where
        "detach_transfer env service a auto v (ll_after us) (p1\<lparr>http_ah := (http_ah p1)(w := None), ah_wsi := (ah_wsi p1)(a := None)\<rparr>) = Some (0, p2)"
        "pool_inv env as us p2" "http_ah p2 = (http_ah p1)(w := None, v := Some a)" "ah_wsi p2 a = Some v" "ah_blank (ah_table p2 a)" by auto
      with use snoc show ?thesis by (intro exI [of _ 0] exI [of _ p2] exI [of _ as]) (simp add: d domIff)
    qed
  qed
qed


subsection \<open>The pool is a semaphore\<close>

definition pool_init :: ah_pool where
  "pool_init = \<lparr>ah_list = \<lparr>ll_head = None, ll_next = \<lambda>_. None\<rparr>, ah_pool_length = 0, ah_count_in_use = 0,
     ah_wait_list = \<lparr>ll_head = None, ll_next = \<lambda>_. None\<rparr>, ah_wait_list_length = 0, ah_wsi = \<lambda>_. None, ah_in_use = \<lambda>_. False,
     ah_table = \<lambda>_. undefined, http_ah = \<lambda>_. None, wsi_parsing_completed = \<lambda>_. False, wsi_holding_ah = \<lambda>_. False,
     wsi_pollin = \<lambda>_. True\<rparr>"

text \<open>The allocator does not hand out the address of a table that is in the list.\<close>

definition alloc_fresh :: "(ah_pool \<Rightarrow> nat) \<Rightarrow> bool" where
  "alloc_fresh alloc \<longleftrightarrow> (\<forall>pt as. ll_list (ah_list pt) as \<longrightarrow> alloc pt \<notin> set as)"

definition pool_sim :: "pool_env \<Rightarrow> ah_pool \<Rightarrow> sem \<Rightarrow> bool" where
  "pool_sim env pt s \<longleftrightarrow> dom (http_ah pt) = fst s \<and> (\<exists>as. pool_inv env as (rev (snd s)) pt)"

lemma pool_sim_step:
  assumes sim: "pool_sim env pt s" and quiet: "pool_quiet env auto" and fresh: "alloc_fresh alloc"
  shows "\<exists>g pt'. pool_step env auto alloc c pt = Some (g, pt') \<and>
     pool_sim env pt' (snd (sem_step (nat (max_http_header_pool env)) True c s)) \<and>
     map_option fst g = fst (sem_step (nat (max_http_header_pool env)) True c s) \<and> (\<forall>w t. g = Some (w, t) \<longrightarrow> ah_blank t)"
proof -
  obtain H Q as where s: "s = (H, Q)" "dom (http_ah pt) = H" and inv: "pool_inv env as (rev Q) pt"
    using sim by (cases s) (auto simp: pool_sim_def)
  show ?thesis
  proof (cases c)
    case (PAttach w)
    have f: "\<forall>a. Some (alloc pt) = Some a \<longrightarrow> a \<notin> set as"
      using fresh inv by (auto simp: alloc_fresh_def pool_inv_def)
    from pool_attach [OF inv quiet f, where service = "\<lambda>_ _. None" and w = w] show ?thesis
      unfolding PAttach s rev_rev_ident s(2)
      by (elim exE conjE) (auto simp: pool_sim_def pool_table_def simp del: sem_attach.simps)
  next
    case (PUse w t)
    then show ?thesis using inv s by (auto simp: pool_sim_def pool_inv_def split: option.splits)
  next
    case (PDetach w)
    from pool_detach [OF inv quiet, where service = "\<lambda>_ _. None" and w = w] show ?thesis
      unfolding PDetach s rev_rev_ident s(2)
      by (elim exE conjE) (auto simp: pool_sim_def pool_table_def simp del: sem_detach.simps split: option.splits bind_splits)
  qed
qed

lemma sem_step_full:
  assumes "finite H" "set Q \<inter> H = {}" "card H \<le> k" "Q \<noteq> [] \<longrightarrow> card H = k" "sem_step k True c (H, Q) = (g, H', Q')"
  shows "card H' \<le> k \<and> (Q' \<noteq> [] \<longrightarrow> card H' = k)"
proof (cases c)
  case (PAttach w)
  with assms show ?thesis by (auto split: if_splits)
next
  case (PDetach w)
  show ?thesis
  proof (cases "w \<in> H")
    case True
    then have "card (H - {w}) = card H - 1" "0 < card H" using assms(1) by (auto simp: card_gt_0_iff)
    with PDetach assms True show ?thesis by (cases Q) auto
  qed (use PDetach assms in \<open>auto simp: filter_empty_conv\<close>)
qed (use assms in auto)

lemma pool_sim_sem: "pool_sim env pt (H, Q) \<Longrightarrow> finite H \<and> set Q \<inter> H = {} \<and> card H \<le> nat (max_http_header_pool env)"
  using pool_card by (fastforce simp: pool_sim_def pool_inv_def)

lemma pool_run_sim:
  assumes "pool_sim env pt (H, Q)" "Q \<noteq> [] \<longrightarrow> card H = nat (max_http_header_pool env)" "pool_quiet env auto" "alloc_fresh alloc"
  shows "\<exists>gs pt' H' Q'. pool_run env auto alloc cmds pt = Some (gs, pt') \<and>
     sem_run (nat (max_http_header_pool env)) cmds (H, Q) = (map (map_option fst) gs, H', Q') \<and> pool_sim env pt' (H', Q') \<and>
     (Q' \<noteq> [] \<longrightarrow> card H' = nat (max_http_header_pool env)) \<and> (\<forall>w t. Some (w, t) \<in> set gs \<longrightarrow> ah_blank t)"
  using assms(1,2)
proof (induction cmds arbitrary: pt H Q)
  case (Cons c cmds)
  let ?k = "nat (max_http_header_pool env)"
  obtain g H1 Q1 where s: "sem_step ?k True c (H, Q) = (g, H1, Q1)" by (metis surj_pair)
  from pool_sim_step [OF Cons.prems(1) assms(3,4), of c] obtain gt pt1 where
    step: "pool_step env auto alloc c pt = Some (gt, pt1)" "pool_sim env pt1 (H1, Q1)" "map_option fst gt = g"
      "\<forall>w t. gt = Some (w, t) \<longrightarrow> ah_blank t"
    unfolding s by auto
  have full: "Q1 \<noteq> [] \<longrightarrow> card H1 = ?k"
    using sem_step_full [OF _ _ _ Cons.prems(2) s] pool_sim_sem [OF Cons.prems(1)] by blast
  from Cons.IH [OF step(2) full] step s show ?case by (elim exE conjE) fastforce
qed auto

lemma pool_sim_init: "0 \<le> max_http_header_pool env \<Longrightarrow> max_http_header_pool env < 2 ^ 31 \<Longrightarrow> pool_sim env pool_init ({}, [])"
  by (auto simp: pool_sim_def pool_init_def pool_inv_def owned_def intro!: exI [of _ "[]"])

text \<open>C7: The pool of header tables is a counting semaphore with a first-in first-out queue. Whatever connections ask for tables,
  write to them and give them back, every call returns with no assertion failing; those who hold a table and those who wait, in order,
  are what the semaphore says; at most \<open>max_http_header_pool\<close> connections hold one, and somebody waits only while all are held. A
  table that is handed over has no header left in it, whoever used it before. (The allocator has memory left, and no request
  that was buffered is handled from inside of the pool.)\<close>

theorem ah_pool_semaphore:
  assumes "0 \<le> max_http_header_pool env" "max_http_header_pool env < 2 ^ 31" "pool_quiet env auto" "alloc_fresh alloc"
  shows "\<exists>gs pt H Q. pool_run env auto alloc cmds pool_init = Some (gs, pt) \<and>
     sem_run (nat (max_http_header_pool env)) cmds ({}, []) = (map (map_option fst) gs, H, Q) \<and>
     dom (http_ah pt) = H \<and> ll_list (ah_wait_list pt) (rev Q) \<and> ah_count_in_use pt = int (card H) \<and>
     int (card H) \<le> max_http_header_pool env \<and> (Q \<noteq> [] \<longrightarrow> int (card H) = max_http_header_pool env) \<and>
     (\<forall>w t. Some (w, t) \<in> set gs \<longrightarrow> ah_blank t)"
proof -
  from pool_run_sim [OF pool_sim_init [OF assms(1,2)] _ assms(3,4), of cmds] obtain gs pt H Q where
    r: "pool_run env auto alloc cmds pool_init = Some (gs, pt)"
      "sem_run (nat (max_http_header_pool env)) cmds ({}, []) = (map (map_option fst) gs, H, Q)" "pool_sim env pt (H, Q)"
      "Q \<noteq> [] \<longrightarrow> card H = nat (max_http_header_pool env)" "\<forall>w t. Some (w, t) \<in> set gs \<longrightarrow> ah_blank t" by auto
  from r(3) obtain as where "pool_inv env as (rev Q) pt" "dom (http_ah pt) = H" by (auto simp: pool_sim_def)
  moreover from this have "card H = length as" using pool_card by (auto simp: pool_inv_def)
  ultimately show ?thesis using r by (auto simp: pool_inv_def)
qed

text \<open>An allocator that takes the address above those in the list.\<close>

partial_function (option) ll_bound :: "llist \<Rightarrow> loc \<Rightarrow> nat \<Rightarrow> nat option" where
  "ll_bound l p n =
     (case ll_at l p of
        None \<Rightarrow> Some n
      | Some y \<Rightarrow> ll_bound l (Next y) (max n (y + 1)))"

definition malloc_demo :: "ah_pool \<Rightarrow> nat" where
  "malloc_demo pt = (case ll_bound (ah_list pt) Head 0 of None \<Rightarrow> 0 | Some n \<Rightarrow> n)"

lemma ll_bound_chain:
  "ll_chain (ll_next l) (ll_at l p) xs \<Longrightarrow> \<exists>m. ll_bound l p n = Some m \<and> n \<le> m \<and> (\<forall>x \<in> set xs. x < m)"
proof (induction xs arbitrary: p n)
  case Nil
  then show ?case by (subst ll_bound.simps) simp
next
  case (Cons x xs)
  from Cons.IH [of "Next x" "max n (x + 1)"] Cons.prems show ?case by (subst ll_bound.simps) auto
qed

lemma malloc_demo_fresh: "alloc_fresh malloc_demo"
  unfolding alloc_fresh_def
proof (intro allI impI)
  fix pt :: ah_pool and as assume "ll_list (ah_list pt) as"
  then obtain m where "ll_bound (ah_list pt) Head 0 = Some m" "\<forall>x \<in> set as. x < m"
    using ll_bound_chain [of "ah_list pt" Head as 0] by (auto simp: ll_list_def)
  then show "malloc_demo pt \<notin> set as" by (auto simp: malloc_demo_def)
qed

definition pool_demo_env :: "(nat \<Rightarrow> bool) \<Rightarrow> pool_env" where
  "pool_demo_env inp = \<lparr>max_http_header_pool = 1, pool_hdr = demo_env, in_fds = \<lambda>_. True, has_input = inp, malloc_data = \<lambda>_. 0\<rparr>"

text \<open>One table and three connections: the second one gets it when the first gives it back, and the third still waits.\<close>

theorem ah_pool_semaphore_witness:
  "\<exists>gs pt. pool_run (pool_demo_env (\<lambda>_. False)) True malloc_demo [PAttach 1, PAttach 2, PAttach 3, PUse 1 demo_ah, PDetach 1] pool_init = Some (gs, pt) \<and>
     map (map_option fst) gs = [Some 1, None, None, None, Some 2] \<and> dom (http_ah pt) = {2} \<and> ll_list (ah_wait_list pt) [3] \<and>
     (\<forall>w t. Some (w, t) \<in> set gs \<longrightarrow> ah_blank t)"
proof -
  have "pool_quiet (pool_demo_env (\<lambda>_. False)) True" by (simp add: pool_quiet_def pool_demo_env_def)
  from ah_pool_semaphore [OF _ _ this malloc_demo_fresh, of "[PAttach 1, PAttach 2, PAttach 3, PUse 1 demo_ah, PDetach 1]"]
  show ?thesis by (auto simp: pool_demo_env_def)
qed


subsection \<open>A request that is handled while the pool hands over a table\<close>

text \<open>The new owner of a table may have its request buffered already; then \<open>lws_service_fd_tsi\<close> is called with the connection still in
  the list of those who wait. This is what that call does to the pool when the handling of the request ends in giving the
  table back, as it does when the connection is closed.\<close>

definition service_closes :: "pool_env \<Rightarrow> nat \<Rightarrow> ah_pool \<Rightarrow> ah_pool option" where
  "service_closes env wsi pt = map_option snd (lws_header_table_detach env (\<lambda>_ _. None) wsi False pt)"

lemma remove_absent: "ll_list (ah_wait_list pt) ws \<Longrightarrow> w \<notin> set ws \<Longrightarrow> lws_remove_from_ah_waiting_list w pt = Some (0, pt)"
  by (simp add: lws_remove_from_ah_waiting_list_def ll_list_find_none)

lemma pool_woken_detach:
  assumes inv: "pool_inv env as (ws @ [v]) pt" and w: "http_ah pt w = Some a"
  shows "lws_header_table_detach env service v auto (pool_moved w a v pt) = lws_header_table_detach env service v auto (pool_woken ws w a v pt)"
proof -
  have l: "ll_list (ah_wait_list pt) (ws @ v # [])" "ah_wait_list_length pt = int (length ws) + 1" using inv by (simp_all add: pool_inv_def)
  have "lws_remove_from_ah_waiting_list v (pool_moved w a v pt) = Some (1, pool_woken ws w a v pt)"
    using ll_list_find [OF l(1)] l(2) by (simp add: lws_remove_from_ah_waiting_list_def pool_woken_def pool_moved_def)
  moreover have "lws_remove_from_ah_waiting_list v (pool_woken ws w a v pt) = Some (0, pool_woken ws w a v pt)"
    using pool_woken_inv(1) [OF inv w] ll_list_distinct [OF l(1)] by (intro remove_absent [of _ ws]) (auto simp: pool_inv_def)
  ultimately show ?thesis by (simp add: lws_header_table_detach_def)
qed

lemma detach_unfold:
  assumes inv: "pool_inv env as ws pt" and w: "http_ah pt w = Some a"
  shows "lws_header_table_detach env service w auto pt =
    (if ws = [] then lws_destroy_ah a (pt\<lparr>http_ah := (http_ah pt)(w := None), ah_wsi := (ah_wsi pt)(a := None)\<rparr>) \<bind>
         (\<lambda>(_, pt). Some (0, pt\<lparr>ah_count_in_use := ah_count_in_use pt - 1\<rparr>))
     else detach_transfer env service a auto (last ws) (ll_after (butlast ws))
         (pt\<lparr>http_ah := (http_ah pt)(w := None), ah_wsi := (ah_wsi pt)(a := None)\<rparr>))"
proof -
  have a: "a \<in> set as" using inv w ownedD(1) unfolding pool_inv_def by blast
  moreover have "length as > 0" using a by (cases as) auto
  ultimately have use: "\<not> ah_count_in_use pt \<le> 0" "ah_in_use pt a" using inv unfolding pool_inv_def by auto
  have l: "ll_list (ah_wait_list pt) ws" "w \<notin> set ws" using inv w by (auto simp: pool_inv_def)
  show ?thesis using use w
    by (simp add: lws_header_table_detach_def remove_absent [OF l] ll_list_last [OF l(1)])
qed

lemma reentry_fails:
  assumes inv: "pool_inv env as (rev Q @ [v]) pt" and w: "http_ah pt w = Some a" and "length Q \<le> 2" "in_fds env v" "has_input env v"
  shows "lws_header_table_detach env (service_closes env) w True pt = None"
proof -
  let ?p = "pool_woken (rev Q) w a v pt"
  have q: "pool_quiet env False" by (simp add: pool_quiet_def)
  note wo = pool_woken_inv(1) [OF inv w]
  have v: "http_ah ?p v = Some a" by (simp add: pool_woken_def pool_moved_def)
  obtain r q where d: "lws_header_table_detach env (\<lambda>_ _. None) v False ?p = Some (r, q)"
    and n: "(ah_wait_list_length q - 1 \<noteq> 0) \<noteq> (ll_head (ll_unlink (ll_after (rev Q)) v (ah_wait_list q)) \<noteq> None)"
  proof (cases Q)
    case Nil
    then have wo': "pool_inv env as [] ?p" using wo by simp
    from pool_destroy [OF wo' v] obtain q as' where
      "lws_header_table_detach env (\<lambda>_ _. None) v False ?p = Some (0, q)" "pool_inv env as' [] q" "ah_wait_list q = ah_wait_list ?p"
      unfolding detach_unfold [OF wo' v] if_True simp_thms by blast
    with Nil that show ?thesis by (force simp: pool_inv_def pool_woken_def ll_unlink_def)
  next
    case (Cons x Q')
    have "v \<in> dom (http_ah ?p)" using v by auto
    with pool_detach [OF wo q, where service = "\<lambda>_ _. None" and w = v] Cons obtain r q as' where
      "lws_header_table_detach env (\<lambda>_ _. None) v False ?p = Some (r, q)" "pool_inv env as' (rev Q') q" by auto
    moreover from this(2) have "ll_head (ah_wait_list q) = None \<longleftrightarrow> Q' = []" using ll_list_head [of "ah_wait_list q" "rev Q'"] by (simp add: pool_inv_def)
    moreover have "Q' = [] \<or> length Q' = 1" using assms(3) Cons by (cases Q') auto
    ultimately show ?thesis using that Cons by (auto simp: pool_inv_def ll_unlink_def)
  qed
  from n show ?thesis
    using assms(4,5) by (auto simp: detach_unfold [OF inv w] detach_transfer_eq service_closes_def pool_woken_detach [OF inv w] d Let_def)
qed

text \<open>C34: In every state that a history of the pool leads to, when a connection gives its table back, the connection that waited longest
  has its request buffered, and at most two more wait, then handling that request from inside of \<open>lws_header_table_detach\<close>
  leads to a failed assertion if it ends in giving the table back: the connection was taken off the list by the inner call, and the outer
  call takes it off and counts it once more.\<close>

theorem pool_service_reentry:
  assumes "0 \<le> max_http_header_pool env" "max_http_header_pool env < 2 ^ 31" "alloc_fresh alloc"
    and "pool_run env False alloc cmds pool_init = Some (gs, pt)"
    and "sem_run (nat (max_http_header_pool env)) cmds ({}, []) = (rs, H, v # Q)"
    and "w \<in> H" "length Q \<le> 2" "in_fds env v" "has_input env v"
  shows "lws_header_table_detach env (service_closes env) w True pt = None"
proof -
  have "pool_sim env pt (H, v # Q)"
    using pool_run_sim [OF pool_sim_init [OF assms(1,2)] _ _ assms(3), where auto = False and cmds = cmds] assms(4,5) by (auto simp: pool_quiet_def)
  then obtain as a where "pool_inv env as (rev Q @ [v]) pt" "http_ah pt w = Some a" using assms(6) by (auto simp: pool_sim_def)
  from reentry_fails [OF this assms(7-9)] show ?thesis .
qed

theorem pool_service_reentry_witness:
  "\<exists>gs pt. pool_run (pool_demo_env (\<lambda>w. w = 2)) False malloc_demo [PAttach 1, PAttach 2] pool_init = Some (gs, pt) \<and>
     lws_header_table_detach (pool_demo_env (\<lambda>w. w = 2)) (service_closes (pool_demo_env (\<lambda>w. w = 2))) 1 True pt = None"
proof -
  let ?e = "pool_demo_env (\<lambda>w. w = 2)"
  have e: "0 \<le> max_http_header_pool ?e" "max_http_header_pool ?e < 2 ^ 31" "in_fds ?e 2" "has_input ?e 2" by (simp_all add: pool_demo_env_def)
  have "pool_quiet ?e False" by (simp add: pool_quiet_def)
  from pool_run_sim [OF pool_sim_init [OF e(1,2)] _ this malloc_demo_fresh, of "[PAttach 1, PAttach 2]"] obtain gs pt where
    r: "pool_run ?e False malloc_demo [PAttach 1, PAttach 2] pool_init = Some (gs, pt)" by auto
  have "sem_run (nat (max_http_header_pool ?e)) [PAttach 1, PAttach 2] ({}, []) = ([Some 1, None], {1}, [2])" by (simp add: pool_demo_env_def)
  from pool_service_reentry [OF e(1,2) malloc_demo_fresh r this _ _ e(3,4), of 1] r show ?thesis by auto
qed

end
