(* ===== verification/Spec2Isabelle.thy ===== *)
theory Spec2Isabelle
  imports Lws_Ring Base64 Http_Request Ranges Ws_Errors Ws_Link Ws_Flow Sha1 Ah_Pool
begin

text \<open>
  A verification library for the websocket server of this repository, which is libwebsockets (\<open>src/libwebsockets\<close>) with plugins
  of its own. Modelled is what a connection goes through from the bytes of an HTTP request to the messages of a websocket: the
  header table it is given, the header parser, the frame receiver with the buffers in front of it, the frame sender with the
  buffers behind it, and the codecs and containers these use.

  \<^bold>\<open>Conventions.\<close> The models are functions with explicit state. A C structure is a record, an enumeration a datatype, bytes are
  \<open>8 word\<close>, and memory is a list that is read and written through \<open>rd\<close>, \<open>wr\<close>, \<open>rds\<close> and \<open>memcpy_to\<close> (\<open>Lws_Prelude\<close>). The result
  \<open>None\<close> stands for undefined behaviour, such as an access outside of an array, or for an assertion that fails; so a theorem that
  an operation returns \<open>Some\<close> is a theorem of memory safety and termination. Values that C keeps in 32 bits are \<open>nat\<close> or \<open>int\<close>
  with the wrap-around written out (\<open>add32\<close>, \<open>int_of32\<close>, \<open>nat32\<close>). The user's callback, the socket, the allocator and the clock are
  not part of the sources: they are arguments, and what the callback was told is recorded in the state.

  \<^bold>\<open>The parts\<close>, each with its theory and its source.

  \<^item> \<open>Lws_Prelude\<close>: the types, memory and C arithmetic that all theories share. \<open>Llist\<close>: linked lists as chains of pointers.
  \<^item> \<open>Fifo\<close>, \<open>Circular\<close>, \<open>Lws_Ring\<close>: the ring buffer with many tails (\<open>lib/misc/lws-ring.c\<close>). \<open>Fifo\<close> is the interface of a queue, as a
    locale; \<open>Lws_Ring\<close> interprets it. Shown are the exact effect of insertion and consumption across the wrap, that any
    history behaves like a queue, that consumers are never overrun, and the capacity of a ring.
  \<^item> \<open>Base64\<close> (\<open>lib/misc/base64-decode.c\<close>): the codec in both alphabets; round trip, bounds, safety of the decoder on any input.
  \<^item> \<open>Sha1\<close> (\<open>lib/misc/sha-1.c\<close>): the digest equals a direct transcription of FIPS 180-1.
  \<^item> \<open>Ah_Pool\<close> (\<open>lib/roles/http/server/parsers.c\<close>): the pool of header tables refines a semaphore with a queue, and a table that changes
    hands is blank; a re-entrant call breaks it.
  \<^item> \<open>Lextable\<close> (\<open>lib/roles/http/lextable.h\<close>, \<open>lextable-strings.h\<close>): the byte-coded trie accepts exactly the names of the headers.
  \<^item> \<open>Http_Headers\<close>, \<open>Http_Uri\<close>, \<open>Http_Parse\<close>, \<open>Http_Request\<close> (\<open>parsers.c\<close>, \<open>lib/roles/http/private.h\<close>): the storage of headers, the decoder of the
    request target, the header parser with one definition for each state, and requests as a whole. Shown are the well-formedness of
    the table, memory safety for any input, that it does not matter how the input is cut, that header accessors return what was
    stored, and that the path of a request whose target starts with a slash is stored without a segment \<open>..\<close>. The header data is
    at most 65535 bytes, because the length of a fragment has 16 bits.
  \<^item> \<open>Ranges\<close> (\<open>lib/roles/http/server/ranges.c\<close>): the parser of the range header; headers with ranges inside of the file are
    parsed into these ranges.
  \<^item> \<open>Buflist\<close> (\<open>lib/core/libwebsockets.c\<close>, \<open>service.c\<close>, \<open>lib/roles/h1/ops-h1.c\<close>): the list of buffered input segments, the flow control cache
    and the reading part of \<open>lws_h1_server_socket_service\<close>; no byte is lost, duplicated or reordered while the list has room.
  \<^item> \<open>Output\<close> (\<open>lib/core/output.c\<close>): \<open>lws_issue_raw\<close> with the list of bytes the socket has not taken.
  \<^item> \<open>Ws_Utf8\<close> (\<open>lib/roles/ws/ops-ws.c\<close>): the UTF-8 checker accepts exactly the encodings of scalar values.
  \<^item> \<open>Ws_Conn\<close>, \<open>Ws_Rx\<close>, \<open>Ws_Frames\<close>, \<open>Ws_Errors\<close> (\<open>lib/roles/ws/ops-ws.c\<close>, \<open>server-ws.c\<close>, \<open>private.h\<close>): the state of a connection and the receiver. \<open>Ws_Rx\<close>
    has the state machine, the bulk path and the loop over a buffer with the invariant they keep; \<open>Ws_Frames\<close> shows what the
    callback is told for a sequence of messages and control frames, \<open>Ws_Errors\<close> which first bytes are refused.
  \<^item> \<open>Ws_Tx\<close> (\<open>ops-ws.c\<close>, \<open>output.c\<close>, \<open>service.c\<close>): the sender, for servers and clients, and the POLLOUT event.
  \<^item> \<open>Ws_Flow\<close> (\<open>ops-ws.c\<close>, \<open>lib/roles/h1/ops-h1.c\<close>): the reading part of the POLLIN event.
  \<^item> \<open>Ws_Link\<close>: sender and receiver together: what a client writes is what the server's callback is told, whatever the socket takes
    and however the network cuts the stream; and a ping is answered after finitely many events.

  \<^bold>\<open>How they interact.\<close> \<open>Ah_Pool\<close> hands out the tables of \<open>Http_Headers\<close>, which \<open>Http_Parse\<close> fills through \<open>Lextable\<close> and \<open>Http_Uri\<close>. \<open>Ws_Rx\<close>
  reads through \<open>Buflist\<close> and checks text with \<open>Ws_Utf8\<close>; \<open>Ws_Tx\<close> writes through \<open>Output\<close>; \<open>Ws_Flow\<close> and \<open>Ws_Link\<close> join them.

  \<^bold>\<open>Bounds and loops.\<close> There is no fuel. Loops over data are structural or have a measure; loops over chains of fragments and of list
  elements, which could be cyclic, are \<open>partial_function (option)\<close>, and that they end is part of the theorems. Hypotheses such as
  lengths below \<open>2 ^ 31\<close> are where C keeps a length in an \<open>int\<close>.

  \<^bold>\<open>Deviations that the proofs show.\<close> Some theorems and lemmas state behaviour that is not intended: a ring of one-byte elements holds
  one element too many; the base64 encoder refuses a buffer that fits exactly; a target without a slash in front and a header that
  looks like the arguments of a request target get past the path check; the range parser jumps over a character after an
  unsatisfiable range, over the terminator when the header ends there, and does not compare the bytes of a range with the size of
  the file; the reserved bit RSV1 is accepted although no extension can have been negotiated; a text message may end inside of a
  character; bytes are lost when the list of segments is full; a frame written behind pending bytes leaves the next one without a
  header; and assertions fail when the callback stops the input while buffered input is parsed, or when a request is handled from
  inside of the pool.

  \<^bold>\<open>Not modelled.\<close> TLS, the event libraries, the platform code and the other roles are input and output or wrappers of libraries that
  are not in the sources. HTTP/2, the client's handshake and parser, the extensions (\<open>permessage-deflate\<close> calls zlib), the
  service loop, contexts and vhosts, CGI, the JSON parser, the JOSE code, the full text search and the thread pool are not covered, nor
  are the plugins, whose work is in services that are not in the sources. The build is the default one without extensions; for
  the pool it is also one without a client and without peer limits. Big-endian machines are not covered in \<open>Sha1\<close>.
\<close>

end
